(* ===== verification/Webserver_Prelude.thy ===== *)
theory Webserver_Prelude
  imports Main "HOL-Library.AList" "HOL-Library.Word" "HOL-Library.Sublist"
    "HOL-Library.Monad_Syntax" "HOL-Library.Signed_Division"
begin

text \<open>
  What every component of the server shares: the part of the C++ standard library the
  sources call (\<open>std::string\<close> searching and slicing, \<open>std::getline\<close>, \<open>operator>>\<close>,
  \<open>std::to_string\<close>, \<open>std::stoull\<close>, \<open>std::stoi\<close>, \<open>::tolower\<close>,
  \<open>duration_cast\<close>), the reading of \<open>std::unordered_map\<close> as an association list with
  distinct keys, and the locale of inductive invariants the state machines use.

  Conventions.  A \<open>std::string\<close> or \<open>std::vector<char>\<close> is a \<open>string\<close> (a list of bytes).
  A \<open>size_t\<close> that only counts or indexes a list is a \<open>nat\<close>; where the code does
  arithmetic that can wrap it is a \<open>64 word\<close>.  A \<open>steady_clock\<close> reading is an \<open>int\<close> in
  nanoseconds and is passed in as an argument, one argument per call of \<open>now()\<close> in
  program order.  A C++ exception is the \<open>Inl\<close> side of a sum.
\<close>

section \<open>Types\<close>

type_synonym u64 = "64 word"
type_synonym u32 = "32 word"
type_synonym clock = int

text \<open>The exception classes the sources catch or let escape.\<close>

datatype std_error =
    Invalid_argument
  | Out_of_range
  | Length_error
  | Runtime_error string
  | Filesystem_error

named_theorems str_defs \<open>definitions of the modelled string library\<close>
named_theorems inv_intros \<open>preservation lemmas of component invariants\<close>

section \<open>Characters\<close>

definition is_space :: "char \<Rightarrow> bool" where
  \<comment> \<open>\<open>std::isspace\<close> in the C locale\<close>
  "is_space c \<longleftrightarrow> c \<in> {CHR '' '', CHR 0x09, CHR 0x0A, CHR 0x0B, CHR 0x0C, CHR 0x0D}"

definition is_blank :: "char \<Rightarrow> bool" where
  \<comment> \<open>the set \<open>" \t"\<close> the sources trim\<close>
  "is_blank c \<longleftrightarrow> c \<in> {CHR '' '', CHR 0x09}"

definition is_digit :: "char \<Rightarrow> bool" where
  "is_digit c \<longleftrightarrow> 48 \<le> (of_char c :: nat) \<and> (of_char c :: nat) \<le> 57"

definition to_lower :: "char \<Rightarrow> char" where
  \<comment> \<open>\<open>::tolower\<close> in the C locale\<close>
  "to_lower c = (if 65 \<le> (of_char c :: nat) \<and> (of_char c :: nat) \<le> 90
                 then char_of ((of_char c :: nat) + 32) else c)"

definition lower :: "string \<Rightarrow> string" where
  \<comment> \<open>\<open>std::transform(s.begin(), s.end(), s.begin(), ::tolower)\<close>\<close>
  "lower s = map to_lower s"

definition schar :: "char \<Rightarrow> int" where
  \<comment> \<open>the value of a \<open>char\<close>, which is signed on the server's target (x86-64 Linux)\<close>
  "schar c = (let n = (of_char c :: int) in if 128 \<le> n then n - 256 else n)"

section \<open>Searching and slicing\<close>

fun find_char :: "char \<Rightarrow> string \<Rightarrow> nat option" where
  \<comment> \<open>\<open>s.find(c)\<close>, \<open>npos\<close> as \<open>None\<close>\<close>
  "find_char c [] = None"
| "find_char c (x # xs) = (if x = c then Some 0 else map_option Suc (find_char c xs))"

fun find_last_char :: "char \<Rightarrow> string \<Rightarrow> nat option" where
  \<comment> \<open>\<open>s.find_last_of(c)\<close>\<close>
  "find_last_char c [] = None"
| "find_last_char c (x # xs) =
     (case find_last_char c xs of
        Some i \<Rightarrow> Some (Suc i)
      | None \<Rightarrow> if x = c then Some 0 else None)"

fun find_sub :: "string \<Rightarrow> string \<Rightarrow> nat option" where
  \<comment> \<open>\<open>s.find(pat)\<close> for a string pattern\<close>
  "find_sub pat [] = (if pat = [] then Some 0 else None)"
| "find_sub pat (x # xs) =
     (if take (length pat) (x # xs) = pat then Some 0
      else map_option Suc (find_sub pat xs))"

definition ltrim :: "string \<Rightarrow> string" where
  \<comment> \<open>\<open>value.erase(0, value.find_first_not_of(" \t"))\<close>: with \<open>npos\<close> everything is erased\<close>
  "ltrim s = dropWhile is_blank s"

definition rtrim :: "string \<Rightarrow> string" where
  \<comment> \<open>\<open>name.erase(name.find_last_not_of(" \t") + 1)\<close>: \<open>npos + 1\<close> is 0, so a blank
      string is erased whole\<close>
  "rtrim s = rev (dropWhile is_blank (rev s))"

function getlines :: "char \<Rightarrow> string \<Rightarrow> string list" where
  \<comment> \<open>the lines of \<open>while (std::getline(stream, line, d))\<close>: the delimiter ends a line, and
      the call fails only when no character is left\<close>
  "getlines d s =
     (if s = [] then []
      else takeWhile (\<lambda>c. c \<noteq> d) s # getlines d (drop 1 (dropWhile (\<lambda>c. c \<noteq> d) s)))"
  by pat_completeness auto
termination
proof (relation "measure (\<lambda>(d, s). length s)", simp, clarsimp)
  fix d :: char and s :: string
  assume "s \<noteq> []"
  then show "length (dropWhile (\<lambda>c. c \<noteq> d) s) - Suc 0 < length s"
    using length_dropWhile_le [of "\<lambda>c. c \<noteq> d" s] by (cases s) auto
qed

declare getlines.simps [simp del]

definition strip_cr :: "string \<Rightarrow> string" where
  \<comment> \<open>\<open>if (!line.empty() && line.back() == '\r') line.pop_back()\<close>\<close>
  "strip_cr l = (if l \<noteq> [] \<and> last l = CHR 0x0D then butlast l else l)"

definition next_word :: "string \<Rightarrow> (string \<times> string) option" where
  \<comment> \<open>\<open>stream >> word\<close>: skips white space, fails when nothing is left\<close>
  "next_word s =
     (let s1 = dropWhile is_space s
      in if s1 = [] then None
         else Some (takeWhile (\<lambda>c. \<not> is_space c) s1, dropWhile (\<lambda>c. \<not> is_space c) s1))"

definition starts_with :: "string \<Rightarrow> string \<Rightarrow> bool" where
  "starts_with pat s \<longleftrightarrow> take (length pat) s = pat"

lemmas [str_defs] = is_space_def is_blank_def is_digit_def to_lower_def lower_def
  ltrim_def rtrim_def strip_cr_def next_word_def starts_with_def

lemmas char_eval = char_of_def bit_Suc_0_iff \<comment> \<open>evaluate \<open>char_of\<close> on numerals\<close>

section \<open>Numbers\<close>

fun dec_digits :: "nat \<Rightarrow> string" where
  "dec_digits n = (if n < 10 then [char_of (48 + n)]
                   else dec_digits (n div 10) @ [char_of (48 + n mod 10)])"

declare dec_digits.simps [simp del]

definition digit_value :: "char \<Rightarrow> int" where
  "digit_value c = of_char c - 48"

definition dec_value :: "string \<Rightarrow> int" where
  "dec_value ds = foldl (\<lambda>n c. 10 * n + digit_value c) 0 ds"

definition scan_number :: "string \<Rightarrow> (bool \<times> int) option" where
  \<comment> \<open>what \<open>strtoull\<close> and \<open>strtol\<close> accept in base 10: white space, an optional sign, at
      least one digit; anything after the digits is ignored.  The result is the sign and
      the magnitude.\<close>
  "scan_number s =
     (let s1 = dropWhile is_space s;
          neg = (s1 \<noteq> [] \<and> hd s1 = CHR ''-'');
          s2 = (if s1 \<noteq> [] \<and> (hd s1 = CHR ''-'' \<or> hd s1 = CHR ''+'') then tl s1 else s1);
          ds = takeWhile is_digit s2
      in if ds = [] then None else Some (neg, dec_value ds))"

definition stoull :: "string \<Rightarrow> std_error + u64" where
  \<comment> \<open>\<open>std::stoull\<close> (and \<open>std::stoul\<close>, the same on LP64): a minus sign negates modulo 2^64\<close>
  "stoull s =
     (case scan_number s of
        None \<Rightarrow> Inl Invalid_argument
      | Some (neg, n) \<Rightarrow>
          if 2 ^ 64 \<le> n then Inl Out_of_range
          else Inr (if neg then - word_of_int n else word_of_int n))"

definition stoi :: "string \<Rightarrow> std_error + int" where
  \<comment> \<open>\<open>std::stoi\<close> with a 32-bit \<open>int\<close>\<close>
  "stoi s =
     (case scan_number s of
        None \<Rightarrow> Inl Invalid_argument
      | Some (neg, n) \<Rightarrow>
          (let v = (if neg then - n else n)
           in if v < - (2 ^ 31) \<or> 2 ^ 31 - 1 < v then Inl Out_of_range else Inr v))"

section \<open>Durations\<close>

definition duration_seconds :: "clock \<Rightarrow> int" where
  \<comment> \<open>\<open>duration_cast<seconds>\<close>: truncates towards zero\<close>
  "duration_seconds d = d sdiv 1000000000"

definition duration_millis :: "clock \<Rightarrow> int" where
  "duration_millis d = d sdiv 1000000"

lemma duration_seconds_nonneg: "0 \<le> d \<Longrightarrow> duration_seconds d = d div 1000000000"
  by (cases "d = 0") (simp_all add: duration_seconds_def signed_divide_int_def)

lemma duration_millis_nonneg: "0 \<le> d \<Longrightarrow> duration_millis d = d div 1000000"
  by (cases "d = 0") (simp_all add: duration_millis_def signed_divide_int_def)

section \<open>Associations and node lists\<close>

lemma keys_delete: "fst ` set (AList.delete k m) = fst ` set m - {k}"
  by (metis AList.delete_keys list.set_map set_removeAll)

lemma keys_update: "fst ` set (AList.update k v m) = insert k (fst ` set m)"
  by (simp add: AList.dom_update)

lemma snd_image_filter_neq: "snd ` set (filter (\<lambda>n. snd n \<noteq> k) xs) = snd ` set xs - {k}"
  by force

section \<open>Lemmas on the string library\<close>

lemma getlines_Nil [simp]: "getlines d [] = []"
  by (simp add: getlines.simps)

lemma takeWhile_line: "d \<notin> set l \<Longrightarrow> takeWhile (\<lambda>c. c \<noteq> d) (l @ d # r) = l"
  and dropWhile_line: "d \<notin> set l \<Longrightarrow> dropWhile (\<lambda>c. c \<noteq> d) (l @ d # r) = d # r"
  by (induction l) auto

lemma getlines_line: "d \<notin> set l \<Longrightarrow> getlines d (l @ d # r) = l # getlines d r"
  by (subst getlines.simps) (simp add: takeWhile_line dropWhile_line)

lemma getlines_last:
  assumes "l \<noteq> []" and "d \<notin> set l"
  shows "getlines d l = [l]"
proof -
  have "takeWhile (\<lambda>c. c \<noteq> d) l = l" "dropWhile (\<lambda>c. c \<noteq> d) l = []"
    using assms(2) by (auto simp: takeWhile_eq_all_conv dropWhile_eq_Nil_conv)
  then show ?thesis
    by (subst getlines.simps) (simp only: assms(1) drop_Nil getlines_Nil if_False)
qed

lemma find_char_None [simp]: "find_char c l = None \<longleftrightarrow> c \<notin> set l"
  by (induction l) auto

lemma find_char_app: "c \<notin> set l \<Longrightarrow> find_char c (l @ c # r) = Some (length l)"
  by (induction l) auto

lemma find_char_Some:
  "find_char c s = Some i \<Longrightarrow> i < length s \<and> s ! i = c \<and> c \<notin> set (take i s)"
  by (induction s arbitrary: i) (auto split: if_splits)

lemma find_last_char_None [simp]: "find_last_char c l = None \<longleftrightarrow> c \<notin> set l"
  by (induction l) (auto split: option.splits)

lemma find_last_char_app: "c \<notin> set r \<Longrightarrow> find_last_char c (l @ c # r) = Some (length l)"
  by (induction l) (auto split: option.splits)

lemma strip_cr_snoc [simp]: "strip_cr (l @ [CHR 0x0D]) = l"
  by (simp add: strip_cr_def)

lemma strip_cr_id: "l = [] \<or> last l \<noteq> CHR 0x0D \<Longrightarrow> strip_cr l = l"
  by (auto simp: strip_cr_def)

lemma ltrim_blank [simp]: "ltrim (CHR '' '' # s) = ltrim s"
  by (simp add: ltrim_def is_blank_def)

lemma ltrim_id: "s = [] \<or> \<not> is_blank (hd s) \<Longrightarrow> ltrim s = s"
  by (cases s) (auto simp: ltrim_def)

lemma rtrim_id: "s = [] \<or> \<not> is_blank (last s) \<Longrightarrow> rtrim s = s"
  by (cases s rule: rev_cases) (auto simp: rtrim_def)

lemma word_takeWhile:
  assumes "\<forall>c \<in> set w. \<not> is_space c" and "r = [] \<or> is_space (hd r)"
  shows "takeWhile (\<lambda>c. \<not> is_space c) (w @ r) = w" "dropWhile (\<lambda>c. \<not> is_space c) (w @ r) = r"
  using assms by (induction w) (cases r; simp)+

lemma next_word_app:
  assumes "w \<noteq> []" and "\<forall>c \<in> set w. \<not> is_space c" and "r = [] \<or> is_space (hd r)"
  shows "next_word (w @ r) = Some (w, r)" "next_word (CHR '' '' # w @ r) = Some (w, r)"
proof -
  have "dropWhile is_space (w @ r) = w @ r" "is_space (CHR '' '')"
    using assms(1,2) by (cases w; simp add: is_space_def)+
  then show "next_word (w @ r) = Some (w, r)" "next_word (CHR '' '' # w @ r) = Some (w, r)"
    using assms(1) word_takeWhile [OF assms(2,3)] by (simp_all add: next_word_def)
qed

subsection \<open>Printing and reading numbers\<close>

lemma dec_value_snoc: "dec_value (s @ [c]) = 10 * dec_value s + digit_value c"
  by (simp add: dec_value_def)

lemma digit_of_nat: "n < 10 \<Longrightarrow> digit_value (char_of (48 + n)) = int n"
proof -
  assume "n < 10"
  moreover have "(of_char (char_of (48 + n)) :: int) = int (of_char (char_of (48 + n)))"
    by (simp only: of_nat_of_char)
  ultimately show ?thesis by (simp add: digit_value_def)
qed

lemma dec_digits_props:
  "dec_digits n \<noteq> [] \<and> (\<forall>c \<in> set (dec_digits n). is_digit c) \<and> dec_value (dec_digits n) = int n"
proof (induction n rule: dec_digits.induct)
  case (1 n)
  have digit: "is_digit (char_of (48 + k))" if "k < 10" for k :: nat
    using that by (simp add: is_digit_def)
  show ?case
  proof (cases "n < 10")
    case True
    then show ?thesis
      by (subst (1 2 3) dec_digits.simps) (simp add: digit digit_of_nat dec_value_def)
  next
    case False
    from False 1 have IH: "\<forall>c \<in> set (dec_digits (n div 10)). is_digit c"
      "dec_value (dec_digits (n div 10)) = int (n div 10)" by auto
    have "10 * int (n div 10) + int (n mod 10) = int n" by presburger
    with False IH show ?thesis
      by (subst (1 2 3) dec_digits.simps)
        (simp add: digit dec_value_snoc digit_of_nat del: of_nat_add)
  qed
qed

lemma digit_not_special:
  "is_digit c \<Longrightarrow> \<not> is_space c \<and> \<not> is_blank c \<and> c \<noteq> CHR ''-'' \<and> c \<noteq> CHR ''+'' \<and>
     c \<noteq> CHR '':'' \<and> c \<noteq> CHR 0x0A \<and> c \<noteq> CHR 0x0D"
  by (auto simp: is_digit_def is_space_def is_blank_def)

lemma scan_number_digits:
  assumes "ds \<noteq> []" and "\<forall>c \<in> set ds. is_digit c"
  shows "scan_number ds = Some (False, dec_value ds)"
proof -
  have "dropWhile is_space ds = ds" "hd ds \<noteq> CHR ''-''" "hd ds \<noteq> CHR ''+''"
    "takeWhile is_digit ds = ds"
    using assms digit_not_special by (cases ds; fastforce simp: takeWhile_eq_all_conv)+
  with assms(1) show ?thesis
    unfolding scan_number_def Let_def by (simp only: if_False simp_thms)
qed

lemma stoull_dec_digits:
  "n < 2 ^ 64 \<Longrightarrow> stoull (dec_digits n) = Inr (word_of_nat n)"
  using dec_digits_props [of n] by (simp add: stoull_def scan_number_digits)

end
