(* ===== verification/Interfaces.thy ===== *)
theory Interfaces
  imports Webserver_Prelude
begin

text \<open>
  The contracts between components, as locales.
  \<^item> \<open>hash_map\<close>: what the sources rely on in \<open>std::unordered_map\<close>; interpreted here on
    association lists with distinct keys, the model's reading of it.
  \<^item> \<open>content_cache\<close>, \<open>bounded_cache\<close>: what \<open>FileHandler\<close> relies on in its cache;
    interpreted in \<open>Lru_Cache\<close>.
  \<^item> \<open>inductive_invariant\<close>: an invariant of a step relation; interpreted for every state
    machine of the development.
  \<^item> \<open>simulation\<close>: a refinement mapping from one machine to another, as long as the first is live;
    interpreted for the whole program and its parts.
\<close>

section \<open>Hash maps\<close>

locale hash_map =
  fixes lookup :: "'m \<Rightarrow> 'k \<Rightarrow> 'v option"
    and insert_or_assign :: "'k \<Rightarrow> 'v \<Rightarrow> 'm \<Rightarrow> 'm"
    and erase :: "'k \<Rightarrow> 'm \<Rightarrow> 'm"
    and count :: "'m \<Rightarrow> nat"
    and invar :: "'m \<Rightarrow> bool"
  assumes lookup_insert: "invar m \<Longrightarrow> lookup (insert_or_assign k v m) = (lookup m)(k \<mapsto> v)"
    and lookup_erase: "invar m \<Longrightarrow> lookup (erase k m) = (lookup m)(k := None)"
    and count_lookup: "invar m \<Longrightarrow> count m = card (dom (lookup m)) \<and> finite (dom (lookup m))"
    and invar_insert: "invar m \<Longrightarrow> invar (insert_or_assign k v m)"
    and invar_erase: "invar m \<Longrightarrow> invar (erase k m)"
begin

lemma count_insert:
  "invar m \<Longrightarrow> count (insert_or_assign k v m) = (if lookup m k = None then Suc (count m) else count m)"
  using count_lookup [of m] count_lookup [OF invar_insert, of m k v]
  by (simp add: lookup_insert card_insert_if domIff)

lemma count_erase:
  "invar m \<Longrightarrow> count (erase k m) = (if lookup m k = None then count m else count m - 1)"
  using count_lookup [of m] count_lookup [OF invar_erase, of m k]
  by (simp add: lookup_erase card_Diff_singleton_if domIff)

lemma count_erase_le: "invar m \<Longrightarrow> count (erase k m) \<le> count m"
  by (simp add: count_erase)

end

lemma card_dom_map_of: "distinct (map fst m) \<Longrightarrow> card (dom (map_of m)) = length m"
  using distinct_card [of "map fst m"] by (simp add: dom_map_of_conv_image_fst)

interpretation umap: hash_map map_of AList.update AList.delete length "\<lambda>m. distinct (map fst m)"
  by unfold_locales
    (simp_all add: AList.update_conv' AList.delete_conv' distinct_update distinct_delete
      card_dom_map_of finite_dom_map_of)

section \<open>The cache a file server relies on\<close>

definition coherent :: "('c \<Rightarrow> string \<Rightarrow> (string \<times> string) option) \<Rightarrow>
    (string \<Rightarrow> string \<times> string) \<Rightarrow> 'c \<Rightarrow> bool" where
  \<comment> \<open>everything held is the content (data and type) of its key\<close>
  "coherent held content c \<longleftrightarrow> (\<forall>k v. held c k = Some v \<longrightarrow> v = content k)"

locale content_cache =
  fixes cget :: "clock \<Rightarrow> clock \<Rightarrow> string \<Rightarrow> 'c \<Rightarrow> 'e option \<times> 'c"
    and cput :: "clock \<Rightarrow> string \<Rightarrow> string \<Rightarrow> string \<Rightarrow> 'c \<Rightarrow> 'c option"
    and edata :: "'e \<Rightarrow> string"
    and etype :: "'e \<Rightarrow> string"
    and held :: "'c \<Rightarrow> string \<Rightarrow> (string \<times> string) option"
    and cinv :: "'c \<Rightarrow> bool"
  assumes get_inv: "cinv c \<Longrightarrow> cget t1 t2 k c = (r, c') \<Longrightarrow> cinv c'"
    and get_hit: "cinv c \<Longrightarrow> cget t1 t2 k c = (Some e, c') \<Longrightarrow> held c k = Some (edata e, etype e)"
    and get_miss: "cinv c \<Longrightarrow> cget t1 t2 k c = (None, c') \<Longrightarrow> held c' k = None"
    and get_held: "cinv c \<Longrightarrow> cget t1 t2 k c = (r, c') \<Longrightarrow> held c' j = held c j \<or> held c' j = None"
    and put_returns: "cinv c \<Longrightarrow> \<exists>c'. cput t k d ct c = Some c'"
    and put_inv: "cinv c \<Longrightarrow> cput t k d ct c = Some c' \<Longrightarrow> cinv c'"
    and put_held: "cinv c \<Longrightarrow> cput t k d ct c = Some c' \<Longrightarrow>
        held c' j = held c j \<or> held c' j = None \<or> j = k \<and> held c' j = Some (d, ct)"
begin

lemma get_coherent:
  "cinv c \<Longrightarrow> coherent held content c \<Longrightarrow> cget t1 t2 k c = (r, c') \<Longrightarrow> coherent held content c'"
  unfolding coherent_def using get_held by (metis option.distinct(1))

lemma put_coherent:
  "cinv c \<Longrightarrow> coherent held content c \<Longrightarrow> cput t k d ct c = Some c' \<Longrightarrow> content k = (d, ct) \<Longrightarrow>
   coherent held content c'"
  unfolding coherent_def using put_held by (metis option.distinct(1) option.inject)

lemma hit_content:
  "cinv c \<Longrightarrow> coherent held content c \<Longrightarrow> cget t1 t2 k c = (Some e, c') \<Longrightarrow>
   (edata e, etype e) = content k"
  unfolding coherent_def using get_hit by blast

end

locale bounded_cache = content_cache +
  fixes used :: "'a \<Rightarrow> nat"
    and limit :: "'a \<Rightarrow> nat"
  assumes get_used: "cinv c \<Longrightarrow> cget t1 t2 k c = (r, c') \<Longrightarrow> used c' \<le> used c \<and> limit c' = limit c"
    and put_used: "cinv c \<Longrightarrow> used c + length d < 2 ^ 64 \<Longrightarrow> held c k = None \<Longrightarrow>
        cput t k d ct c = Some c' \<Longrightarrow> used c' \<le> max (used c) (limit c) \<and> limit c' = limit c"
begin

text \<open>A \<open>put\<close> that follows a missed \<open>get\<close> of the same key keeps the cache within its limit.\<close>

lemma miss_put_within_limit:
  assumes "cinv c" and "used c \<le> limit c" and "limit c + length d < 2 ^ 64"
    and "cget t1 t2 k c = (None, c1)" and "cput t k d ct c1 = Some c2"
  shows "used c2 \<le> limit c2 \<and> limit c2 = limit c"
proof -
  note g = get_used [OF assms(1,4)]
  have "used c1 + length d < 2 ^ 64" using g assms(2,3) by linarith
  from put_used [OF get_inv [OF assms(1,4)] this get_miss [OF assms(1,4)] assms(5)] g assms(2)
  show ?thesis by simp
qed

lemma get_within_limit:
  "cinv c \<Longrightarrow> used c \<le> limit c \<Longrightarrow> cget t1 t2 k c = (r, c') \<Longrightarrow> used c' \<le> limit c' \<and> limit c' = limit c"
  using get_used by fastforce

end

section \<open>State machines\<close>

inductive reachable :: "('s \<Rightarrow> bool) \<Rightarrow> ('s \<Rightarrow> 's \<Rightarrow> bool) \<Rightarrow> 's \<Rightarrow> bool"
  for init step where
  start: "init s \<Longrightarrow> reachable init step s"
| next_state: "reachable init step s \<Longrightarrow> step s s' \<Longrightarrow> reachable init step s'"

locale inductive_invariant =
  fixes init :: "'s \<Rightarrow> bool"
    and step :: "'s \<Rightarrow> 's \<Rightarrow> bool"
    and invar :: "'s \<Rightarrow> bool"
  assumes init_inv: "init s \<Longrightarrow> invar s"
    and step_inv: "invar s \<Longrightarrow> step s s' \<Longrightarrow> invar s'"
begin

lemma reachable_inv: "reachable init step s \<Longrightarrow> invar s"
  by (induction rule: reachable.induct) (auto intro: init_inv step_inv)

lemma steps_inv: "invar s \<Longrightarrow> step\<^sup>*\<^sup>* s s' \<Longrightarrow> invar s'"
  by (rotate_tac 1, induction rule: rtranclp_induct) (auto intro: step_inv)

end

lemma reachable_rtranclp: "reachable init step s \<Longrightarrow> step\<^sup>*\<^sup>* s s' \<Longrightarrow> reachable init step s'"
  by (rotate_tac 1, induction rule: rtranclp_induct) (auto intro: reachable.next_state)

locale simulation =
  fixes init :: "'s \<Rightarrow> bool"
    and step :: "'s \<Rightarrow> 's \<Rightarrow> bool"
    and abs :: "'s \<Rightarrow> 'a"
    and abs_init :: "'a \<Rightarrow> bool"
    and abs_step :: "'a \<Rightarrow> 'a \<Rightarrow> bool"
    and live :: "'s \<Rightarrow> bool"
  assumes init_sim: "init s \<Longrightarrow> abs_init (abs s)"
    and live_before: "step s s' \<Longrightarrow> live s' \<Longrightarrow> live s"
    and step_sim: "step s s' \<Longrightarrow> live s' \<Longrightarrow> abs s' = abs s \<or> abs_step (abs s) (abs s')"
begin

lemma reachable_sim: "reachable init step s \<Longrightarrow> live s \<Longrightarrow> reachable abs_init abs_step (abs s)"
proof (induction rule: reachable.induct)
  case (start s)
  then show ?case by (intro reachable.start init_sim)
next
  case (next_state s s')
  then have "reachable abs_init abs_step (abs s)" using live_before by blast
  with step_sim [OF next_state(2,4)] show ?case by (auto intro: reachable.next_state)
qed

end

end
