(* ===== verification/Lru_Cache.thy ===== *)
theory Lru_Cache
  imports Interfaces
begin

text \<open>
  The file cache: \<open>include/cache.h\<close>, \<open>src/cache.cpp\<close> (class \<open>LRUCache\<close>).

  \<^item> \<open>CacheEntry\<close> is the record \<open>cache_entry\<close>.
  \<^item> \<open>cache_\<close> is an association list from keys to an entry and the list iterator stored
    with it; \<open>lru_list_\<close> is the list of its nodes, most recently used first.  A node is
    its identity (a fresh number) and the key it holds; a \<open>std::list\<close> iterator is the
    identity of the node it points to, so that which node an \<open>erase(list_it)\<close> removes
    depends on the iterator the code stored, not on the key.
  \<^item> \<open>max_size_bytes_\<close>, \<open>current_size_\<close> and the counters are \<open>size_t\<close>, that is
    \<open>64 word\<close>: subtraction and addition wrap.
  \<^item> The eviction loop of \<open>put\<close> is a \<open>partial_function (option)\<close>: it would spin forever
    on a cache whose list is empty while its map is not.  That it returns on every
    well-formed cache is a theorem.

  The second half relates the cache to a specification without iterators, nodes or
  counters: a list of keys and entries, most recently used first.
\<close>

section \<open>State\<close>

record cache_entry =
  ce_data :: string
  ce_content_type :: string
  ce_created :: clock
  ce_last_accessed :: clock
  ce_access_count :: u64

type_synonym lru_node = "nat \<times> string"
type_synonym lru_map = "(string \<times> cache_entry \<times> nat) list"

record lru_cache =
  lc_map :: lru_map
  lc_list :: "lru_node list"
  lc_fresh :: nat
  lc_max_size :: u64
  lc_ttl :: int
  lc_size :: u64
  lc_hits :: u64
  lc_misses :: u64

definition data_size :: "string \<Rightarrow> u64" where
  \<comment> \<open>\<open>data.size()\<close>\<close>
  "data_size d = word_of_nat (length d)"

definition new_entry :: "clock \<Rightarrow> string \<Rightarrow> string \<Rightarrow> cache_entry" where
  "new_entry now file_data mime_type =
     \<lparr>ce_data = file_data, ce_content_type = mime_type,
      ce_created = now, ce_last_accessed = now, ce_access_count = 1\<rparr>"

definition lru_new :: "u64 \<Rightarrow> int \<Rightarrow> lru_cache" where
  "lru_new max_size_mb ttl_seconds =
     \<lparr>lc_map = [], lc_list = [], lc_fresh = 0,
      lc_max_size = max_size_mb * 1024 * 1024, lc_ttl = ttl_seconds,
      lc_size = 0, lc_hits = 0, lc_misses = 0\<rparr>"

section \<open>List primitives\<close>

definition list_erase :: "nat \<Rightarrow> lru_node list \<Rightarrow> lru_node list" where
  \<comment> \<open>\<open>lru_list_.erase(it)\<close>.  An iterator without a node would be undefined behaviour in
      C++; here it leaves the list alone, and \<open>lru_inv\<close> shows that it never happens.\<close>
  "list_erase it xs = filter (\<lambda>n. fst n \<noteq> it) xs"

definition push_front_key :: "string \<Rightarrow> lru_cache \<Rightarrow> lru_cache" where
  \<comment> \<open>\<open>lru_list_.push_front(key)\<close>; \<open>lru_list_.begin()\<close> is then the fresh node\<close>
  "push_front_key k c =
     c\<lparr>lc_list := (lc_fresh c, k) # lc_list c, lc_fresh := Suc (lc_fresh c)\<rparr>"

section \<open>Operations\<close>

definition is_expired :: "lru_cache \<Rightarrow> clock \<Rightarrow> cache_entry \<Rightarrow> bool" where
  "is_expired c now e =
     (if lc_ttl c \<le> 0 then False
      else duration_seconds (now - ce_created e) \<ge> lc_ttl c)"

definition lru_get :: "clock \<Rightarrow> clock \<Rightarrow> string \<Rightarrow> lru_cache \<Rightarrow> cache_entry option \<times> lru_cache" where
  \<comment> \<open>\<open>t1\<close> is the reading in \<open>is_expired\<close>, \<open>t2\<close> the one stored in \<open>last_accessed\<close>\<close>
  "lru_get t1 t2 key c =
     (case map_of (lc_map c) key of
        None \<Rightarrow> (None, c\<lparr>lc_misses := lc_misses c + 1\<rparr>)
      | Some (entry, list_it) \<Rightarrow>
          if is_expired c t1 entry then
            (None, c\<lparr>lc_list := list_erase list_it (lc_list c),
                     lc_size := lc_size c - data_size (ce_data entry),
                     lc_map := AList.delete key (lc_map c),
                     lc_misses := lc_misses c + 1\<rparr>)
          else
            let c1 = push_front_key key (c\<lparr>lc_list := list_erase list_it (lc_list c)\<rparr>);
                entry' = entry\<lparr>ce_last_accessed := t2,
                               ce_access_count := ce_access_count entry + 1\<rparr>
            in (Some entry',
                c1\<lparr>lc_map := AList.update key (entry', lc_fresh c) (lc_map c1),
                   lc_hits := lc_hits c1 + 1\<rparr>))"

definition evict_lru :: "lru_cache \<Rightarrow> lru_cache" where
  "evict_lru c =
     (if lc_list c = [] then c
      else let lru_key = snd (last (lc_list c));
               c1 = c\<lparr>lc_list := butlast (lc_list c)\<rparr>
           in case map_of (lc_map c1) lru_key of
                None \<Rightarrow> c1
              | Some (e, _) \<Rightarrow>
                  c1\<lparr>lc_size := lc_size c1 - data_size (ce_data e),
                     lc_map := AList.delete lru_key (lc_map c1)\<rparr>)"

partial_function (option) evict_loop :: "u64 \<Rightarrow> lru_cache \<Rightarrow> lru_cache option" where
  \<comment> \<open>\<open>while (current_size_ + entry_size > max_size_bytes_ && !cache_.empty()) evict_lru();\<close>\<close>
  "evict_loop entry_size c =
     (if lc_max_size c < lc_size c + entry_size \<and> lc_map c \<noteq> []
      then evict_loop entry_size (evict_lru c) else Some c)"

definition lru_put :: "clock \<Rightarrow> string \<Rightarrow> string \<Rightarrow> string \<Rightarrow> lru_cache \<Rightarrow> lru_cache option" where
  \<comment> \<open>\<open>None\<close>: the eviction loop does not end\<close>
  "lru_put now key data content_type c =
     (if key = [] \<or> data = [] then Some c
      else case map_of (lc_map c) key of
        Some (entry, list_it) \<Rightarrow>
          let entry' = \<lparr>ce_data = data, ce_content_type = content_type,
                        ce_created = now, ce_last_accessed = now, ce_access_count = 1\<rparr>;
              c1 = push_front_key key
                     (c\<lparr>lc_size := lc_size c - data_size (ce_data entry) + data_size data,
                        lc_list := list_erase list_it (lc_list c)\<rparr>)
          in Some (c1\<lparr>lc_map := AList.update key (entry', lc_fresh c) (lc_map c1)\<rparr>)
      | None \<Rightarrow>
          let entry_size = data_size data
          in case evict_loop entry_size c of
               None \<Rightarrow> None
             | Some c1 \<Rightarrow>
                 if lc_max_size c1 < entry_size then Some c1
                 else let c2 = push_front_key key c1
                      in Some (c2\<lparr>lc_map := AList.update key
                                     (new_entry now data content_type, lc_fresh c1) (lc_map c2),
                                  lc_size := lc_size c2 + entry_size\<rparr>))"

definition lru_remove :: "string \<Rightarrow> lru_cache \<Rightarrow> lru_cache" where
  "lru_remove key c =
     (case map_of (lc_map c) key of
        None \<Rightarrow> c
      | Some (entry, list_it) \<Rightarrow>
          c\<lparr>lc_size := lc_size c - data_size (ce_data entry),
            lc_list := list_erase list_it (lc_list c),
            lc_map := AList.delete key (lc_map c)\<rparr>)"

definition lru_clear :: "lru_cache \<Rightarrow> lru_cache" where
  "lru_clear c = c\<lparr>lc_map := [], lc_list := [], lc_size := 0, lc_hits := 0, lc_misses := 0\<rparr>"

definition expired_keys :: "(string \<Rightarrow> clock) \<Rightarrow> lru_cache \<Rightarrow> string list" where
  \<comment> \<open>first pass of \<open>evict_expired\<close>; \<open>now k\<close> is the clock reading when \<open>k\<close> is checked\<close>
  "expired_keys now c =
     map fst (filter (\<lambda>(k, e, _). is_expired c (now k) e) (lc_map c))"

definition evict_expired :: "(string \<Rightarrow> clock) \<Rightarrow> lru_cache \<Rightarrow> lru_cache" where
  "evict_expired now c = foldl (\<lambda>c' k. lru_remove k c') c (expired_keys now c)"

definition lru_get_size :: "lru_cache \<Rightarrow> u64" where
  "lru_get_size c = lc_size c"

definition lru_get_count :: "lru_cache \<Rightarrow> u64" where
  "lru_get_count c = word_of_nat (length (lc_map c))"

definition lru_get_stats :: "lru_cache \<Rightarrow> u64 \<times> u64 \<times> u64 \<times> u64" where
  "lru_get_stats c = (lc_hits c, lc_misses c, lru_get_count c, lc_size c)"

definition set_max_size :: "u64 \<Rightarrow> lru_cache \<Rightarrow> lru_cache" where
  "set_max_size max_size_mb c = c\<lparr>lc_max_size := max_size_mb * 1024 * 1024\<rparr>"

definition set_ttl :: "int \<Rightarrow> lru_cache \<Rightarrow> lru_cache" where
  "set_ttl ttl_seconds c = c\<lparr>lc_ttl := ttl_seconds\<rparr>"

section \<open>Well-formed caches\<close>

text \<open>Map and list hold the same keys, every stored iterator is the node of its key, and
  \<open>current_size_\<close> is the number of bytes held (modulo 2^64).\<close>

definition map_bytes :: "lru_map \<Rightarrow> nat" where
  "map_bytes m = sum_list (map (\<lambda>(_, e, _). length (ce_data e)) m)"

definition lru_total :: "lru_cache \<Rightarrow> nat" where
  "lru_total c = map_bytes (lc_map c)"

definition lru_inv :: "lru_cache \<Rightarrow> bool" where
  "lru_inv c \<longleftrightarrow>
     distinct (map fst (lc_map c)) \<and>
     distinct (map fst (lc_list c)) \<and> distinct (map snd (lc_list c)) \<and>
     (\<forall>n \<in> set (lc_list c). fst n < lc_fresh c) \<and>
     snd ` set (lc_list c) = fst ` set (lc_map c) \<and>
     (\<forall>k e it. map_of (lc_map c) k = Some (e, it) \<longrightarrow> (it, k) \<in> set (lc_list c)) \<and>
     lc_size c = word_of_nat (lru_total c)"

lemma lru_invD:
  assumes "lru_inv c"
  shows "distinct (map fst (lc_map c))" "distinct (map fst (lc_list c))"
    "distinct (map snd (lc_list c))" "n \<in> set (lc_list c) \<Longrightarrow> fst n < lc_fresh c"
    "snd ` set (lc_list c) = fst ` set (lc_map c)"
    "map_of (lc_map c) k = Some (e, it) \<Longrightarrow> (it, k) \<in> set (lc_list c)"
    "lc_size c = word_of_nat (lru_total c)"
  using assms by (auto simp: lru_inv_def)

lemma lru_inv_keys_iff:
  "lru_inv c \<Longrightarrow> k \<in> snd ` set (lc_list c) \<longleftrightarrow> map_of (lc_map c) k \<noteq> None"
  by (simp add: lru_invD(5) map_of_eq_None_iff)

subsection \<open>Bytes held\<close>

lemma map_bytes_Nil [simp]: "map_bytes [] = 0"
  and map_bytes_Cons [simp]: "map_bytes ((k, e, it) # m) = length (ce_data e) + map_bytes m"
  by (simp_all add: map_bytes_def)

lemma map_bytes_delete:
  "distinct (map fst m) \<Longrightarrow> map_of m k = Some (e, it) \<Longrightarrow>
   map_bytes (AList.delete k m) + length (ce_data e) = map_bytes m"
  by (induction m) (auto simp: map_bytes_def image_iff split: if_splits)

lemma map_bytes_update_new:
  "map_of m k = None \<Longrightarrow> map_bytes (AList.update k (e, it) m) = map_bytes m + length (ce_data e)"
  by (induction m) (auto split: if_splits)

lemma map_bytes_update_old:
  "map_of m k = Some (e, it) \<Longrightarrow>
   map_bytes (AList.update k (e', it') m) + length (ce_data e)
     = map_bytes m + length (ce_data e')"
  by (induction m) (auto split: if_splits)

lemma data_size_le_total:
  "map_of m k = Some (e, it) \<Longrightarrow> length (ce_data e) \<le> map_bytes m"
  by (induction m) (auto split: if_splits)

subsection \<open>The two changes every operation is made of\<close>

definition drop_key :: "string \<Rightarrow> lru_cache \<Rightarrow> lru_cache" where
  \<comment> \<open>the key leaves the map and the list\<close>
  "drop_key k c =
     (case map_of (lc_map c) k of
        None \<Rightarrow> c
      | Some (e, _) \<Rightarrow>
          c\<lparr>lc_list := filter (\<lambda>n. snd n \<noteq> k) (lc_list c),
            lc_size := lc_size c - data_size (ce_data e),
            lc_map := AList.delete k (lc_map c)\<rparr>)"

definition front_key :: "string \<Rightarrow> cache_entry \<Rightarrow> lru_cache \<Rightarrow> lru_cache" where
  \<comment> \<open>the key gets the given entry and a fresh node at the front\<close>
  "front_key k e c =
     c\<lparr>lc_list := (lc_fresh c, k) # filter (\<lambda>n. snd n \<noteq> k) (lc_list c),
       lc_fresh := Suc (lc_fresh c),
       lc_size := lc_size c
         - (case map_of (lc_map c) k of None \<Rightarrow> 0 | Some (e0, _) \<Rightarrow> data_size (ce_data e0))
         + data_size (ce_data e),
       lc_map := AList.update k (e, lc_fresh c) (lc_map c)\<rparr>"

lemma erase_node_of_key:
  assumes "lru_inv c" and "map_of (lc_map c) k = Some (e, it)"
  shows "list_erase it (lc_list c) = filter (\<lambda>n. snd n \<noteq> k) (lc_list c)"
  unfolding list_erase_def
proof (rule filter_cong [OF refl])
  fix n assume n: "n \<in> set (lc_list c)"
  have "(it, k) \<in> set (lc_list c)" using assms by (rule lru_invD(6))
  with n lru_invD(2,3) [OF assms(1)]
  show "(fst n \<noteq> it) = (snd n \<noteq> k)"
    by (metis eq_key_imp_eq_value fst_conv prod.collapse snd_conv inj_on_eq_iff distinct_map)
qed

lemma word_of_nat_diff_eq:
  "a + b = c \<Longrightarrow> (word_of_nat c :: u64) - word_of_nat b = word_of_nat a"
  by (auto simp: algebra_simps)

lemma drop_key_inv [inv_intros]: "lru_inv c \<Longrightarrow> lru_inv (drop_key k c)"
proof (cases "map_of (lc_map c) k")
  case None
  then show "lru_inv c \<Longrightarrow> lru_inv (drop_key k c)" by (simp add: drop_key_def)
next
  case (Some v)
  obtain e it where v: "v = (e, it)" by (cases v)
  assume inv: "lru_inv c"
  note I = lru_invD [OF inv]
  have size: "lc_size c - data_size (ce_data e) = word_of_nat (map_bytes (AList.delete k (lc_map c)))"
    using word_of_nat_diff_eq [OF map_bytes_delete [OF I(1) Some [unfolded v]]] I(7)
    by (simp add: data_size_def lru_total_def)
  have keys: "snd ` set (filter (\<lambda>n. snd n \<noteq> k) (lc_list c)) = fst ` set (AList.delete k (lc_map c))"
    using I(5) by (simp only: snd_image_filter_neq keys_delete)
  show "lru_inv (drop_key k c)"
    unfolding lru_inv_def using Some v I size keys
    by (auto simp: drop_key_def lru_total_def distinct_delete distinct_map_filter AList.delete_conv')
qed

lemma front_key_inv [inv_intros]:
  assumes inv: "lru_inv c"
  shows "lru_inv (front_key k e c)"
proof -
  note I = lru_invD [OF inv]
  have size: "lc_size (front_key k e c)
      = word_of_nat (map_bytes (AList.update k (e, lc_fresh c) (lc_map c)))"
  proof (cases "map_of (lc_map c) k")
    case None
    then show ?thesis using I(7)
      by (simp add: front_key_def map_bytes_update_new data_size_def lru_total_def)
  next
    case (Some v)
    obtain e0 it where v: "v = (e0, it)" by (cases v)
    from map_bytes_update_old [OF Some [unfolded v], of e "lc_fresh c"] I(7) show ?thesis
      by (simp add: front_key_def Some v data_size_def lru_total_def word_of_nat_diff_eq
          diff_add_eq flip: of_nat_add)
  qed
  have keys: "insert k (snd ` set (filter (\<lambda>n. snd n \<noteq> k) (lc_list c)))
      = fst ` set (AList.update k (e, lc_fresh c) (lc_map c))"
    using I(5) by (auto simp only: snd_image_filter_neq keys_update)
  have fresh: "(lc_fresh c, b) \<notin> set (lc_list c)" for b
    using I(4) by fastforce
  show ?thesis
    unfolding lru_inv_def using I size keys fresh
    by (auto simp: front_key_def lru_total_def distinct_update distinct_map_filter
        AList.update_conv' less_SucI split: if_splits)
qed

subsection \<open>Every operation is one of the two changes\<close>

lemma lru_inv_counters [simp]:
  "lru_inv (c\<lparr>lc_hits := h\<rparr>) = lru_inv c"
  "lru_inv (c\<lparr>lc_misses := m\<rparr>) = lru_inv c"
  "lru_inv (c\<lparr>lc_max_size := s\<rparr>) = lru_inv c"
  "lru_inv (c\<lparr>lc_ttl := t\<rparr>) = lru_inv c"
  by (simp_all add: lru_inv_def lru_total_def)

lemma filter_neq_last:
  "distinct (map snd xs) \<Longrightarrow> xs \<noteq> [] \<Longrightarrow> filter (\<lambda>n. snd n \<noteq> snd (last xs)) xs = butlast xs"
  by (cases xs rule: rev_cases) (force intro!: filter_True)+

lemma lru_get_eq:
  assumes "lru_inv c"
  shows "lru_get t1 t2 k c =
    (case map_of (lc_map c) k of
       None \<Rightarrow> (None, c\<lparr>lc_misses := lc_misses c + 1\<rparr>)
     | Some (e, _) \<Rightarrow>
         if is_expired c t1 e then (None, (drop_key k c)\<lparr>lc_misses := lc_misses c + 1\<rparr>)
         else let e' = e\<lparr>ce_last_accessed := t2, ce_access_count := ce_access_count e + 1\<rparr>
              in (Some e', (front_key k e' c)\<lparr>lc_hits := lc_hits c + 1\<rparr>))"
  using erase_node_of_key [OF assms, of k]
  by (auto simp: lru_get_def drop_key_def front_key_def push_front_key_def Let_def
      split: option.splits)

lemma lru_remove_eq: "lru_inv c \<Longrightarrow> lru_remove k c = drop_key k c"
  using erase_node_of_key [of c k]
  by (auto simp: lru_remove_def drop_key_def split: option.splits)

lemma lru_put_old_eq:
  assumes "lru_inv c" and "k \<noteq> []" and "d \<noteq> []" and "map_of (lc_map c) k = Some v"
  shows "lru_put now k d ct c = Some (front_key k (new_entry now d ct) c)"
  using assms erase_node_of_key [OF assms(1), of k]
  by (cases v) (auto simp: lru_put_def front_key_def push_front_key_def new_entry_def Let_def)

lemma evict_lru_eq:
  assumes "lru_inv c"
  shows "evict_lru c = (if lc_list c = [] then c else drop_key (snd (last (lc_list c))) c)"
proof (cases "lc_list c = []")
  case False
  let ?k = "snd (last (lc_list c))"
  have "?k \<in> snd ` set (lc_list c)" using False by simp
  then obtain e it where "map_of (lc_map c) ?k = Some (e, it)"
    using lru_inv_keys_iff [OF assms, of ?k] by auto
  with False filter_neq_last [OF lru_invD(3) [OF assms] False] show ?thesis
    by (simp add: evict_lru_def drop_key_def)
qed (simp add: evict_lru_def)

lemma lru_insert_eq:
  assumes "lru_inv c" and "map_of (lc_map c) k = None"
  shows "(let c2 = push_front_key k c
          in c2\<lparr>lc_map := AList.update k (new_entry now d ct, lc_fresh c) (lc_map c2),
                lc_size := lc_size c2 + data_size d\<rparr>) = front_key k (new_entry now d ct) c"
proof -
  have "k \<notin> snd ` set (lc_list c)" using assms lru_inv_keys_iff [OF assms(1), of k] by simp
  then have "filter (\<lambda>n. snd n \<noteq> k) (lc_list c) = lc_list c"
    by (auto intro!: filter_True)
  with assms(2) show ?thesis
    by (simp add: front_key_def push_front_key_def new_entry_def Let_def)
qed

section \<open>The specification: a recency list\<close>

type_synonym lru_spec = "(string \<times> cache_entry) list"

definition spec_total :: "lru_spec \<Rightarrow> nat" where
  "spec_total s = sum_list (map (\<lambda>(_, e). length (ce_data e)) s)"

definition spec_expired :: "int \<Rightarrow> clock \<Rightarrow> cache_entry \<Rightarrow> bool" where
  "spec_expired ttl now e \<longleftrightarrow> 0 < ttl \<and> ttl \<le> duration_seconds (now - ce_created e)"

definition spec_get :: "int \<Rightarrow> clock \<Rightarrow> clock \<Rightarrow> string \<Rightarrow> lru_spec \<Rightarrow> cache_entry option \<times> lru_spec" where
  "spec_get ttl t1 t2 k s =
     (case map_of s k of
        None \<Rightarrow> (None, s)
      | Some e \<Rightarrow>
          if spec_expired ttl t1 e then (None, AList.delete k s)
          else let e' = e\<lparr>ce_last_accessed := t2, ce_access_count := ce_access_count e + 1\<rparr>
               in (Some e', (k, e') # AList.delete k s))"

function spec_evict :: "nat \<Rightarrow> nat \<Rightarrow> lru_spec \<Rightarrow> lru_spec" where
  \<comment> \<open>drop from the least recently used end until the new entry fits\<close>
  "spec_evict limit n s =
     (if s \<noteq> [] \<and> limit < spec_total s + n then spec_evict limit n (butlast s) else s)"
  by pat_completeness auto
termination
  by (relation "measure (\<lambda>(_, _, s). length s)") auto

declare spec_evict.simps [simp del]

definition spec_put :: "nat \<Rightarrow> clock \<Rightarrow> string \<Rightarrow> string \<Rightarrow> string \<Rightarrow> lru_spec \<Rightarrow> lru_spec" where
  "spec_put limit now k d ct s =
     (if k = [] \<or> d = [] then s
      else if map_of s k \<noteq> None then (k, new_entry now d ct) # AList.delete k s
      else let s1 = spec_evict limit (length d) s
           in if limit < length d then s1 else (k, new_entry now d ct) # s1)"

definition lru_abs :: "lru_cache \<Rightarrow> lru_spec" where
  "lru_abs c = map (\<lambda>(_, k). (k, fst (the (map_of (lc_map c) k)))) (lc_list c)"

subsection \<open>The abstraction of a well-formed cache\<close>

lemma lru_abs_counters [simp]:
  "lru_abs (c\<lparr>lc_hits := h\<rparr>) = lru_abs c" "lru_abs (c\<lparr>lc_misses := m\<rparr>) = lru_abs c"
  by (simp_all add: lru_abs_def)

lemma map_of_keyed: "map_of (map (\<lambda>(_, k). (k, f k)) xs) k = (if k \<in> snd ` set xs then Some (f k) else None)"
  by (induction xs) auto

lemma delete_keyed:
  "AList.delete k (map (\<lambda>(_, k). (k, f k)) xs)
    = map (\<lambda>(_, k). (k, f k)) (filter (\<lambda>n. snd n \<noteq> k) xs)"
  by (induction xs) auto

lemma lru_abs_lookup:
  "lru_inv c \<Longrightarrow> map_of (lru_abs c) k = map_option fst (map_of (lc_map c) k)"
  using lru_inv_keys_iff [of c k] by (auto simp: lru_abs_def map_of_keyed)

lemma lru_abs_keys: "map fst (lru_abs c) = map snd (lc_list c)"
  by (simp add: lru_abs_def case_prod_beta)

lemma lru_abs_distinct: "lru_inv c \<Longrightarrow> distinct (map fst (lru_abs c))"
  by (simp add: lru_abs_keys lru_invD(3))

lemma lru_abs_total:
  assumes "lru_inv c"
  shows "spec_total (lru_abs c) = lru_total c"
proof -
  note I = lru_invD [OF assms]
  let ?g = "\<lambda>k. length (ce_data (fst (the (map_of (lc_map c) k))))"
  have "spec_total (lru_abs c) = sum_list (map ?g (map snd (lc_list c)))"
    by (simp add: spec_total_def lru_abs_def case_prod_beta comp_def)
  also have "\<dots> = sum ?g (fst ` set (lc_map c))"
    by (subst sum_list_distinct_conv_sum_set [OF I(3)]) (simp add: I(5))
  also have "\<dots> = sum_list (map ?g (map fst (lc_map c)))"
    by (subst sum_list_distinct_conv_sum_set [OF I(1)]) simp
  also have "\<dots> = lru_total c"
    unfolding lru_total_def map_bytes_def map_map
    by (rule arg_cong [where f = sum_list], rule map_cong [OF refl])
      (use I(1) in auto)
  finally show ?thesis .
qed

lemma lru_abs_drop:
  assumes "lru_inv c"
  shows "lru_abs (drop_key k c) = AList.delete k (lru_abs c)"
proof (cases "map_of (lc_map c) k")
  case None
  then have "k \<notin> fst ` set (lru_abs c)"
    by (simp add: lru_abs_lookup [OF assms] flip: map_of_eq_None_iff)
  with None show ?thesis by (simp add: drop_key_def AList.delete_id)
next
  case (Some v)
  have "lru_abs (drop_key k c)
      = map (\<lambda>(_, k). (k, fst (the (map_of (lc_map c) k)))) (filter (\<lambda>n. snd n \<noteq> k) (lc_list c))"
    using Some by (cases v) (auto simp: lru_abs_def drop_key_def)
  then show ?thesis
    by (simp add: lru_abs_def delete_keyed)
qed

lemma lru_abs_front: "lru_abs (front_key k e c) = (k, e) # AList.delete k (lru_abs c)"
  by (auto simp: lru_abs_def front_key_def delete_keyed AList.update_conv')

section \<open>The eviction loop\<close>

lemma delete_last:
  "distinct (map fst s) \<Longrightarrow> s \<noteq> [] \<Longrightarrow> AList.delete (fst (last s)) s = butlast s"
  by (cases s rule: rev_cases) (force simp: AList.delete_eq intro!: filter_True)+

lemma drop_key_frame [simp]:
  "lc_max_size (drop_key k c) = lc_max_size c" "lc_ttl (drop_key k c) = lc_ttl c"
  "lc_hits (drop_key k c) = lc_hits c" "lc_misses (drop_key k c) = lc_misses c"
  by (simp_all add: drop_key_def split: option.splits)

lemma front_key_frame [simp]:
  "lc_max_size (front_key k e c) = lc_max_size c" "lc_ttl (front_key k e c) = lc_ttl c"
  "lc_hits (front_key k e c) = lc_hits c" "lc_misses (front_key k e c) = lc_misses c"
  by (simp_all add: front_key_def)

lemma lru_empty_iff: "lru_inv c \<Longrightarrow> lc_map c = [] \<longleftrightarrow> lc_list c = []"
  using lru_invD(5) [of c] by (metis image_is_empty set_empty)

lemma evict_step:
  assumes "lru_inv c" and "lc_map c \<noteq> []"
  shows "lru_inv (evict_lru c)" "lru_abs (evict_lru c) = butlast (lru_abs c)"
    "lc_max_size (evict_lru c) = lc_max_size c" "lc_ttl (evict_lru c) = lc_ttl c"
    "lc_hits (evict_lru c) = lc_hits c" "lc_misses (evict_lru c) = lc_misses c"
    "lc_list (evict_lru c) = butlast (lc_list c)"
proof -
  have ne: "lc_list c \<noteq> []" using assms lru_empty_iff by blast
  then have abs_ne: "lru_abs c \<noteq> []" and
    last: "fst (last (lru_abs c)) = snd (last (lc_list c))"
    by (simp_all add: lru_abs_def last_map case_prod_beta)
  have eq: "evict_lru c = drop_key (snd (last (lc_list c))) c"
    using evict_lru_eq [OF assms(1)] ne by simp
  show "lru_inv (evict_lru c)" by (simp add: eq drop_key_inv assms(1))
  show "lru_abs (evict_lru c) = butlast (lru_abs c)"
    using delete_last [OF lru_abs_distinct [OF assms(1)] abs_ne]
    by (simp add: eq lru_abs_drop assms(1) last)
  show "lc_list (evict_lru c) = butlast (lc_list c)"
    using ne by (auto simp: evict_lru_def Let_def split: option.splits)
qed (simp_all add: evict_lru_def Let_def split: option.splits)

lemma map_of_butlast_None: "map_of s k = None \<Longrightarrow> map_of (butlast s) k = None"
  by (auto simp: map_of_eq_None_iff dest: in_set_butlastD)

lemma spec_total_butlast: "spec_total (butlast s) \<le> spec_total s"
  by (cases s rule: rev_cases) (simp_all add: spec_total_def)

lemma evict_loop_returns:
  assumes "lru_inv c"
  shows "\<exists>c'. evict_loop n c = Some c' \<and> lru_inv c' \<and> lc_max_size c' = lc_max_size c \<and>
    lc_ttl c' = lc_ttl c \<and> lc_hits c' = lc_hits c \<and> lc_misses c' = lc_misses c \<and>
    (\<forall>k. map_of (lru_abs c) k = None \<longrightarrow> map_of (lru_abs c') k = None) \<and>
    \<not> (lc_max_size c' < lc_size c' + n \<and> lc_map c' \<noteq> [])"
  using assms
proof (induction "length (lc_list c)" arbitrary: c rule: less_induct)
  case less
  show ?case
  proof (cases "lc_max_size c < lc_size c + n \<and> lc_map c \<noteq> []")
    case True
    note E = evict_step [OF less.prems conjunct2 [OF True]]
    have "length (lc_list (evict_lru c)) < length (lc_list c)"
      using True lru_empty_iff [OF less.prems] by (simp add: E(7))
    from less.hyps [OF this E(1)] E True show ?thesis
      by (subst evict_loop.simps) (auto dest: map_of_butlast_None)
  next
    case False
    then show ?thesis using less.prems by (subst evict_loop.simps) auto
  qed
qed

lemma lru_size_unat:
  "lru_inv c \<Longrightarrow> lru_total c < 2 ^ 64 \<Longrightarrow> unat (lc_size c) = spec_total (lru_abs c)"
  by (simp add: lru_invD(7) lru_abs_total unat_of_nat)

lemma evict_loop_refines:
  assumes "lru_inv c" and "spec_total (lru_abs c) + n < 2 ^ 64"
    and "evict_loop (word_of_nat n) c = Some c'"
  shows "lru_abs c' = spec_evict (unat (lc_max_size c)) n (lru_abs c)"
  using assms
proof (induction "length (lc_list c)" arbitrary: c rule: less_induct)
  case less
  have "lc_size c + word_of_nat n = word_of_nat (spec_total (lru_abs c) + n)"
    using less.prems(1) by (simp add: lru_invD(7) lru_abs_total)
  then have cmp: "lc_max_size c < lc_size c + word_of_nat n
      \<longleftrightarrow> unat (lc_max_size c) < spec_total (lru_abs c) + n"
    using less.prems(2) by (simp add: word_less_nat_alt unat_of_nat del: of_nat_add)
  have emp: "lc_map c \<noteq> [] \<longleftrightarrow> lru_abs c \<noteq> []"
    using lru_empty_iff [OF less.prems(1)] by (simp add: lru_abs_def)
  show ?case
  proof (cases "lc_max_size c < lc_size c + word_of_nat n \<and> lc_map c \<noteq> []")
    case True
    note E = evict_step [OF less.prems(1) conjunct2 [OF True]]
    have len: "length (lc_list (evict_lru c)) < length (lc_list c)"
      using True lru_empty_iff [OF less.prems(1)] by (simp add: E(7))
    have "spec_total (lru_abs (evict_lru c)) + n < 2 ^ 64"
      using less.prems(2) spec_total_butlast [of "lru_abs c"] by (simp add: E(2))
    moreover have "evict_loop (word_of_nat n) (evict_lru c) = Some c'"
      using less.prems(3) True by (subst (asm) evict_loop.simps) simp
    ultimately have "lru_abs c' = spec_evict (unat (lc_max_size c)) n (butlast (lru_abs c))"
      using less.hyps [OF len E(1)] by (simp add: E(2,3))
    then show ?thesis using True cmp emp by (subst spec_evict.simps) simp
  next
    case False
    then have "c' = c" using less.prems(3) by (subst (asm) evict_loop.simps) auto
    then show ?thesis using False cmp emp by (subst spec_evict.simps) auto
  qed
qed

section \<open>Every operation keeps the invariant and returns\<close>

lemma lru_new_inv [inv_intros]: "lru_inv (lru_new mb ttl)"
  by (simp add: lru_inv_def lru_new_def lru_total_def)

lemma lru_get_inv [inv_intros]: "lru_inv c \<Longrightarrow> lru_inv (snd (lru_get t1 t2 k c))"
  by (simp add: lru_get_eq inv_intros Let_def split: option.splits)

lemma lru_remove_inv [inv_intros]: "lru_inv c \<Longrightarrow> lru_inv (lru_remove k c)"
  by (simp add: lru_remove_eq inv_intros)

lemma lru_clear_inv [inv_intros]: "lru_inv (lru_clear c)"
  by (simp add: lru_inv_def lru_clear_def lru_total_def)

lemma lru_foldl_remove_inv: "lru_inv c \<Longrightarrow> lru_inv (foldl (\<lambda>c' k. lru_remove k c') c ks)"
  by (induction ks arbitrary: c) (simp_all add: inv_intros)

lemma evict_expired_inv [inv_intros]: "lru_inv c \<Longrightarrow> lru_inv (evict_expired now c)"
  by (simp add: evict_expired_def lru_foldl_remove_inv)

lemma lru_put_new_eq:
  assumes "lru_inv c" and "k \<noteq> []" and "d \<noteq> []" and "map_of (lc_map c) k = None"
    and "evict_loop (data_size d) c = Some c1"
  shows "lru_put now k d ct c =
    Some (if lc_max_size c < data_size d then c1 else front_key k (new_entry now d ct) c1)"
proof -
  from evict_loop_returns [OF assms(1), of "data_size d"] assms(5)
  have c1: "lru_inv c1" "lc_max_size c1 = lc_max_size c"
    and "\<forall>k. map_of (lru_abs c) k = None \<longrightarrow> map_of (lru_abs c1) k = None" by auto
  then have "map_of (lc_map c1) k = None"
    using assms(1,4) by (simp add: lru_abs_lookup)
  with assms c1 lru_insert_eq [OF c1(1) this, where now = now and d = d and ct = ct] show ?thesis
    by (auto simp: lru_put_def Let_def)
qed

lemma lru_put_cases:
  assumes "lru_inv c"
  obtains (skip) "k = [] \<or> d = []" "lru_put now k d ct c = Some c"
  | (old) v where "k \<noteq> []" "d \<noteq> []" "map_of (lc_map c) k = Some v"
      "lru_put now k d ct c = Some (front_key k (new_entry now d ct) c)"
  | (new) c1 where "k \<noteq> []" "d \<noteq> []" "map_of (lc_map c) k = None"
      "evict_loop (data_size d) c = Some c1" "lru_inv c1" "lc_max_size c1 = lc_max_size c"
      "lc_ttl c1 = lc_ttl c"
      "\<not> (lc_max_size c1 < lc_size c1 + data_size d \<and> lc_map c1 \<noteq> [])"
      "lru_put now k d ct c =
        Some (if lc_max_size c < data_size d then c1 else front_key k (new_entry now d ct) c1)"
proof (cases "k = [] \<or> d = []")
  case True
  then show thesis using skip by (simp add: lru_put_def)
next
  case False
  show thesis
  proof (cases "map_of (lc_map c) k")
    case None
    from evict_loop_returns [OF assms, of "data_size d"] obtain c1 where
      "evict_loop (data_size d) c = Some c1" "lru_inv c1" "lc_max_size c1 = lc_max_size c"
      "lc_ttl c1 = lc_ttl c" "\<not> (lc_max_size c1 < lc_size c1 + data_size d \<and> lc_map c1 \<noteq> [])"
      by auto
    with False None lru_put_new_eq [OF assms _ _ None] show thesis by (intro new) auto
  next
    case (Some v)
    with False lru_put_old_eq [OF assms _ _ Some] show thesis by (intro old) auto
  qed
qed

lemma lru_put_returns:
  assumes "lru_inv c"
  shows "\<exists>c'. lru_put now k d ct c = Some c' \<and> lru_inv c' \<and>
    lc_max_size c' = lc_max_size c \<and> lc_ttl c' = lc_ttl c"
  by (rule lru_put_cases [OF assms, of k d now ct]) (use assms in \<open>auto simp: inv_intros\<close>)

section \<open>Facts about the specification\<close>

lemma spec_evict_fits: "spec_evict L n s = [] \<or> spec_total (spec_evict L n s) + n \<le> L"
proof (induction L n s rule: spec_evict.induct)
  case (1 L n s)
  then show ?case by (subst (1 2) spec_evict.simps) auto
qed

lemma spec_total_take_mono: "i \<le> j \<Longrightarrow> spec_total (take i s) \<le> spec_total (take j s)"
proof -
  assume "i \<le> j"
  then have "take j s = take i s @ take (j - i) (drop i s)"
    by (metis le_add_diff_inverse take_add)
  then show ?thesis by (simp add: spec_total_def)
qed

lemma spec_evict_take:
  "\<exists>m \<le> length s. spec_evict L n s = take m s \<and>
     (\<forall>j \<le> length s. spec_total (take j s) + n \<le> L \<longrightarrow> j \<le> m)"
proof (induction L n s rule: spec_evict.induct)
  case (1 L n s)
  show ?case
  proof (cases "s \<noteq> [] \<and> L < spec_total s + n")
    case True
    with 1 obtain m where m: "m \<le> length (butlast s)" "spec_evict L n (butlast s) = take m (butlast s)"
      "\<forall>j \<le> length (butlast s). spec_total (take j (butlast s)) + n \<le> L \<longrightarrow> j \<le> m"
      by blast
    have "j \<le> m" if "j \<le> length s" "spec_total (take j s) + n \<le> L" for j
    proof (cases "j = length s")
      case True
      with that \<open>s \<noteq> [] \<and> L < spec_total s + n\<close> show ?thesis by simp
    next
      case False
      with that m(3) show ?thesis by (auto simp: take_butlast)
    qed
    moreover have "take m (butlast s) = take m s" "m \<le> length s"
      using m(1) by (simp_all add: butlast_conv_take min_absorb1)
    ultimately show ?thesis
      using m(2) True by (intro exI [of _ m]) (subst spec_evict.simps, auto)
  next
    case False
    then show ?thesis by (intro exI [of _ "length s"]) (subst spec_evict.simps, auto)
  qed
qed

lemma spec_evict_None: "map_of s k = None \<Longrightarrow> map_of (spec_evict L n s) k = None"
proof -
  obtain m where "spec_evict L n s = take m s" using spec_evict_take by blast
  then show "map_of s k = None \<Longrightarrow> ?thesis"
    by (auto simp: map_of_eq_None_iff dest: in_set_takeD)
qed

section \<open>A concrete cache\<close>

text \<open>One file of two bytes, stored at time 0 under a limit of three bytes; the witnesses below
  run on it.\<close>

definition ex_entry :: cache_entry where
  "ex_entry = new_entry 0 ''hi'' ''text/plain''"

definition ex_cache :: lru_cache where
  "ex_cache = \<lparr>lc_map = [(''/a'', ex_entry, 0)], lc_list = [(0, ''/a'')], lc_fresh = 1,
    lc_max_size = 3, lc_ttl = 300, lc_size = 2, lc_hits = 0, lc_misses = 0\<rparr>"

lemma ex_cache_inv: "lru_inv ex_cache"
  by (auto simp: lru_inv_def ex_cache_def lru_total_def ex_entry_def new_entry_def)

lemma ex_cache_simps:
  "lru_total ex_cache = 2" "lc_max_size ex_cache = 3" "lc_ttl ex_cache = 300"
  "lc_map ex_cache = [(''/a'', ex_entry, 0)]" "lru_abs ex_cache = [(''/a'', ex_entry)]"
  "ce_created ex_entry = 0" "ce_data ex_entry = ''hi''"
  by (simp_all add: ex_cache_def lru_total_def lru_abs_def ex_entry_def new_entry_def)

section \<open>Properties of the cache\<close>

text \<open>C27: \<open>get\<close> does what the recency list says: a miss leaves it alone, an expired entry is
  removed and reported as a miss, a live entry moves to the front with its access time and
  count updated and is the value returned.  The hit and miss counters move accordingly, the
  cache stays well-formed.\<close>

theorem lru_get_refines:
  assumes "lru_inv c" and "lru_get t1 t2 k c = (r, c')"
  shows "spec_get (lc_ttl c) t1 t2 k (lru_abs c) = (r, lru_abs c') \<and> lru_inv c' \<and>
    (lc_hits c', lc_misses c')
      = (if r = None then (lc_hits c, lc_misses c + 1) else (lc_hits c + 1, lc_misses c))"
proof -
  have "lru_inv c'" using lru_get_inv [OF assms(1), of t1 t2 k] assms(2) by simp
  with assms show ?thesis
    by (auto simp: lru_get_eq spec_get_def lru_abs_lookup lru_abs_drop lru_abs_front
        is_expired_def spec_expired_def Let_def split: option.splits if_splits)
qed

theorem lru_get_refines_witness:
  "\<exists>r c'. lru_get 5 6 ''/a'' ex_cache = (r, c') \<and> r \<noteq> None \<and>
     spec_get 300 5 6 ''/a'' [(''/a'', ex_entry)] = (r, lru_abs c') \<and> lc_hits c' = 1"
proof -
  obtain r c' where g: "lru_get 5 6 ''/a'' ex_cache = (r, c')" by fastforce
  have r: "r \<noteq> None"
    using g by (auto simp: lru_get_def ex_cache_simps is_expired_def duration_seconds_def
        signed_divide_int_def Let_def)
  have "lc_hits ex_cache = 0" by (simp add: ex_cache_def)
  with g r lru_get_refines [OF ex_cache_inv g] show ?thesis
    by (auto simp: ex_cache_simps)
qed

lemma lru_put_simulates:
  assumes "lru_inv c" and "lru_total c + length d < 2 ^ 64"
  shows "\<exists>c'. lru_put now k d ct c = Some c' \<and> lru_inv c' \<and>
    lru_abs c' = spec_put (unat (lc_max_size c)) now k d ct (lru_abs c)"
proof (rule lru_put_cases [OF assms(1), of k d now ct])
  assume "k = [] \<or> d = []" "lru_put now k d ct c = Some c"
  then show ?thesis using assms(1) by (auto simp: spec_put_def)
next
  fix v assume "k \<noteq> []" "d \<noteq> []" "map_of (lc_map c) k = Some v"
    "lru_put now k d ct c = Some (front_key k (new_entry now d ct) c)"
  then show ?thesis
    using assms(1) by (auto simp: spec_put_def lru_abs_front lru_abs_lookup inv_intros)
next
  fix c1
  assume A: "k \<noteq> []" "d \<noteq> []" "map_of (lc_map c) k = None"
    "evict_loop (data_size d) c = Some c1" "lru_inv c1"
    "lru_put now k d ct c =
       Some (if lc_max_size c < data_size d then c1 else front_key k (new_entry now d ct) c1)"
  have abs1: "lru_abs c1 = spec_evict (unat (lc_max_size c)) (length d) (lru_abs c)"
    using evict_loop_refines [of c "length d" c1] A(4) assms
    by (simp add: data_size_def lru_abs_total)
  have "map_of (lru_abs c) k = None" by (simp add: lru_abs_lookup assms(1) A(3))
  then have "AList.delete k (lru_abs c1) = lru_abs c1"
    by (simp add: abs1 AList.delete_id spec_evict_None flip: map_of_eq_None_iff)
  moreover have "lc_max_size c < data_size d \<longleftrightarrow> unat (lc_max_size c) < length d"
    using assms(2) by (simp add: data_size_def word_less_nat_alt unat_of_nat)
  ultimately show ?thesis
    using A \<open>map_of (lru_abs c) k = None\<close> abs1
    by (auto simp: spec_put_def lru_abs_front inv_intros)
qed

text \<open>C28: \<open>put\<close> returns on every well-formed cache and does what the recency list says: empty
  keys and empty data are ignored, an existing key is replaced and moved to the front, a
  new key evicts from the least recently used end and is inserted unless it alone exceeds
  the limit.\<close>

theorem lru_put_refines:
  assumes "lru_inv c" and "lru_total c + length d < 2 ^ 64"
  shows "\<exists>c'. lru_put now k d ct c = Some c' \<and> lru_inv c' \<and>
    lru_abs c' = spec_put (unat (lc_max_size c)) now k d ct (lru_abs c)"
  using assms by (rule lru_put_simulates)

theorem lru_put_refines_witness:
  "\<exists>c'. lru_put 7 ''/b'' ''xyz'' ''text/css'' ex_cache = Some c' \<and> lru_inv c' \<and>
     lru_abs c' = spec_put 3 7 ''/b'' ''xyz'' ''text/css'' [(''/a'', ex_entry)]"
  using lru_put_refines [OF ex_cache_inv, of "''xyz''" 7 "''/b''" "''text/css''"]
  by (simp add: ex_cache_simps)

lemma spec_put_fits:
  "map_of s k = None \<Longrightarrow> k \<noteq> [] \<Longrightarrow> d \<noteq> [] \<Longrightarrow> spec_total (spec_put L now k d ct s) \<le> L"
  using spec_evict_fits [of L "length d" s]
  by (auto simp: spec_put_def Let_def spec_total_def new_entry_def)

text \<open>Inserting a new key never leaves more bytes in the cache than \<open>max_size_bytes_\<close>.\<close>

theorem lru_put_new_bound:
  assumes "lru_inv c" and "lru_total c + length d < 2 ^ 64"
    and "k \<noteq> []" and "d \<noteq> []" and "map_of (lc_map c) k = None"
    and "lru_put now k d ct c = Some c'"
  shows "lru_total c' \<le> unat (lc_max_size c)"
proof -
  from lru_put_simulates [OF assms(1,2), of now k ct] assms(6)
  have inv: "lru_inv c'" and abs: "lru_abs c' = spec_put (unat (lc_max_size c)) now k d ct (lru_abs c)"
    by auto
  have "map_of (lru_abs c) k = None" by (simp add: lru_abs_lookup assms(1,5))
  then have "spec_total (lru_abs c') \<le> unat (lc_max_size c)"
    unfolding abs using assms(3,4) by (rule spec_put_fits)
  then show ?thesis by (simp add: lru_abs_total inv)
qed

theorem lru_put_new_bound_witness:
  "\<exists>c'. lru_put 7 ''/b'' ''xyz'' ''text/css'' ex_cache = Some c' \<and> lru_total c' \<le> 3"
proof -
  obtain c' where "lru_put 7 ''/b'' ''xyz'' ''text/css'' ex_cache = Some c'"
    using lru_put_returns [OF ex_cache_inv] by blast
  with lru_put_new_bound [OF ex_cache_inv, of "''xyz''" "''/b''" 7 "''text/css''" c']
  show ?thesis by (simp add: ex_cache_simps)
qed



lemma map_of_front_key: "map_of (lc_map (front_key k e c)) k = Some (e, lc_fresh c)"
  by (simp add: front_key_def AList.update_conv')

lemma lru_put_stores:
  assumes "lru_inv c" and "k \<noteq> []" and "d \<noteq> []" and "data_size d \<le> lc_max_size c"
    and "lru_put now k d ct c = Some c'"
  shows "\<exists>it. map_of (lc_map c') k = Some (new_entry now d ct, it)"
  by (rule lru_put_cases [OF assms(1), of k d now ct])
    (use assms map_of_front_key in \<open>auto simp: not_less\<close>)

text \<open>What \<open>put\<close> stored is what the next \<open>get\<close> of the key returns, as long as the entry
  fits and its time to live has not run out; the access count is then 2.\<close>

theorem lru_put_get:
  assumes "lru_inv c" and "k \<noteq> []" and "d \<noteq> []" and "data_size d \<le> lc_max_size c"
    and "lru_put now k d ct c = Some c'"
    and "lc_ttl c \<le> 0 \<or> duration_seconds (t1 - now) < lc_ttl c"
  shows "fst (lru_get t1 t2 k c') =
    Some \<lparr>ce_data = d, ce_content_type = ct, ce_created = now,
          ce_last_accessed = t2, ce_access_count = 2\<rparr>"
proof -
  obtain it where "map_of (lc_map c') k = Some (new_entry now d ct, it)"
    using lru_put_stores [OF assms(1-5)] by blast
  moreover have "lru_inv c'" "lc_ttl c' = lc_ttl c"
    using lru_put_returns [OF assms(1), of now k d ct] assms(5) by auto
  ultimately show ?thesis
    using assms(6) by (auto simp: lru_get_eq is_expired_def new_entry_def Let_def)
qed

theorem lru_put_get_witness:
  "\<exists>c'. lru_put 7 ''/b'' ''xyz'' ''text/css'' ex_cache = Some c' \<and>
     fst (lru_get 8 9 ''/b'' c') =
       Some \<lparr>ce_data = ''xyz'', ce_content_type = ''text/css'', ce_created = 7,
             ce_last_accessed = 9, ce_access_count = 2\<rparr>"
proof -
  obtain c' where "lru_put 7 ''/b'' ''xyz'' ''text/css'' ex_cache = Some c'"
    using lru_put_returns [OF ex_cache_inv] by blast
  with lru_put_get [OF ex_cache_inv, of "''/b''" "''xyz''" 7 "''text/css''" c' 8 9]
  show ?thesis
    by (simp add: ex_cache_simps data_size_def duration_seconds_def signed_divide_int_def)
qed

subsection \<open>Sequences of operations\<close>

datatype lru_op =
    Get clock clock string
  | Put clock string string string
  | Remove string
  | Clear
  | Evict_expired "string \<Rightarrow> clock"
  | Set_max_size u64
  | Set_ttl int

fun lru_step :: "lru_op \<Rightarrow> lru_cache \<Rightarrow> lru_cache option" where
  "lru_step (Get t1 t2 k) c = Some (snd (lru_get t1 t2 k c))"
| "lru_step (Put now k d ct) c = lru_put now k d ct c"
| "lru_step (Remove k) c = Some (lru_remove k c)"
| "lru_step Clear c = Some (lru_clear c)"
| "lru_step (Evict_expired now) c = Some (evict_expired now c)"
| "lru_step (Set_max_size mb) c = Some (set_max_size mb c)"
| "lru_step (Set_ttl ttl) c = Some (set_ttl ttl c)"

fun lru_run :: "lru_op list \<Rightarrow> lru_cache \<Rightarrow> lru_cache option" where
  "lru_run [] c = Some c"
| "lru_run (op # ops) c = (case lru_step op c of None \<Rightarrow> None | Some c' \<Rightarrow> lru_run ops c')"

lemma lru_step_returns: "lru_inv c \<Longrightarrow> \<exists>c'. lru_step op c = Some c' \<and> lru_inv c'"
  by (cases op) (auto simp: inv_intros set_max_size_def set_ttl_def dest: lru_put_returns)

lemma lru_run_returns: "lru_inv c \<Longrightarrow> \<exists>c'. lru_run ops c = Some c' \<and> lru_inv c'"
proof (induction ops arbitrary: c)
  case (Cons op ops)
  then obtain c1 where "lru_step op c = Some c1" "lru_inv c1"
    using lru_step_returns by blast
  with Cons.IH show ?case by simp
qed simp

text \<open>C30: From a new cache, every sequence of operations ends (no eviction loop spins), and
  the cache it leaves is well-formed: map and list hold the same keys, every stored
  iterator points to the node of its key, and \<open>current_size_\<close> is the number of bytes held
  modulo 2^64.\<close>

theorem lru_run_well_formed: "\<exists>c. lru_run ops (lru_new mb ttl) = Some c \<and> lru_inv c"
  by (rule lru_run_returns) (rule lru_new_inv)

section \<open>Removing expired entries\<close>

lemma lru_remove_absent: "map_of (lc_map c) k = None \<Longrightarrow> lru_remove k c = c"
  by (simp add: lru_remove_def)

lemma lru_abs_foldl_remove:
  "lru_inv c \<Longrightarrow>
   lru_abs (foldl (\<lambda>c' k. lru_remove k c') c ks) = filter (\<lambda>(k, _). k \<notin> set ks) (lru_abs c)"
proof (induction ks arbitrary: c)
  case (Cons k ks)
  then show ?case
    by (auto simp: inv_intros lru_remove_eq lru_abs_drop AList.delete_eq intro!: filter_cong)
qed simp

text \<open>\<open>evict_expired\<close> keeps exactly the entries whose time to live has not run out, in
  their order.\<close>

theorem evict_expired_spec:
  assumes "lru_inv c"
  shows "lru_abs (evict_expired now c)
    = filter (\<lambda>(k, e). \<not> spec_expired (lc_ttl c) (now k) e) (lru_abs c)"
proof -
  have exp: "is_expired c (now k) e \<longleftrightarrow> spec_expired (lc_ttl c) (now k) e" for k e
    by (auto simp: is_expired_def spec_expired_def)
  have key: "k \<in> set (expired_keys now c) \<longleftrightarrow> spec_expired (lc_ttl c) (now k) e"
    if "(k, e) \<in> set (lru_abs c)" for k e
  proof -
    have "map_of (lru_abs c) k = Some e"
      using that lru_abs_distinct [OF assms] by simp
    then obtain it where "map_of (lc_map c) k = Some (e, it)"
      by (auto simp: lru_abs_lookup assms)
    then have "(k, v) \<in> set (lc_map c) \<longleftrightarrow> v = (e, it)" for v
      using map_of_eq_Some_iff [OF lru_invD(1) [OF assms], of k v] by auto
    then show ?thesis
      by (auto simp: expired_keys_def exp image_iff Bex_def)
  qed
  show ?thesis
    unfolding evict_expired_def lru_abs_foldl_remove [OF assms]
    by (rule filter_cong) (use key in auto)
qed

theorem evict_expired_spec_witness:
  "lru_abs (evict_expired (\<lambda>_. 300000000000) ex_cache) = [] \<and>
   lru_abs (evict_expired (\<lambda>_. 299999999999) ex_cache) = [(''/a'', ex_entry)]"
  using evict_expired_spec [OF ex_cache_inv, of "\<lambda>_. 300000000000"]
    evict_expired_spec [OF ex_cache_inv, of "\<lambda>_. 299999999999"]
  by (simp add: ex_cache_simps spec_expired_def duration_seconds_def signed_divide_int_def)

section \<open>Two surprises\<close>

text \<open>The size limit is not enforced on the replacement of an existing key: however small
  the limit, a \<open>put\<close> over a stored key stores the new data.\<close>

theorem lru_put_old_ignores_limit:
  assumes "lru_inv c" and "k \<noteq> []" and "d \<noteq> []" and "map_of (lc_map c) k \<noteq> None"
  shows "\<exists>c'. lru_put now k d ct c = Some c' \<and> length d \<le> lru_total c'"
proof -
  from assms obtain c' where c': "lru_put now k d ct c = Some c'"
    "c' = front_key k (new_entry now d ct) c"
    using lru_put_old_eq by blast
  then have "map_of (lc_map c') k = Some (new_entry now d ct, lc_fresh c)"
    by (simp add: map_of_front_key)
  from data_size_le_total [OF this] c' show ?thesis
    by (simp add: lru_total_def new_entry_def)
qed

theorem lru_put_old_ignores_limit_witness:
  "\<exists>c'. lru_put 7 ''/a'' ''far too long'' ''text/css'' ex_cache = Some c' \<and>
     unat (lc_max_size ex_cache) < lru_total c'"
  using lru_put_old_ignores_limit
    [OF ex_cache_inv, of "''/a''" "''far too long''" 7 "''text/css''"]
  by (auto simp: ex_cache_simps)

text \<open>A \<open>put\<close> of a new key whose data alone exceeds the limit stores nothing, but only
  after the eviction loop has emptied the whole cache.\<close>

theorem lru_put_oversized_flushes:
  assumes "lru_inv c" and "lru_total c + length d < 2 ^ 64"
    and "k \<noteq> []" and "map_of (lc_map c) k = None" and "unat (lc_max_size c) < length d"
  shows "\<exists>c'. lru_put now k d ct c = Some c' \<and> lc_map c' = [] \<and> lc_list c' = [] \<and> lc_size c' = 0"
proof -
  have d: "d \<noteq> []" using assms(5) by auto
  obtain c' where c': "lru_put now k d ct c = Some c'" "lru_inv c'"
    "lru_abs c' = spec_put (unat (lc_max_size c)) now k d ct (lru_abs c)"
    using lru_put_simulates [OF assms(1,2)] by blast
  have "map_of (lru_abs c) k = None" by (simp add: lru_abs_lookup assms(1,4))
  with c'(3) d assms(3,5) spec_evict_fits [of "unat (lc_max_size c)" "length d" "lru_abs c"]
  have "lru_abs c' = []" by (auto simp: spec_put_def Let_def)
  then have "lc_list c' = []" by (simp add: lru_abs_def)
  then have "lc_map c' = []" by (simp add: lru_empty_iff c'(2))
  with c'(1) \<open>lc_list c' = []\<close> lru_invD(7) [OF c'(2)] show ?thesis by (auto simp: lru_total_def)
qed

theorem lru_put_oversized_flushes_witness:
  "\<exists>c'. lru_put 7 ''/b'' ''long'' ''text/css'' ex_cache = Some c' \<and>
     lc_map ex_cache \<noteq> [] \<and> lc_map c' = []"
  using lru_put_oversized_flushes
    [OF ex_cache_inv, of "''long''" "''/b''" 7 "''text/css''"]
  by (auto simp: ex_cache_simps)

section \<open>The cache as its client sees it\<close>

definition lru_held :: "lru_cache \<Rightarrow> string \<Rightarrow> (string \<times> string) option" where
  "lru_held c k = map_option (\<lambda>(e, _). (ce_data e, ce_content_type e)) (map_of (lc_map c) k)"

lemma lru_held_counters [simp]:
  "lru_held (c\<lparr>lc_hits := h\<rparr>) = lru_held c" "lru_held (c\<lparr>lc_misses := m\<rparr>) = lru_held c"
  by (simp_all add: lru_held_def fun_eq_iff)

lemma lru_held_drop: "lru_held (drop_key k c) j = (if j = k then None else lru_held c j)"
  by (auto simp: lru_held_def drop_key_def AList.delete_conv' split: option.splits)

lemma lru_held_front:
  "lru_held (front_key k e c) j
    = (if j = k then Some (ce_data e, ce_content_type e) else lru_held c j)"
  by (simp add: lru_held_def front_key_def AList.update_conv')

lemma lru_held_evict_loop:
  "lru_inv c \<Longrightarrow> evict_loop n c = Some c' \<Longrightarrow> lru_held c' j = lru_held c j \<or> lru_held c' j = None"
proof (induction "length (lc_list c)" arbitrary: c rule: less_induct)
  case less
  show ?case
  proof (cases "lc_max_size c < lc_size c + n \<and> lc_map c \<noteq> []")
    case True
    note E = evict_step [OF less.prems(1) conjunct2 [OF True]]
    have ne: "lc_list c \<noteq> []" using True lru_empty_iff [OF less.prems(1)] by simp
    have "evict_loop n (evict_lru c) = Some c'"
      using less.prems(2) True by (subst (asm) evict_loop.simps) simp
    moreover have "lru_held (evict_lru c) j = lru_held c j \<or> lru_held (evict_lru c) j = None"
      using ne by (simp add: evict_lru_eq less.prems(1) lru_held_drop)
    ultimately show ?thesis
      using less.hyps [of "evict_lru c"] E(1,7) ne by auto
  next
    case False
    then have "c' = c" using less.prems(2) by (subst (asm) evict_loop.simps) auto
    then show ?thesis by simp
  qed
qed

lemma lru_total_drop: "lru_inv c \<Longrightarrow> lru_total (drop_key k c) \<le> lru_total c"
  using map_bytes_delete [of "lc_map c" k] lru_invD(1) [of c]
  by (auto simp: lru_total_def drop_key_def split: option.splits) (metis le_add1)

lemma lru_total_counters [simp]:
  "lru_total (c\<lparr>lc_hits := h\<rparr>) = lru_total c" "lru_total (c\<lparr>lc_misses := m\<rparr>) = lru_total c"
  by (simp_all add: lru_total_def)

lemma lru_total_touch:
  "map_of (lc_map c) k = Some (e, it) \<Longrightarrow> ce_data e' = ce_data e \<Longrightarrow>
   lru_total (front_key k e' c) = lru_total c"
  using map_bytes_update_old [of "lc_map c" k e it e' "lc_fresh c"]
  by (simp add: lru_total_def front_key_def)

lemma lru_get_used:
  "lru_inv c \<Longrightarrow> lru_get t1 t2 k c = (r, c') \<Longrightarrow>
   lru_total c' \<le> lru_total c \<and> lc_max_size c' = lc_max_size c"
  by (auto simp: lru_get_eq lru_total_drop lru_total_touch Let_def split: option.splits if_splits)

lemma lru_put_used:
  assumes "lru_inv c" and "lru_total c + length d < 2 ^ 64" and "lru_held c k = None"
    and "lru_put t k d ct c = Some c'"
  shows "lru_total c' \<le> max (lru_total c) (unat (lc_max_size c)) \<and> lc_max_size c' = lc_max_size c"
proof -
  have "lc_max_size c' = lc_max_size c"
    using lru_put_returns [OF assms(1), of t k d ct] assms(4) by auto
  moreover have "lru_total c' \<le> max (lru_total c) (unat (lc_max_size c))"
  proof (cases "k = [] \<or> d = []")
    case True
    with assms(4) show ?thesis by (simp add: lru_put_def)
  next
    case False
    have "map_of (lc_map c) k = None" using assms(3) by (simp add: lru_held_def)
    then have "map_of (lru_abs c) k = None" by (simp add: lru_abs_lookup assms(1))
    moreover obtain "lru_inv c'" "lru_abs c' = spec_put (unat (lc_max_size c)) t k d ct (lru_abs c)"
      using lru_put_simulates [OF assms(1,2), of t k ct] assms(4) by auto
    ultimately have "lru_total c' \<le> unat (lc_max_size c)"
      using spec_put_fits [of "lru_abs c" k d "unat (lc_max_size c)" t ct] False
      by (auto simp flip: lru_abs_total)
    then show ?thesis by simp
  qed
  ultimately show ?thesis by blast
qed

interpretation lru: content_cache lru_get lru_put ce_data ce_content_type lru_held lru_inv
proof (unfold_locales, goal_cases)
  case (1 c t1 t2 k r c')
  then show ?case using lru_get_inv [of c t1 t2 k] by simp
next
  case (2 c t1 t2 k e c')
  then show ?case
    by (auto simp: lru_get_eq lru_held_def Let_def split: option.splits if_splits)
next
  case (3 c t1 t2 k c')
  then show ?case
    by (auto simp: lru_get_eq lru_held_drop Let_def split: option.splits if_splits)
      (simp add: lru_held_def)
next
  case (4 c t1 t2 k r c' j)
  then show ?case
    by (auto simp: lru_get_eq lru_held_drop lru_held_front Let_def split: option.splits if_splits)
      (simp add: lru_held_def)
next
  case (5 c t k d ct)
  then show ?case using lru_put_returns by blast
next
  case (6 c t k d ct c')
  then show ?case using lru_put_returns [of c t k d ct] by auto
next
  case (7 c t k d ct c' j)
  show ?case
    by (rule lru_put_cases [OF 7(1), of k d t ct])
      (use 7 lru_held_evict_loop in
        \<open>auto simp: lru_held_front new_entry_def split: if_splits\<close>)
qed

interpretation lru: bounded_cache lru_get lru_put ce_data ce_content_type lru_held lru_inv
    lru_total "\<lambda>c. unat (lc_max_size c)"
  by unfold_locales (use lru_get_used lru_put_used in auto)

end
