(* ===== verification/Double_Arith.thy ===== *)
theory Double_Arith
  imports Complex_Main "HOL-Library.Log_Nat"
begin

text \<open>
  The C++ \<open>double\<close> as the rate limiter uses it: a rational number, with every operation rounded
  to 53 significant bits, ties to even (\<open>fl\<close>).  Infinities, NaNs and subnormal numbers are not
  modelled; the values that occur (token counts, rates, seconds) stay far from them.

  The lemmas are the usual facts of rounding: it is monotone, leaves representable numbers
  alone, and is off by at most one part in 2^53.
\<close>

definition rnd :: "rat \<Rightarrow> int" where
  \<comment> \<open>to the nearest integer, ties to even\<close>
  "rnd y = (let f = \<lfloor>y\<rfloor>; r = y - of_int f in if r < 1 / 2 \<or> r = 1 / 2 \<and> even f then f else f + 1)"

definition scale :: "rat \<Rightarrow> int" where
  \<comment> \<open>the exponent of the unit in the last place of a positive number\<close>
  "scale x =
     (let (n, d) = quotient_of x; e = bitlen n - bitlen d - 53
      in if x < 2 powi (e + 53) then e else e + 1)"

definition fl :: "rat \<Rightarrow> rat" where
  "fl x = (if x = 0 then 0 else sgn x * of_int (rnd (\<bar>x\<bar> / 2 powi scale \<bar>x\<bar>)) * 2 powi scale \<bar>x\<bar>)"

definition representable :: "rat \<Rightarrow> bool" where
  "representable x \<longleftrightarrow> (\<exists>m k. \<bar>m\<bar> \<le> 2 ^ 53 \<and> x = of_int m * 2 powi k)"

lemma rnd_of_int [simp]: "rnd (of_int n) = n"
  by (simp add: rnd_def)

lemma rnd_bounds: "y - 1 / 2 \<le> of_int (rnd y) \<and> of_int (rnd y) \<le> y + 1 / 2"
  using floor_correct [of y] unfolding rnd_def Let_def by (cases "y - of_int \<lfloor>y\<rfloor> < 1 / 2"; simp; linarith)

lemma rnd_mono:
  assumes "x \<le> y"
  shows "rnd x \<le> rnd y"
proof (cases "\<lfloor>x\<rfloor> = \<lfloor>y\<rfloor>")
  case True
  with assms show ?thesis by (auto simp: rnd_def Let_def)
next
  case False
  with floor_mono [OF assms] have "\<lfloor>x\<rfloor> + 1 \<le> \<lfloor>y\<rfloor>" by simp
  then show ?thesis by (auto simp: rnd_def Let_def)
qed

lemma scale_bounds:
  assumes "0 < x"
  shows "2 powi (scale x + 52) \<le> x" "x < 2 powi (scale x + 53)"
proof -
  obtain n d where q: "quotient_of x = (n, d)" by fastforce
  from quotient_of_div [OF q] have x: "x = of_int n / of_int d" .
  have d: "0 < d" using quotient_of_denom_pos [OF q] .
  with assms x have n: "0 < n" by (simp add: zero_less_divide_iff)
  let ?e = "bitlen n - bitlen d - 53"
  have b: "2 powi (bitlen k - 1) \<le> (of_int k :: rat) \<and> (of_int k :: rat) < 2 powi bitlen k" if "0 < k" for k
  proof -
    have "2 ^ nat (bitlen k - 1) \<le> k" "k < 2 ^ nat (bitlen k)" "1 \<le> bitlen k"
      using bitlen_bounds [OF that] bitlen_eq_zero_iff [of k] bitlen_nonneg [of k] that by linarith+
    then have "(2 :: rat) ^ nat (bitlen k - 1) \<le> of_int k" "of_int k < (2 :: rat) ^ nat (bitlen k)"
      by (metis of_int_le_iff of_int_numeral of_int_power, metis of_int_less_iff of_int_numeral of_int_power)
    with \<open>1 \<le> bitlen k\<close> show ?thesis by (simp add: power_int_def)
  qed
  have "2 powi (?e + 52) = 2 powi (bitlen n - 1) / (2 powi bitlen d :: rat)"
    by (subst power_int_diff [symmetric]) (simp_all add: algebra_simps)
  also have "\<dots> \<le> x"
    unfolding x using b [OF n] b [OF d] d n by (intro frac_le) auto
  finally have lo: "2 powi (?e + 52) \<le> x" .
  have "x < 2 powi bitlen n / (2 powi (bitlen d - 1) :: rat)"
    unfolding x using b [OF n] b [OF d] d n by (intro frac_less) auto
  also have "\<dots> = 2 powi (?e + 54)"
    by (subst power_int_diff [symmetric]) (simp_all add: algebra_simps)
  finally have hi: "x < 2 powi (?e + 54)" .
  show "2 powi (scale x + 52) \<le> x" "x < 2 powi (scale x + 53)"
    using lo hi by (auto simp: scale_def q Let_def algebra_simps)
qed

lemma powi_mono: "a \<le> b \<Longrightarrow> (2 :: rat) powi a \<le> 2 powi b"
  by (rule power_int_increasing) simp_all

lemma powi_less: "(2 :: rat) powi a < 2 powi b \<Longrightarrow> a < b"
  using powi_mono [of b a] by force

lemma powi_le: "(2 :: rat) powi a \<le> 2 powi b \<Longrightarrow> a \<le> b"
  using power_int_strict_increasing [of b a "2 :: rat"] by (meson leD leI one_less_numeral_iff semiring_norm(76))

lemma scale_mono: "0 < x \<Longrightarrow> x \<le> y \<Longrightarrow> scale x \<le> scale y"
  using scale_bounds [of x] scale_bounds [of y] powi_less [of "scale x + 52" "scale y + 53"] by force

lemma mantissa_bounds:
  assumes "0 < x"
  shows "2 ^ 52 \<le> rnd (x / 2 powi scale x)" "rnd (x / 2 powi scale x) \<le> 2 ^ 53"
proof -
  note b = scale_bounds [OF assms]
  have "of_int (2 ^ 52) \<le> x / 2 powi scale x" "x / 2 powi scale x \<le> of_int (2 ^ 53)"
    using b by (simp_all add: power_int_add pos_le_divide_eq pos_divide_le_eq mult.commute)
  from this [THEN rnd_mono] show "2 ^ 52 \<le> rnd (x / 2 powi scale x)" "rnd (x / 2 powi scale x) \<le> 2 ^ 53"
    by (simp_all only: rnd_of_int)
qed

lemma fl_pos: "0 < x \<Longrightarrow> fl x = of_int (rnd (x / 2 powi scale x)) * 2 powi scale x"
  by (simp add: fl_def)

lemma fl_0 [simp]: "fl 0 = 0"
  by (simp add: fl_def)

lemma fl_positive: "0 < x \<Longrightarrow> 0 < fl x"
  using mantissa_bounds(1) [of x] by (simp add: fl_pos)

lemma fl_nonneg: "0 \<le> x \<Longrightarrow> 0 \<le> fl x"
  using fl_positive [of x] by (cases "x = 0") auto

lemma fl_mono:
  assumes "0 \<le> x" and "x \<le> y"
  shows "fl x \<le> fl y"
proof (cases "x = 0")
  case False
  with assms have pos: "0 < x" "0 < y" by auto
  show ?thesis
  proof (cases "scale x = scale y")
    case True
    have "rnd (x / 2 powi scale y) \<le> rnd (y / 2 powi scale y)"
      using assms(2) by (intro rnd_mono divide_right_mono) auto
    with True pos show ?thesis by (simp add: fl_pos)
  next
    case False
    with scale_mono [OF pos(1) assms(2)] have s: "scale x + 1 \<le> scale y" by simp
    have "fl x \<le> of_int (2 ^ 53) * 2 powi scale x"
      unfolding fl_pos [OF pos(1)] using mantissa_bounds(2) [OF pos(1)]
      by (intro mult_right_mono) (simp_all only: of_int_le_iff, simp)
    also have "\<dots> = of_int (2 ^ 52) * 2 powi (scale x + 1)" by (simp add: power_int_add)
    also have "\<dots> \<le> of_int (2 ^ 52) * 2 powi scale y"
      using powi_mono [OF s] by (intro mult_left_mono) auto
    also have "\<dots> \<le> fl y"
      unfolding fl_pos [OF pos(2)] using mantissa_bounds(1) [OF pos(2)]
      by (intro mult_right_mono) (simp_all only: of_int_le_iff, simp)
    finally show ?thesis .
  qed
qed (use assms fl_nonneg in simp)

lemma fl_error:
  assumes "0 \<le> x"
  shows "\<bar>fl x - x\<bar> \<le> x / 2 ^ 53"
proof (cases "x = 0")
  case False
  with assms have pos: "0 < x" by simp
  let ?p = "2 powi scale x :: rat"
  have "fl x - x = (of_int (rnd (x / ?p)) - x / ?p) * ?p"
    by (simp add: fl_pos [OF pos] field_simps)
  then have "\<bar>fl x - x\<bar> = \<bar>of_int (rnd (x / ?p)) - x / ?p\<bar> * ?p"
    by (simp add: abs_mult)
  also have "\<dots> \<le> 1 / 2 * ?p"
    using rnd_bounds [of "x / ?p"] by (intro mult_right_mono abs_leI) (linarith | simp)+
  also have "\<dots> \<le> x / 2 ^ 53"
    using scale_bounds(1) [OF pos] by (simp add: power_int_add)
  finally show ?thesis .
qed simp

lemma fl_le: "0 \<le> x \<Longrightarrow> fl x \<le> x * (1 + 1 / 2 ^ 53)"
  using fl_error [of x, THEN abs_le_D1] by (simp add: distrib_left)

lemma fl_representable:
  assumes "representable x" and "0 \<le> x"
  shows "fl x = x"
proof (cases "x = 0")
  case False
  with assms(2) have pos: "0 < x" by simp
  obtain m k where mk: "\<bar>m\<bar> \<le> 2 ^ 53" "x = of_int m * 2 powi k"
    using assms(1) by (auto simp: representable_def)
  have "x \<le> 2 powi (k + 53)"
    using mk(1) by (simp add: mk(2) power_int_add)
  with scale_bounds(1) [OF pos] have "scale x + 52 \<le> k + 53"
    using powi_le by (meson order_trans)
  then have s: "scale x \<le> k + 1" by simp
  have "\<exists>n. x / 2 powi scale x = of_int n"
  proof (cases "scale x \<le> k")
    case True
    then have "(2 :: rat) powi k / 2 powi scale x = 2 ^ nat (k - scale x)"
      by (subst power_int_diff [symmetric]) (simp_all add: power_int_def)
    then have "x / 2 powi scale x = of_int (m * 2 ^ nat (k - scale x))"
      using mk(2) by (metis of_int_mult of_int_numeral of_int_power times_divide_eq_right)
    then show ?thesis by blast
  next
    case False
    with s have sc: "scale x = k + 1" by simp
    with scale_bounds(1) [OF pos] have "2 powi (k + 53) \<le> x" by (simp add: algebra_simps)
    with \<open>x \<le> 2 powi (k + 53)\<close> have "x = 2 powi (scale x) * 2 ^ 52"
      by (simp add: sc power_int_add)
    then have "x / 2 powi scale x = of_int (2 ^ 52)" by (subst divide_eq_eq) (simp add: mult.commute)
    then show ?thesis by blast
  qed
  then obtain n where n: "x / 2 powi scale x = of_int n" by blast
  then show ?thesis by (simp add: fl_pos [OF pos]) (simp add: field_simps)
qed simp

lemma representable_fl: "0 \<le> x \<Longrightarrow> representable (fl x)"
proof (cases "x = 0")
  case True
  then show ?thesis by (auto simp: representable_def intro: exI [of _ 0])
next
  case False
  assume "0 \<le> x"
  with False have pos: "0 < x" by simp
  from mantissa_bounds [OF pos] show ?thesis
    unfolding representable_def fl_pos [OF pos]
    by (intro exI [of _ "rnd (x / 2 powi scale x)"] exI [of _ "scale x"]) simp
qed

lemma representable_of_int: "\<bar>n\<bar> \<le> 2 ^ 53 \<Longrightarrow> representable (of_int n)"
  unfolding representable_def by (intro exI [of _ n] exI [of _ 0]) simp

lemma fl_int: "0 \<le> n \<Longrightarrow> n \<le> 2 ^ 53 \<Longrightarrow> fl (of_int n) = of_int n"
  by (rule fl_representable) (simp_all add: representable_of_int)

end
