(* ===== verification/Cache_Stats.thy ===== *)
theory Cache_Stats
  imports Lru_Cache Double_Arith
begin

text \<open>
  The one operation of \<open>src/cache.cpp\<close> that computes with doubles: \<open>LRUCache::get_hit_ratio\<close>.
\<close>

section \<open>Statistics\<close>

definition get_hit_ratio :: "lru_cache \<Rightarrow> rat" where
  \<comment> \<open>both operands of the division are converted to \<open>double\<close>, the sum may wrap\<close>
  "get_hit_ratio c =
     (let total_requests = lc_hits c + lc_misses c
      in if 0 < total_requests then fl (fl (of_nat (unat (lc_hits c))) / fl (of_nat (unat total_requests))) else 0)"

text \<open>As long as the counters do not wrap the hit ratio is a ratio, rounding included.\<close>

theorem hit_ratio_range:
  assumes "unat (lc_hits c) + unat (lc_misses c) < 2 ^ 64"
  shows "0 \<le> get_hit_ratio c \<and> get_hit_ratio c \<le> 1"
proof (cases "0 < lc_hits c + lc_misses c")
  case True
  define h :: rat where "h = of_nat (unat (lc_hits c))"
  define n :: rat where "n = of_nat (unat (lc_hits c + lc_misses c))"
  have "unat (lc_hits c + lc_misses c) = unat (lc_hits c) + unat (lc_misses c)"
    using assms by (intro unat_add_lem [THEN iffD1]) simp
  then have hn: "0 \<le> h" "h \<le> n" unfolding h_def n_def by (simp_all only: of_nat_0_le_iff of_nat_le_iff le_add1)
  have "0 < unat (lc_hits c + lc_misses c)" using True by (simp add: word_less_nat_alt)
  then have "0 < n" unfolding n_def by (simp only: of_nat_0_less_iff)
  then have "0 < fl n" by (rule fl_positive)
  moreover have "fl h \<le> fl n" "0 \<le> fl h" using hn by (simp_all add: fl_mono fl_nonneg)
  ultimately have "0 \<le> fl h / fl n" "fl h / fl n \<le> 1" by simp_all
  then have "0 \<le> fl (fl h / fl n)" "fl (fl h / fl n) \<le> fl 1" by (simp_all add: fl_nonneg fl_mono)
  moreover have "fl 1 = 1" using fl_int [of 1] by simp
  moreover have "get_hit_ratio c = fl (fl h / fl n)" using True unfolding get_hit_ratio_def Let_def h_def n_def by (rule if_P)
  ultimately show ?thesis by simp
qed (simp add: get_hit_ratio_def)

end
