(* ===== verification/Http_Request.thy ===== *)
theory Http_Request
  imports Interfaces
begin

text \<open>
  Requests: \<open>include/http_request.h\<close>, \<open>src/http_request.cpp\<close> (class \<open>HttpRequest\<close>).

  The record \<open>http_request\<close> has the fields of the class; \<open>headers_\<close> and \<open>query_params_\<close> are
  association lists.  \<open>parse\<close> folds \<open>parse_line\<close>, the body of its \<open>getline\<close> loop, over
  the lines of the input; the loop's local variables are the record \<open>parse_state\<close>.  The
  accessors the server uses follow.

  \<open>sscanf_x\<close> is \<open>sscanf(s, "%x", \<dots>)\<close> as the C standard has it: white space, an optional
  sign, an optional \<open>0x\<close>, at least one hexadecimal digit (\<open>"0x"\<close> alone is a matching
  failure); a NUL ends the string, as \<open>c_str()\<close> would.
\<close>

section \<open>Types\<close>

datatype http_method = GET | POST | PUT | DELETE | HEAD | OPTIONS | UNKNOWN

record http_request =
  rq_method :: http_method
  rq_path :: string
  rq_query_string :: string
  rq_version :: string
  rq_body :: string
  rq_headers :: "(string \<times> string) list"
  rq_query_params :: "(string \<times> string) list"
  rq_valid :: bool

definition empty_request :: http_request where
  "empty_request = \<lparr>rq_method = UNKNOWN, rq_path = [], rq_query_string = [], rq_version = [],
     rq_body = [], rq_headers = [], rq_query_params = [], rq_valid = False\<rparr>"

section \<open>Methods\<close>

fun method_to_string :: "http_method \<Rightarrow> string" where
  "method_to_string GET = ''GET''"
| "method_to_string POST = ''POST''"
| "method_to_string PUT = ''PUT''"
| "method_to_string DELETE = ''DELETE''"
| "method_to_string HEAD = ''HEAD''"
| "method_to_string OPTIONS = ''OPTIONS''"
| "method_to_string UNKNOWN = ''UNKNOWN''"

definition string_to_method :: "string \<Rightarrow> http_method" where
  "string_to_method s =
     (if s = ''GET'' then GET else if s = ''POST'' then POST else if s = ''PUT'' then PUT
      else if s = ''DELETE'' then DELETE else if s = ''HEAD'' then HEAD
      else if s = ''OPTIONS'' then OPTIONS else UNKNOWN)"

section \<open>URL decoding\<close>

definition is_hex :: "char \<Rightarrow> bool" where
  "is_hex c \<longleftrightarrow> (let n = (of_char c :: nat)
     in 48 \<le> n \<and> n \<le> 57 \<or> 65 \<le> n \<and> n \<le> 70 \<or> 97 \<le> n \<and> n \<le> 102)"

definition hex_digit_value :: "char \<Rightarrow> nat" where
  "hex_digit_value c = (let n = (of_char c :: nat)
     in if n \<le> 57 then n - 48 else if n \<le> 70 then n - 55 else n - 87)"

definition hex_value :: "string \<Rightarrow> nat" where
  "hex_value ds = foldl (\<lambda>n c. 16 * n + hex_digit_value c) 0 ds"

definition sscanf_x :: "string \<Rightarrow> u32 option" where
  "sscanf_x s =
     (let s0 = takeWhile (\<lambda>c. c \<noteq> CHR 0x00) s;
          s1 = dropWhile is_space s0;
          neg = (s1 \<noteq> [] \<and> hd s1 = CHR ''-'');
          s2 = (if s1 \<noteq> [] \<and> (hd s1 = CHR ''-'' \<or> hd s1 = CHR ''+'') then tl s1 else s1);
          s3 = (if take 2 s2 = ''0x'' \<or> take 2 s2 = ''0X'' then drop 2 s2 else s2);
          ds = takeWhile is_hex s3
      in if ds = [] then None
         else Some (if neg then - word_of_nat (hex_value ds) else word_of_nat (hex_value ds)))"

fun url_decode :: "string \<Rightarrow> string" where
  "url_decode [] = []"
| "url_decode (c # cs) =
     (if c = CHR ''%'' \<and> 2 \<le> length cs then
        (case sscanf_x (take 2 cs) of
           Some hex \<Rightarrow> char_of (uint hex) # url_decode (drop 2 cs)
         | None \<Rightarrow> c # url_decode cs)
      else if c = CHR ''+'' then CHR '' '' # url_decode cs
      else c # url_decode cs)"

section \<open>Parsing\<close>

definition parse_request_line :: "string \<Rightarrow> http_request \<Rightarrow> http_request" where
  "parse_request_line line rq =
     (case next_word line of None \<Rightarrow> rq | Some (method_str, r1) \<Rightarrow>
      (case next_word r1 of None \<Rightarrow> rq | Some (path_with_query, r2) \<Rightarrow>
      (case next_word r2 of None \<Rightarrow> rq | Some (version, _) \<Rightarrow>
        let rq1 = rq\<lparr>rq_method := string_to_method method_str, rq_version := version\<rparr>;
            rq2 = (case find_char (CHR ''?'') path_with_query of
                     Some query_pos \<Rightarrow>
                       rq1\<lparr>rq_path := take query_pos path_with_query,
                           rq_query_string := drop (query_pos + 1) path_with_query\<rparr>
                   | None \<Rightarrow> rq1\<lparr>rq_path := path_with_query\<rparr>)
        in rq2\<lparr>rq_path := url_decode (rq_path rq2)\<rparr>)))"

definition header_field :: "string \<Rightarrow> (string \<times> string) option" where
  \<comment> \<open>the split, trimming and lower-casing of a header line\<close>
  "header_field line =
     (case find_char (CHR '':'') line of
        None \<Rightarrow> None
      | Some colon_pos \<Rightarrow>
          Some (lower (rtrim (take colon_pos line)), rtrim (ltrim (drop (colon_pos + 1) line))))"

definition parse_header_line :: "string \<Rightarrow> http_request \<Rightarrow> http_request" where
  "parse_header_line line rq =
     (case header_field line of
        None \<Rightarrow> rq
      | Some (name, value) \<Rightarrow> rq\<lparr>rq_headers := AList.update name value (rq_headers rq)\<rparr>)"

definition query_pair :: "string \<Rightarrow> string \<times> string" where
  "query_pair pair =
     (case find_char (CHR ''='') pair of
        Some eq_pos \<Rightarrow> (url_decode (take eq_pos pair), url_decode (drop (eq_pos + 1) pair))
      | None \<Rightarrow> (url_decode pair, []))"

definition parse_query_string :: "http_request \<Rightarrow> http_request" where
  "parse_query_string rq =
     (if rq_query_string rq = [] then rq
      else foldl (\<lambda>rq' pair. let (key, value) = query_pair pair
                   in rq'\<lparr>rq_query_params := AList.update key value (rq_query_params rq')\<rparr>)
             rq (getlines (CHR ''&'') (rq_query_string rq)))"

definition get_header :: "http_request \<Rightarrow> string \<Rightarrow> string" where
  "get_header rq name =
     (case map_of (rq_headers rq) (lower name) of Some v \<Rightarrow> v | None \<Rightarrow> [])"

definition has_header :: "http_request \<Rightarrow> string \<Rightarrow> bool" where
  "has_header rq name \<longleftrightarrow> map_of (rq_headers rq) (lower name) \<noteq> None"

definition get_query_param :: "http_request \<Rightarrow> string \<Rightarrow> string" where
  "get_query_param rq name =
     (case map_of (rq_query_params rq) name of Some v \<Rightarrow> v | None \<Rightarrow> [])"

definition is_keep_alive :: "http_request \<Rightarrow> bool" where
  "is_keep_alive rq =
     (let connection = lower (get_header rq ''connection'')
      in if rq_version rq = ''HTTP/1.1'' then connection \<noteq> ''close''
         else connection = ''keep-alive'')"

definition is_request_valid :: "http_request \<Rightarrow> bool" where
  "is_request_valid rq =
     (if rq_method rq = UNKNOWN then False
      else if rq_path rq = [] \<or> hd (rq_path rq) \<noteq> CHR ''/'' then False
      else if rq_version rq \<noteq> ''HTTP/1.0'' \<and> rq_version rq \<noteq> ''HTTP/1.1'' then False
      else if list_ex (\<lambda>c. schar c < 0x20 \<or> c = CHR 0x7F) (rq_path rq) then False
      else if rq_method rq = POST \<or> rq_method rq = PUT then
        (let content_length_header = get_header rq ''content-length''
         in if content_length_header \<noteq> [] then
              (case stoull content_length_header of
                 Inl _ \<Rightarrow> False
               | Inr content_length \<Rightarrow>
                   if (word_of_nat (length (rq_body rq)) :: u64) \<noteq> content_length
                   then content_length \<le> word_of_nat (length (rq_body rq))
                   else True)
            else True)
      else True)"

record parse_state =
  ps_request :: http_request
  ps_first_line :: bool
  ps_headers_done :: bool
  ps_body :: string

definition parse_line :: "string \<Rightarrow> parse_state \<Rightarrow> parse_state" where
  "parse_line raw_line st =
     (let line = strip_cr raw_line
      in if ps_first_line st then
           st\<lparr>ps_request := parse_request_line line (ps_request st), ps_first_line := False\<rparr>
         else if \<not> ps_headers_done st then
           (if line = [] then st\<lparr>ps_headers_done := True\<rparr>
            else st\<lparr>ps_request := parse_header_line line (ps_request st)\<rparr>)
         else
           st\<lparr>ps_body := (if ps_body st \<noteq> [] then ps_body st @ [CHR 0x0A] else ps_body st) @ line\<rparr>)"

definition parse_start :: parse_state where
  "parse_start = \<lparr>ps_request = empty_request, ps_first_line = True,
     ps_headers_done = False, ps_body = []\<rparr>"

definition parse_request :: "string \<Rightarrow> http_request" where
  \<comment> \<open>\<open>HttpRequest::parse\<close>\<close>
  "parse_request raw_request =
     (if raw_request = [] then empty_request
      else let st = foldl (\<lambda>st l. parse_line l st) parse_start (getlines (CHR 0x0A) raw_request);
               rq = parse_query_string ((ps_request st)\<lparr>rq_body := ps_body st\<rparr>)
           in rq\<lparr>rq_valid := is_request_valid rq\<rparr>)"

section \<open>Method names\<close>

lemma string_to_method_id: "string_to_method (method_to_string m) = m"
  by (cases m) (simp_all add: string_to_method_def)

text \<open>\<open>string_to_method\<close> and \<open>method_to_string\<close> are inverse on the methods the server knows,
  and every other string is \<open>UNKNOWN\<close>.\<close>

theorem method_string_roundtrip:
  "string_to_method (method_to_string m) = m \<and>
   (method_to_string (string_to_method s) = s \<or> string_to_method s = UNKNOWN)"
  by (cases m) (auto simp: string_to_method_def)

section \<open>Percent decoding inverts percent encoding\<close>

text \<open>The reference encoder: letters, digits and \<open>-._~/\<close> as they are, every other byte as
  \<open>%\<close> and two hexadecimal digits.\<close>

definition unreserved :: "char \<Rightarrow> bool" where
  "unreserved c \<longleftrightarrow> (let n = (of_char c :: nat)
     in 48 \<le> n \<and> n \<le> 57 \<or> 65 \<le> n \<and> n \<le> 90 \<or> 97 \<le> n \<and> n \<le> 122)
     \<or> c \<in> set ''-._~/''"

definition hex_digit :: "nat \<Rightarrow> char" where
  "hex_digit n = char_of (if n < 10 then 48 + n else 55 + n)"

definition url_encode :: "string \<Rightarrow> string" where
  "url_encode s = concat (map (\<lambda>c. if unreserved c then [c]
     else [CHR ''%'', hex_digit (of_char c div 16), hex_digit (of_char c mod 16)]) s)"

lemma hex_digit_props:
  assumes "n < 16"
  shows "is_hex (hex_digit n)" "hex_digit_value (hex_digit n) = n" "\<not> is_space (hex_digit n)"
    "hex_digit n \<notin> {CHR 0x00, CHR ''-'', CHR ''+'', CHR ''x'', CHR ''X'', CHR ''?'', CHR ''%''}"
proof -
  have "of_char (hex_digit n) = (if n < 10 then 48 + n else 55 + n)"
    using assms by (simp add: hex_digit_def)
  moreover have "c = d \<longleftrightarrow> (of_char c :: nat) = of_char d" for c d by simp
  ultimately show "is_hex (hex_digit n)" "hex_digit_value (hex_digit n) = n" "\<not> is_space (hex_digit n)"
    "hex_digit n \<notin> {CHR 0x00, CHR ''-'', CHR ''+'', CHR ''x'', CHR ''X'', CHR ''?'', CHR ''%''}"
    using assms by (auto simp: is_hex_def hex_digit_value_def is_space_def Let_def split: if_splits)
qed

lemma sscanf_x_hex_digits:
  assumes "m < 16" and "n < 16"
  shows "sscanf_x [hex_digit m, hex_digit n] = Some (word_of_nat (16 * m + n))"
  using hex_digit_props [OF assms(1)] hex_digit_props [OF assms(2)]
  by (simp add: sscanf_x_def hex_value_def Let_def)

lemma url_decode_byte:
  "url_decode (CHR ''%'' # hex_digit (of_char c div 16) # hex_digit (of_char c mod 16) # s)
     = c # url_decode s"
proof -
  have "of_char c < (256 :: nat)" by (rule nat_of_char_less_256)
  then have "(of_char c :: nat) div 16 < 16" "of_char c mod 16 < (16 :: nat)" by linarith+
  note sx = sscanf_x_hex_digits [OF this]
  have "take_bit 32 (of_char c :: nat) = of_char c"
    by (rule take_bit_nat_eq_self) (rule less_trans [OF \<open>of_char c < 256\<close>], simp)
  moreover have "uint (word_of_nat (of_char c) :: u32) = int (take_bit 32 (of_char c))"
    by (simp add: unsigned_of_nat)
  ultimately have "char_of (uint (word_of_nat (of_char c) :: u32)) = c"
    by (simp only: char_of_nat char_of_char)
  then show ?thesis by (simp add: sx)
qed

lemma unreserved_not_special: "unreserved c \<Longrightarrow> c \<noteq> CHR ''%'' \<and> c \<noteq> CHR ''+'' \<and> c \<noteq> CHR ''?'' \<and> \<not> is_space c"
  by (auto simp: unreserved_def Let_def is_space_def)

lemma url_decode_encode': "url_decode (url_encode s) = s"
proof (induction s)
  case (Cons c s)
  then show ?case
    using unreserved_not_special [of c] url_decode_byte [of c "url_encode s"]
    by (auto simp: url_encode_def)
qed (simp add: url_encode_def)

text \<open>Decoding gives back every byte string the encoder was given.\<close>

theorem url_decode_encode: "url_decode (url_encode s) = s"
  by (rule url_decode_encode')

text \<open>Text without \<open>%\<close> and \<open>+\<close> decodes to itself.\<close>

lemma url_decode_plain: "CHR ''%'' \<notin> set s \<Longrightarrow> CHR ''+'' \<notin> set s \<Longrightarrow> url_decode s = s"
  by (induction s rule: url_decode.induct) auto

lemma length_url_decode: "length (url_decode s) \<le> length s"
  by (induction s rule: url_decode.induct) (auto split: option.splits)

text \<open>An escape with only one hexadecimal digit is decoded, and its second character lost:
  \<open>%\<close>, a digit and any character that is no hexadecimal digit become one byte.\<close>

theorem url_decode_half_escape:
  assumes "n < 16" and "\<not> is_hex c" and "n \<noteq> 0 \<or> c \<notin> {CHR ''x'', CHR ''X''}"
  shows "url_decode (CHR ''%'' # hex_digit n # c # s) = char_of n # url_decode s"
proof -
  have "sscanf_x [hex_digit n, c] = Some (word_of_nat n)"
  proof (cases "c = CHR 0x00")
    case True
    then show ?thesis
      using hex_digit_props [OF assms(1)] by (simp add: sscanf_x_def hex_value_def Let_def)
  next
    case False
    have "n \<noteq> 0 \<longrightarrow> hex_digit n \<noteq> CHR ''0''"
      using hex_digit_props(2) [OF assms(1)] by (auto simp: hex_digit_value_def)
    with False assms hex_digit_props [OF assms(1)] show ?thesis
      by (auto simp: sscanf_x_def hex_value_def Let_def)
  qed
  moreover have "uint (word_of_nat n :: u32) = int n"
    using assms(1) by (simp add: unsigned_of_nat take_bit_nat_eq_self)
  ultimately show ?thesis by (simp add: char_of_nat)
qed

theorem url_decode_half_escape_witness:
  "url_decode (CHR ''%'' # hex_digit 4 # CHR ''z'' # ''ip'') = char_of (4 :: nat) # ''ip''"
proof -
  have "\<not> is_hex (CHR ''z'')" by (simp add: is_hex_def)
  from url_decode_half_escape [OF _ this, of 4 "''ip''"] show ?thesis by simp
qed

section \<open>Parsing inverts printing\<close>

text \<open>The reference printer: a request line, one line per header, an empty line, the body; and
  what a client must respect for its request to be read back.\<close>

definition crlf :: string where
  "crlf = [CHR 0x0D, CHR 0x0A]"

definition render_header :: "string \<times> string \<Rightarrow> string" where
  "render_header h = fst h @ '': '' @ snd h @ crlf"

definition render_request :: "http_method \<Rightarrow> string \<Rightarrow> string \<Rightarrow> (string \<times> string) list \<Rightarrow> string \<Rightarrow> string" where
  "render_request m target version headers body =
     method_to_string m @ '' '' @ target @ '' '' @ version @ crlf @
     concat (map render_header headers) @ crlf @ body"

definition is_token :: "string \<Rightarrow> bool" where
  "is_token s \<longleftrightarrow> s \<noteq> [] \<and> list_all (\<lambda>c. \<not> is_space c) s"

definition good_header :: "string \<times> string \<Rightarrow> bool" where
  "good_header h \<longleftrightarrow>
     CHR '':'' \<notin> set (fst h) \<and> CHR 0x0A \<notin> set (fst h) \<and> (fst h = [] \<or> \<not> is_blank (last (fst h))) \<and>
     CHR 0x0A \<notin> set (snd h) \<and> (snd h = [] \<or> \<not> is_blank (hd (snd h)) \<and> \<not> is_blank (last (snd h)))"

definition good_body :: "string \<Rightarrow> bool" where
  "good_body b \<longleftrightarrow> CHR 0x0A \<notin> set b \<and> (b = [] \<or> last b \<noteq> CHR 0x0D)"

definition header_map :: "(string \<times> string) list \<Rightarrow> string \<Rightarrow> string option" where
  \<comment> \<open>the value of a header, by its lower-case name: the last line counts\<close>
  "header_map headers = map_of (rev (map (\<lambda>(n, v). (lower n, v)) headers))"

definition header_lines :: "(string \<times> string) list \<Rightarrow> string list" where
  "header_lines headers = map (\<lambda>(n, v). n @ '': '' @ v @ [CHR 0x0D]) headers"

lemma getlines_headers:
  "list_all good_header headers \<Longrightarrow>
   getlines (CHR 0x0A) (concat (map render_header headers) @ rest)
     = header_lines headers @ getlines (CHR 0x0A) rest"
proof (induction headers)
  case (Cons h hs)
  obtain n v where h: "h = (n, v)" by (cases h)
  let ?l = "n @ '': '' @ v @ [CHR 0x0D]"
  have "CHR 0x0A \<notin> set ?l" using Cons.prems by (simp add: h good_header_def)
  note line = getlines_line [OF this, of "concat (map render_header hs) @ rest"]
  have "concat (map render_header (h # hs)) @ rest
      = ?l @ CHR 0x0A # (concat (map render_header hs) @ rest)"
    by (simp add: h render_header_def crlf_def)
  then have "getlines (CHR 0x0A) (concat (map render_header (h # hs)) @ rest)
      = ?l # getlines (CHR 0x0A) (concat (map render_header hs) @ rest)"
    by (simp only: line)
  also have "\<dots> = ?l # header_lines hs @ getlines (CHR 0x0A) rest"
    using Cons by simp
  finally show ?case by (simp add: h header_lines_def)
qed (simp add: header_lines_def)

lemma header_field_line:
  assumes "good_header (n, v)"
  shows "header_field (n @ '': '' @ v) = Some (lower n, v)"
proof -
  have "find_char (CHR '':'') (n @ CHR '':'' # '' '' @ v) = Some (length n)"
    using assms by (intro find_char_app) (simp add: good_header_def)
  moreover have "rtrim n = n" "ltrim v = v" "rtrim v = v"
    using assms by (auto simp: good_header_def intro!: rtrim_id ltrim_id)
  ultimately show ?thesis by (simp add: header_field_def)
qed

lemma parse_header_lines:
  assumes "list_all good_header headers" and "\<not> ps_first_line st" and "\<not> ps_headers_done st"
  shows "foldl (\<lambda>st l. parse_line l st) st (header_lines headers) =
    st\<lparr>ps_request := (ps_request st)\<lparr>rq_headers :=
      foldl (\<lambda>m (n, v). AList.update (lower n) v m) (rq_headers (ps_request st)) headers\<rparr>\<rparr>"
  using assms
proof (induction headers arbitrary: st)
  case (Cons h hs)
  obtain n v where h: "h = (n, v)" by (cases h)
  have "strip_cr ((n @ '': '' @ v) @ [CHR 0x0D]) = n @ '': '' @ v" by (rule strip_cr_snoc)
  then have "parse_line (n @ '': '' @ v @ [CHR 0x0D]) st =
      st\<lparr>ps_request := (ps_request st)\<lparr>rq_headers := AList.update (lower n) v (rq_headers (ps_request st))\<rparr>\<rparr>"
    using Cons.prems header_field_line [of n v]
    by (simp add: h parse_line_def parse_header_line_def)
  with Cons show ?case by (simp add: h header_lines_def)
qed (simp add: header_lines_def)

lemma map_of_update_headers:
  "map_of (foldl (\<lambda>m (n, v). AList.update (lower n) v m) m0 headers)
     = map_of m0 ++ header_map headers"
  by (induction headers arbitrary: m0)
    (auto simp: header_map_def AList.update_conv' map_add_def fun_eq_iff split: option.splits)

lemma parse_request_line_render:
  assumes "is_token target" and "is_token version"
  shows "parse_request_line (method_to_string m @ '' '' @ target @ '' '' @ version) empty_request =
    (case find_char (CHR ''?'') target of
       None \<Rightarrow> empty_request\<lparr>rq_method := m, rq_version := version, rq_path := url_decode target\<rparr>
     | Some i \<Rightarrow> empty_request\<lparr>rq_method := m, rq_version := version,
         rq_path := url_decode (take i target), rq_query_string := drop (i + 1) target\<rparr>)"
proof -
  have sp: "is_space (CHR '' '')" by (simp add: is_space_def)
  have m: "method_to_string m \<noteq> []" "\<forall>c \<in> set (method_to_string m). \<not> is_space c"
    by (cases m; simp add: is_space_def)+
  have "next_word (method_to_string m @ '' '' @ target @ '' '' @ version)
      = Some (method_to_string m, '' '' @ target @ '' '' @ version)"
    by (rule next_word_app(1) [OF m]) (simp add: sp)
  moreover have "next_word ('' '' @ target @ '' '' @ version) = Some (target, '' '' @ version)"
    using next_word_app(2) [of target "'' '' @ version"] assms(1) sp
    by (simp add: is_token_def list_all_iff)
  moreover have "next_word ('' '' @ version) = Some (version, [])"
    using next_word_app(2) [of version "[]"] assms(2) by (simp add: is_token_def list_all_iff)
  ultimately show ?thesis
    by (simp add: parse_request_line_def Let_def string_to_method_id empty_request_def
        del: find_char_None split: option.split)
qed

lemma parse_query_string_frame:
  "rq_method (parse_query_string rq) = rq_method rq \<and> rq_path (parse_query_string rq) = rq_path rq \<and>
   rq_query_string (parse_query_string rq) = rq_query_string rq \<and>
   rq_version (parse_query_string rq) = rq_version rq \<and> rq_body (parse_query_string rq) = rq_body rq \<and>
   rq_headers (parse_query_string rq) = rq_headers rq"
proof -
  have "rq_method (foldl f rq ps) = rq_method rq \<and> rq_path (foldl f rq ps) = rq_path rq \<and>
     rq_query_string (foldl f rq ps) = rq_query_string rq \<and>
     rq_version (foldl f rq ps) = rq_version rq \<and> rq_body (foldl f rq ps) = rq_body rq \<and>
     rq_headers (foldl f rq ps) = rq_headers rq"
    if "f = (\<lambda>rq' pair. let (key, value) = query_pair pair
              in rq'\<lparr>rq_query_params := AList.update key value (rq_query_params rq')\<rparr>)" for f and ps
    by (induction ps arbitrary: rq) (auto simp: that Let_def case_prod_beta)
  then show ?thesis by (simp add: parse_query_string_def)
qed

lemma find_char_split:
  "find_char c s = (if c \<in> set s then Some (length (takeWhile (\<lambda>x. x \<noteq> c) s)) else None)"
  by (induction s) auto

definition rendered :: "http_method \<Rightarrow> string \<Rightarrow> string \<Rightarrow> (string \<times> string) list \<Rightarrow> string \<Rightarrow> http_request" where
  \<comment> \<open>what the loop of \<open>parse\<close> makes of a printed request\<close>
  "rendered m target version headers body = empty_request\<lparr>rq_method := m, rq_version := version,
     rq_path := url_decode (takeWhile (\<lambda>c. c \<noteq> CHR ''?'') target),
     rq_query_string := drop 1 (dropWhile (\<lambda>c. c \<noteq> CHR ''?'') target), rq_body := body,
     rq_headers := foldl (\<lambda>m (n, v). AList.update (lower n) v m) [] headers\<rparr>"

lemma parse_request_line_render':
  assumes "is_token target" and "is_token version"
  shows "parse_request_line (method_to_string m @ '' '' @ target @ '' '' @ version) empty_request =
    (rendered m target version [] [])"
proof (cases "CHR ''?'' \<in> set target")
  case True
  let ?p = "takeWhile (\<lambda>x. x \<noteq> CHR ''?'') target"
  have split: "take (length ?p) target = ?p" "drop (length ?p) target = dropWhile (\<lambda>x. x \<noteq> CHR ''?'') target"
    by (metis takeWhile_eq_take) (metis dropWhile_eq_drop)
  have "drop (Suc (length ?p)) target = drop 1 (dropWhile (\<lambda>x. x \<noteq> CHR ''?'') target)"
    unfolding split(2) [symmetric] by simp
  with True split(1) show ?thesis
    unfolding parse_request_line_render [OF assms] find_char_split rendered_def
    by (simp add: empty_request_def)
next
  case False
  then have "takeWhile (\<lambda>x. x \<noteq> CHR ''?'') target = target"
    "dropWhile (\<lambda>x. x \<noteq> CHR ''?'') target = []"
    by (auto simp: takeWhile_eq_all_conv dropWhile_eq_Nil_conv)
  with False show ?thesis
    by (simp only: parse_request_line_render [OF assms] find_char_split rendered_def if_False)
      (simp add: empty_request_def)
qed

lemma parse_render_body:
  assumes "is_token target" and "is_token version" and "list_all good_header headers"
  shows "foldl (\<lambda>st l. parse_line l st) parse_start
      (getlines (CHR 0x0A) (render_request m target version headers body)) =
    foldl (\<lambda>st l. parse_line l st)
      \<lparr>ps_request = rendered m target version headers [], ps_first_line = False,
       ps_headers_done = True, ps_body = []\<rparr> (getlines (CHR 0x0A) body)"
proof -
  let ?rl = "method_to_string m @ '' '' @ target @ '' '' @ version"
  let ?st = "\<lparr>ps_request = rendered m target version [] [], ps_first_line = False,
       ps_headers_done = False, ps_body = []\<rparr>"
  have nl: "CHR 0x0A \<notin> set (?rl @ [CHR 0x0D])"
    using assms(1,2) by (cases m) (auto simp: is_token_def list_all_iff is_space_def)
  have "render_request m target version headers body
      = (?rl @ [CHR 0x0D]) @ CHR 0x0A # (concat (map render_header headers) @ [CHR 0x0D] @ CHR 0x0A # body)"
    by (simp add: render_request_def crlf_def)
  then have lines: "getlines (CHR 0x0A) (render_request m target version headers body)
      = (?rl @ [CHR 0x0D]) # header_lines headers @ [CHR 0x0D] # getlines (CHR 0x0A) body"
    by (simp only: getlines_line [OF nl] getlines_headers [OF assms(3)])
      (subst getlines_line; simp)
  have first: "parse_line (?rl @ [CHR 0x0D]) parse_start = ?st"
    unfolding parse_line_def strip_cr_snoc
    by (simp only: parse_start_def parse_state.simps Let_def simp_thms if_True
        parse_request_line_render' [OF assms(1,2)])
  have hs: "foldl (\<lambda>st l. parse_line l st) ?st (header_lines headers)
      = ?st\<lparr>ps_request := rendered m target version headers []\<rparr>"
    by (subst parse_header_lines [OF assms(3)]) (simp_all add: rendered_def empty_request_def)
  have blank: "parse_line [CHR 0x0D] (?st\<lparr>ps_request := r\<rparr>)
      = ?st\<lparr>ps_request := r, ps_headers_done := True\<rparr>" for r
    by (simp add: parse_line_def strip_cr_def)
  show ?thesis
    unfolding lines by (simp only: foldl_Cons foldl_append first hs blank) simp
qed

lemma parse_render:
  assumes "is_token target" and "is_token version" and "list_all good_header headers"
    and "getlines (CHR 0x0A) body = (if b = [] then [] else [b'])" and "strip_cr b' = b"
  shows "parse_request (render_request m target version headers body) =
    (let rq = parse_query_string (rendered m target version headers b)
     in rq\<lparr>rq_valid := is_request_valid rq\<rparr>)"
proof -
  have "render_request m target version headers body \<noteq> []"
    by (cases m) (simp_all add: render_request_def)
  moreover have "(ps_request st)\<lparr>rq_body := ps_body st\<rparr> = rendered m target version headers b"
    if "st = foldl (\<lambda>st l. parse_line l st) parse_start
      (getlines (CHR 0x0A) (render_request m target version headers body))" for st
    unfolding that parse_render_body [OF assms(1-3)] using assms(4,5)
    by (cases "b = []") (simp_all add: parse_line_def rendered_def empty_request_def)
  ultimately show ?thesis by (simp add: parse_request_def Let_def)
qed

lemma parse_render_good_body:
  assumes "is_token target" and "is_token version" and "list_all good_header headers"
    and "good_body body"
  shows "parse_request (render_request m target version headers body) =
    (let rq = parse_query_string (rendered m target version headers body)
     in rq\<lparr>rq_valid := is_request_valid rq\<rparr>)"
proof (rule parse_render [OF assms(1-3)])
  show "getlines (CHR 0x0A) body = (if body = [] then [] else [body])"
    using assms(4) getlines_last [of body "CHR 0x0A"] by (auto simp: good_body_def)
  show "strip_cr body = body" using assms(4) by (auto simp: good_body_def intro!: strip_cr_id)
qed

lemma rendered_sel [simp]:
  "rq_method (rendered m t v hs b) = m" "rq_version (rendered m t v hs b) = v"
  "rq_body (rendered m t v hs b) = b"
  "rq_path (rendered m t v hs b) = url_decode (takeWhile (\<lambda>c. c \<noteq> CHR ''?'') t)"
  "rq_query_string (rendered m t v hs b) = drop 1 (dropWhile (\<lambda>c. c \<noteq> CHR ''?'') t)"
  "map_of (rq_headers (rendered m t v hs b)) = header_map hs"
  "rq_query_params (rendered m t v hs b) = []"
  by (simp_all add: rendered_def empty_request_def map_of_update_headers)

lemma get_header_rendered:
  "get_header (rendered m t v hs b) n = (case header_map hs (lower n) of Some x \<Rightarrow> x | None \<Rightarrow> [])"
  by (simp add: get_header_def)



section \<open>Which requests are accepted\<close>

definition printable :: "char \<Rightarrow> bool" where
  "printable c \<longleftrightarrow> 0x20 \<le> (of_char c :: nat) \<and> (of_char c :: nat) < 0x7F"

lemma printable_iff: "printable c \<longleftrightarrow> \<not> (schar c < 0x20 \<or> c = CHR 0x7F)"
proof -
  obtain n where n: "(of_char c :: nat) = n" by simp
  have "c = CHR 0x7F \<longleftrightarrow> (of_char c :: nat) = of_char (CHR 0x7F)" by (simp only: of_char_eq_iff)
  then have e: "c = CHR 0x7F \<longleftrightarrow> n = 127" by (simp add: n)
  have i: "(of_char c :: int) = int n" by (simp only: of_nat_of_char flip: n)
  have "n < 256" using nat_of_char_less_256 [of c] n by simp
  then show ?thesis unfolding printable_def schar_def Let_def e i n by auto
qed

lemma is_request_valid_flag [simp]: "is_request_valid (rq\<lparr>rq_valid := b\<rparr>) = is_request_valid rq"
  by (simp add: is_request_valid_def get_header_def Let_def cong: sum.case_cong)

lemma parse_request_valid_iff:
  "rq_valid (parse_request raw) \<longleftrightarrow> raw \<noteq> [] \<and> is_request_valid (parse_request raw)"
  by (simp add: parse_request_def Let_def) (simp add: empty_request_def)

text \<open>C32: Whatever the input, a request that \<open>parse\<close> marks valid has a known method, a version
  the server speaks, and a path that starts with a slash and holds printable ASCII only (so no
  control character, no NUL, no line break and no byte above 0x7E reaches the file system).\<close>

theorem parse_valid_sound:
  assumes "rq_valid (parse_request raw)"
  shows "rq_method (parse_request raw) \<noteq> UNKNOWN \<and>
    rq_version (parse_request raw) \<in> {''HTTP/1.0'', ''HTTP/1.1''} \<and>
    (\<exists>p. rq_path (parse_request raw) = CHR ''/'' # p) \<and>
    (\<forall>c \<in> set (rq_path (parse_request raw)). printable c)"
proof -
  let ?rq = "parse_request raw"
  have "is_request_valid ?rq" using assms by (simp add: parse_request_valid_iff)
  then have "rq_method ?rq \<noteq> UNKNOWN" "rq_path ?rq \<noteq> []" "hd (rq_path ?rq) = CHR ''/''"
    "rq_version ?rq = ''HTTP/1.0'' \<or> rq_version ?rq = ''HTTP/1.1''"
    "\<not> list_ex (\<lambda>c. schar c < 0x20 \<or> c = CHR 0x7F) (rq_path ?rq)"
    by (auto simp: is_request_valid_def split: if_splits)
  then show ?thesis by (cases "rq_path ?rq") (auto simp: printable_iff list_ex_iff)
qed

theorem parse_valid_sound_witness:
  "\<exists>p. rq_path (parse_request (''GET / HTTP/1.1'' @ crlf @ crlf)) = CHR ''/'' # p"
proof -
  have "rq_valid (parse_request (''GET / HTTP/1.1'' @ crlf @ crlf))" by code_simp
  from parse_valid_sound [OF this] show ?thesis by blast
qed

definition content_length_ok :: "http_method \<Rightarrow> (string \<times> string) list \<Rightarrow> string \<Rightarrow> bool" where
  "content_length_ok m headers body \<longleftrightarrow>
     m \<in> {POST, PUT} \<longrightarrow>
       header_map headers ''content-length'' \<in> {None, Some (dec_digits (length body))}"

lemma lower_content_length: "lower ''content-length'' = ''content-length''"
  by (simp add: lower_def to_lower_def)

lemma url_encode_token:
  "s \<noteq> [] \<Longrightarrow> is_token (url_encode s) \<and> CHR ''?'' \<notin> set (url_encode s)"
proof -
  have "\<not> is_space c \<and> c \<noteq> CHR ''?''" if c: "c \<in> set (url_encode s)" for c
  proof -
    obtain d where d: "c \<in> set (if unreserved d then [d]
        else [CHR ''%'', hex_digit (of_char d div 16), hex_digit (of_char d mod 16)])"
      using c unfolding url_encode_def set_concat set_map by blast
    moreover have "(of_char d :: nat) div 16 < 16" "of_char d mod 16 < (16 :: nat)"
      using nat_of_char_less_256 [of d] by linarith+
    ultimately show ?thesis
      using unreserved_not_special [of d] hex_digit_props(3,4)
      by (auto simp: is_space_def split: if_splits)
  qed
  moreover assume "s \<noteq> []"
  then have "url_encode s \<noteq> []" by (cases s) (auto simp: url_encode_def)
  ultimately show ?thesis by (auto simp: is_token_def list_all_iff)
qed

lemma is_request_validI:
  assumes "rq_method rq \<noteq> UNKNOWN" and "rq_path rq \<noteq> []" and "hd (rq_path rq) = CHR ''/''"
    and "rq_version rq \<in> {''HTTP/1.0'', ''HTTP/1.1''}" and "list_all printable (rq_path rq)"
    and "rq_method rq \<in> {POST, PUT} \<Longrightarrow>
      get_header rq ''content-length'' \<in> {[], dec_digits (length (rq_body rq))}"
    and "length (rq_body rq) < 2 ^ 64"
  shows "is_request_valid rq"
proof -
  have "\<not> list_ex (\<lambda>c. schar c < 0x20 \<or> c = CHR 0x7F) (rq_path rq)"
    using assms(5) by (simp add: list_all_iff list_ex_iff printable_iff)
  moreover have "stoull (dec_digits (length (rq_body rq))) = Inr (word_of_nat (length (rq_body rq)))"
    by (rule stoull_dec_digits [OF assms(7)])
  ultimately show ?thesis
    unfolding is_request_valid_def Let_def using assms(1-4,6) by (auto simp del: dec_digits.simps)
qed

lemma request_accepted:
  assumes "m \<noteq> UNKNOWN" and "version \<in> {''HTTP/1.0'', ''HTTP/1.1''}"
    and "list_all printable path" and "path \<noteq> []" and "hd path = CHR ''/''"
    and "list_all good_header headers" and "good_body body" and "length body < 2 ^ 64"
    and "content_length_ok m headers body"
  shows "rq_valid (parse_request (render_request m (url_encode path) version headers body)) \<and>
    rq_path (parse_request (render_request m (url_encode path) version headers body)) = path \<and>
    rq_method (parse_request (render_request m (url_encode path) version headers body)) = m"
proof -
  let ?r = "rendered m (url_encode path) version headers body"
  have tok: "is_token (url_encode path)" "is_token version"
    using url_encode_token [OF assms(4)] assms(2) by (auto simp: is_token_def is_space_def)
  have noq: "takeWhile (\<lambda>c. c \<noteq> CHR ''?'') (url_encode path) = url_encode path"
    using url_encode_token [OF assms(4)] by (auto simp: takeWhile_eq_all_conv)
  then have path: "rq_path ?r = path" by (simp only: rendered_sel url_decode_encode')
  note F = parse_query_string_frame [of ?r]
  have cl: "content_length_ok m headers body" by fact
  have "is_request_valid (parse_query_string ?r)"
    by (rule is_request_validI)
      (use assms(1-5,8) cl in \<open>auto simp: F path get_header_def lower_content_length
         content_length_ok_def simp del: rendered_sel(4)\<close>)
  then show ?thesis
    by (simp only: parse_render_good_body [OF tok assms(6,7)] Let_def)
      (simp add: F path del: rendered_sel(3-))
qed

text \<open>A well-behaved client is accepted: a known method, a version the server speaks, an
  encoded path of printable ASCII that starts with a slash, and, for POST and PUT, no
  Content-Length or the right one.\<close>

theorem parse_render_accepted:
  assumes "m \<noteq> UNKNOWN" and "version \<in> {''HTTP/1.0'', ''HTTP/1.1''}"
    and "list_all printable path" and "path \<noteq> []" and "hd path = CHR ''/''"
    and "list_all good_header headers" and "good_body body" and "length body < 2 ^ 64"
    and "content_length_ok m headers body"
  shows "rq_valid (parse_request (render_request m (url_encode path) version headers body)) \<and>
    rq_path (parse_request (render_request m (url_encode path) version headers body)) = path"
  using request_accepted [OF assms] by simp

theorem parse_render_accepted_witness:
  "rq_valid (parse_request (render_request POST (url_encode ''/a b'') ''HTTP/1.1''
     [(''content-length'', ''3'')] ''xyz''))"
proof -
  have "list_all printable ''/a b''" by (simp add: printable_def)
  moreover have "list_all good_header [(''content-length'', ''3'')]" "good_body ''xyz''"
    by (simp_all add: good_header_def good_body_def is_blank_def)
  moreover have "content_length_ok POST [(''content-length'', ''3'')] ''xyz''"
    by (simp add: content_length_ok_def header_map_def lower_content_length dec_digits.simps char_eval)
  ultimately show ?thesis
    using parse_render_accepted [of POST "''HTTP/1.1''" "''/a b''" "[(''content-length'', ''3'')]" "''xyz''"]
    by simp
qed

section \<open>Which requests are refused although they are well formed\<close>

lemma rendered_path_encoded:
  assumes "path \<noteq> []"
  shows "rq_path (rendered m (url_encode path) v hs b) = path"
proof -
  have "takeWhile (\<lambda>c. c \<noteq> CHR ''?'') (url_encode path) = url_encode path"
    using url_encode_token [OF assms] by (auto simp: takeWhile_eq_all_conv)
  then show ?thesis by (simp only: rendered_sel url_decode_encode')
qed

lemma rq_path_render:
  assumes "is_token version" and "list_all good_header headers" and "good_body body" and "path \<noteq> []"
  shows "rq_path (parse_request (render_request m (url_encode path) version headers body)) = path"
  using url_encode_token [OF assms(4)] parse_query_string_frame rendered_path_encoded [OF assms(4)]
  by (simp only: parse_render_good_body [OF _ assms(1-3)] Let_def) simp

text \<open>A path with a byte above 0x7E, such as any UTF-8 name outside ASCII, is refused however
  carefully the client encodes it: \<open>char\<close> is signed, so \<open>c < 0x20\<close> holds for the byte.\<close>

theorem non_ascii_path_refused:
  assumes "is_token version" and "list_all good_header headers" and "good_body body"
    and "c \<in> set path" and "0x7E < (of_char c :: nat)"
  shows "\<not> rq_valid (parse_request (render_request m (url_encode path) version headers body))"
proof -
  have "path \<noteq> []" using assms(4) by auto
  then have "rq_path (parse_request (render_request m (url_encode path) version headers body)) = path"
    by (rule rq_path_render [OF assms(1-3)])
  moreover have "list_ex (\<lambda>c. schar c < 0x20 \<or> c = CHR 0x7F) path"
    using assms(4,5) printable_iff [of c] by (auto simp: list_ex_iff printable_def)
  ultimately show ?thesis
    by (simp add: parse_request_valid_iff is_request_valid_def)
qed

theorem non_ascii_path_refused_witness:
  "\<not> rq_valid (parse_request (render_request GET (url_encode [CHR ''/'', CHR 0xC3, CHR 0xA9]) ''HTTP/1.1'' [] []))"
  by (rule non_ascii_path_refused [of _ _ _ "CHR 0xC3"])
    (simp_all add: is_token_def is_space_def good_body_def)

text \<open>A POST or PUT body that ends in a line break is refused although its Content-Length is
  right: the line loop drops the line break, and the body is then one byte short.\<close>

theorem final_newline_refused:
  assumes "m \<in> {POST, PUT}" and "is_token target" and "is_token version"
    and "list_all good_header headers" and "b \<noteq> []" and "good_body b"
    and "Suc (length b) < 2 ^ 64"
    and "header_map headers ''content-length'' = Some (dec_digits (Suc (length b)))"
  shows "rq_body (parse_request (render_request m target version headers (b @ [CHR 0x0A]))) = b \<and>
    \<not> rq_valid (parse_request (render_request m target version headers (b @ [CHR 0x0A])))"
proof -
  let ?rq = "parse_query_string (rendered m target version headers b)"
  have "getlines (CHR 0x0A) (b @ [CHR 0x0A]) = [b]"
    using getlines_line [of "CHR 0x0A" b "[]"] assms(6) by (simp add: good_body_def)
  moreover have "strip_cr b = b" using assms(6) by (auto simp: good_body_def intro!: strip_cr_id)
  ultimately have P: "parse_request (render_request m target version headers (b @ [CHR 0x0A]))
      = ?rq\<lparr>rq_valid := is_request_valid ?rq\<rparr>"
    using parse_render [OF assms(2-4), of "b @ [CHR 0x0A]" b b m] assms(5) by (simp add: Let_def)
  note F = parse_query_string_frame [of "rendered m target version headers b"]
  have h: "get_header ?rq ''content-length'' = dec_digits (Suc (length b))"
    using F assms(8) by (simp add: get_header_def lower_content_length)
  have ne: "dec_digits (Suc (length b)) \<noteq> []" using dec_digits_props by blast
  have lt: "\<not> word_of_nat (Suc (length b)) \<le> (word_of_nat (length b) :: u64)"
    using assms(7) by (simp add: word_le_nat_alt unat_of_nat del: of_nat_Suc)
  then have "(word_of_nat (length b) :: u64) \<noteq> word_of_nat (Suc (length b))" by auto
  with lt have "\<not> is_request_valid ?rq"
    unfolding is_request_valid_def Let_def h using assms(1) F ne
    by (simp only: stoull_dec_digits [OF assms(7)]) simp
  then show ?thesis using F by (simp add: P)
qed

theorem final_newline_refused_witness:
  "\<not> rq_valid (parse_request (render_request POST ''/f'' ''HTTP/1.1''
     [(''content-length'', ''4'')] (''abc'' @ [CHR 0x0A])))"
proof -
  have "header_map [(''content-length'', ''4'')] ''content-length'' = Some (dec_digits (Suc (length ''abc'')))"
    by (simp add: header_map_def lower_content_length dec_digits.simps char_eval)
  then show ?thesis
    using final_newline_refused [of POST "''/f''" "''HTTP/1.1''" "[(''content-length'', ''4'')]" "''abc''"]
    by (simp add: is_token_def is_space_def good_header_def good_body_def is_blank_def)
qed

end
