(* ===== verification/Http_Response.thy ===== *)
theory Http_Response
  imports Http_Request "HOL-Library.Multiset"
begin

text \<open>
  Responses: \<open>include/http_response.h\<close>, \<open>src/http_response.cpp\<close> (class \<open>HttpResponse\<close>).

  The record \<open>http_response\<close> has the fields of the class.  Every constructor call stamps the
  response with the current date: its argument \<open>now\<close> is the reading of \<open>system_clock\<close> in
  seconds since 1970, which \<open>format_date\<close> prints.  \<open>to_string\<close> walks an \<open>unordered_map\<close>,
  whose order the standard leaves open: the order is the argument \<open>order\<close> of
  \<open>response_to_string\<close>, of which the theorems assume only that it permutes the entries.

  The last section is the other end of the connection: a client that reads status line, header
  lines and \<open>Content-Length\<close> bytes of body off the byte stream.
\<close>

section \<open>Status codes\<close>

datatype http_status =
    OK | CREATED | NO_CONTENT | MOVED_PERMANENTLY | FOUND | NOT_MODIFIED
  | BAD_REQUEST | UNAUTHORIZED | FORBIDDEN | NOT_FOUND | METHOD_NOT_ALLOWED
  | INTERNAL_SERVER_ERROR | NOT_IMPLEMENTED | BAD_GATEWAY | SERVICE_UNAVAILABLE

fun status_code :: "http_status \<Rightarrow> nat" where
  "status_code OK = 200"
| "status_code CREATED = 201"
| "status_code NO_CONTENT = 204"
| "status_code MOVED_PERMANENTLY = 301"
| "status_code FOUND = 302"
| "status_code NOT_MODIFIED = 304"
| "status_code BAD_REQUEST = 400"
| "status_code UNAUTHORIZED = 401"
| "status_code FORBIDDEN = 403"
| "status_code NOT_FOUND = 404"
| "status_code METHOD_NOT_ALLOWED = 405"
| "status_code INTERNAL_SERVER_ERROR = 500"
| "status_code NOT_IMPLEMENTED = 501"
| "status_code BAD_GATEWAY = 502"
| "status_code SERVICE_UNAVAILABLE = 503"

fun get_status_text :: "http_status \<Rightarrow> string" where
  "get_status_text OK = ''OK''"
| "get_status_text CREATED = ''Created''"
| "get_status_text NO_CONTENT = ''No Content''"
| "get_status_text MOVED_PERMANENTLY = ''Moved Permanently''"
| "get_status_text FOUND = ''Found''"
| "get_status_text NOT_MODIFIED = ''Not Modified''"
| "get_status_text BAD_REQUEST = ''Bad Request''"
| "get_status_text UNAUTHORIZED = ''Unauthorized''"
| "get_status_text FORBIDDEN = ''Forbidden''"
| "get_status_text NOT_FOUND = ''Not Found''"
| "get_status_text METHOD_NOT_ALLOWED = ''Method Not Allowed''"
| "get_status_text INTERNAL_SERVER_ERROR = ''Internal Server Error''"
| "get_status_text NOT_IMPLEMENTED = ''Not Implemented''"
| "get_status_text BAD_GATEWAY = ''Bad Gateway''"
| "get_status_text SERVICE_UNAVAILABLE = ''Service Unavailable''"

section \<open>Dates\<close>

definition leap_year :: "nat \<Rightarrow> bool" where
  "leap_year y \<longleftrightarrow> y mod 4 = 0 \<and> (y mod 100 \<noteq> 0 \<or> y mod 400 = 0)"

definition month_lengths :: "nat \<Rightarrow> nat list" where
  "month_lengths y = [31, if leap_year y then 29 else 28, 31, 30, 31, 30, 31, 31, 30, 31, 30, 31]"

definition year_length :: "nat \<Rightarrow> nat" where
  "year_length y = (if leap_year y then 366 else 365)"

function split_year :: "nat \<Rightarrow> nat \<Rightarrow> nat \<times> nat" where
  \<comment> \<open>the year a day counted from the start of year \<open>y\<close> falls in, and its number there\<close>
  "split_year y d = (if d < year_length y then (y, d) else split_year (y + 1) (d - year_length y))"
  by pat_completeness auto
termination
  by (relation "measure (\<lambda>(y, d). d)") (auto simp: year_length_def split: if_splits)

declare split_year.simps [simp del]

fun split_month :: "nat list \<Rightarrow> nat \<Rightarrow> nat \<times> nat" where
  "split_month [] d = (0, d)"
| "split_month (l # ls) d =
     (if d < l then (0, d) else let (m, d1) = split_month ls (d - l) in (Suc m, d1))"

definition two_digits :: "nat \<Rightarrow> string" where
  "two_digits n = [char_of (48 + n div 10 mod 10), char_of (48 + n mod 10)]"

definition day_names :: "string list" where
  "day_names = [''Sun'', ''Mon'', ''Tue'', ''Wed'', ''Thu'', ''Fri'', ''Sat'']"

definition month_names :: "string list" where
  "month_names = [''Jan'', ''Feb'', ''Mar'', ''Apr'', ''May'', ''Jun'',
     ''Jul'', ''Aug'', ''Sep'', ''Oct'', ''Nov'', ''Dec'']"

definition format_date :: "nat \<Rightarrow> string" where
  \<comment> \<open>\<open>put_time(gmtime(&now), "%a, %d %b %Y %H:%M:%S GMT")\<close> in the C locale; 1 January 1970
      was a Thursday\<close>
  "format_date now =
     (let days = now div 86400; secs = now mod 86400;
          (year, yday) = split_year 1970 days;
          (mon, mday) = split_month (month_lengths year) yday
      in day_names ! ((days + 4) mod 7) @ '', '' @ two_digits (mday + 1) @ '' '' @
         month_names ! mon @ '' '' @ dec_digits year @ '' '' @
         two_digits (secs div 3600) @ '':'' @ two_digits (secs div 60 mod 60) @ '':'' @
         two_digits (secs mod 60) @ '' GMT'')"

section \<open>Responses\<close>

record http_response =
  rs_status :: http_status
  rs_headers :: "(string \<times> string) list"
  rs_body :: string
  rs_version :: string

definition set_status :: "http_status \<Rightarrow> http_response \<Rightarrow> http_response" where
  "set_status st r = r\<lparr>rs_status := st\<rparr>"

definition set_header :: "string \<Rightarrow> string \<Rightarrow> http_response \<Rightarrow> http_response" where
  "set_header name value r = r\<lparr>rs_headers := AList.update name value (rs_headers r)\<rparr>"

definition set_content_length :: "nat \<Rightarrow> http_response \<Rightarrow> http_response" where
  "set_content_length len r = set_header ''Content-Length'' (dec_digits len) r"

definition set_body :: "string \<Rightarrow> http_response \<Rightarrow> http_response" where
  \<comment> \<open>both overloads (\<open>std::string\<close> and \<open>std::vector<char>\<close>)\<close>
  "set_body body r = (let r1 = r\<lparr>rs_body := body\<rparr> in set_content_length (length (rs_body r1)) r1)"

definition append_body :: "string \<Rightarrow> http_response \<Rightarrow> http_response" where
  "append_body data r =
     (let r1 = r\<lparr>rs_body := rs_body r @ data\<rparr> in set_content_length (length (rs_body r1)) r1)"

definition set_content_type :: "string \<Rightarrow> http_response \<Rightarrow> http_response" where
  "set_content_type content_type r = set_header ''Content-Type'' content_type r"

definition set_keep_alive :: "bool \<Rightarrow> http_response \<Rightarrow> http_response" where
  "set_keep_alive keep_alive r =
     (if keep_alive
      then set_header ''Keep-Alive'' ''timeout=30, max=100'' (set_header ''Connection'' ''keep-alive'' r)
      else set_header ''Connection'' ''close'' r)"

definition set_server_header :: "string \<Rightarrow> http_response \<Rightarrow> http_response" where
  "set_server_header server_name r = set_header ''Server'' server_name r"

definition set_default_headers :: "nat \<Rightarrow> http_response \<Rightarrow> http_response" where
  "set_default_headers now r =
     set_header ''Connection'' ''close''
       (set_header ''Server'' ''MultithreadedWebServer/1.0'' (set_header ''Date'' (format_date now) r))"

definition new_response :: "nat \<Rightarrow> http_status \<Rightarrow> http_response" where
  "new_response now st =
     set_default_headers now
       \<lparr>rs_status = st, rs_headers = [], rs_body = [], rs_version = ''HTTP/1.1''\<rparr>"

definition status_line :: "http_response \<Rightarrow> string" where
  "status_line r = rs_version r @ '' '' @ dec_digits (status_code (rs_status r)) @ '' '' @
     get_status_text (rs_status r)"

definition response_to_string ::
    "((string \<times> string) list \<Rightarrow> (string \<times> string) list) \<Rightarrow> http_response \<Rightarrow> string" where
  "response_to_string order r =
     status_line r @ crlf @
     concat (map (\<lambda>(name, value). name @ '': '' @ value @ crlf) (order (rs_headers r))) @
     crlf @ rs_body r"

definition to_bytes ::
    "((string \<times> string) list \<Rightarrow> (string \<times> string) list) \<Rightarrow> http_response \<Rightarrow> string" where
  "to_bytes order r = response_to_string order r"

section \<open>MIME types\<close>

definition mime_types :: "(string \<times> string) list" where
  "mime_types = [
     (''.html'', ''text/html; charset=utf-8''),
     (''.htm'', ''text/html; charset=utf-8''),
     (''.css'', ''text/css''),
     (''.js'', ''application/javascript''),
     (''.json'', ''application/json''),
     (''.xml'', ''application/xml''),
     (''.txt'', ''text/plain; charset=utf-8''),
     (''.jpg'', ''image/jpeg''),
     (''.jpeg'', ''image/jpeg''),
     (''.png'', ''image/png''),
     (''.gif'', ''image/gif''),
     (''.svg'', ''image/svg+xml''),
     (''.ico'', ''image/x-icon''),
     (''.pdf'', ''application/pdf''),
     (''.zip'', ''application/zip''),
     (''.tar'', ''application/x-tar''),
     (''.gz'', ''application/gzip''),
     (''.mp3'', ''audio/mpeg''),
     (''.mp4'', ''video/mp4''),
     (''.avi'', ''video/x-msvideo''),
     (''.mov'', ''video/quicktime''),
     (''.wav'', ''audio/wav''),
     (''.woff'', ''font/woff''),
     (''.woff2'', ''font/woff2''),
     (''.ttf'', ''font/ttf''),
     (''.otf'', ''font/otf'')]"

definition get_mime_type :: "string \<Rightarrow> string" where
  "get_mime_type file_extension =
     (case map_of mime_types (lower file_extension) of
        Some t \<Rightarrow> t | None \<Rightarrow> ''application/octet-stream'')"

section \<open>Standard responses\<close>

definition path_filename :: "string \<Rightarrow> string" where
  \<comment> \<open>\<open>std::filesystem::path(p).filename()\<close>\<close>
  "path_filename p = rev (takeWhile (\<lambda>c. c \<noteq> CHR ''/'') (rev p))"

definition path_extension :: "string \<Rightarrow> string" where
  \<comment> \<open>\<open>std::filesystem::path(p).extension()\<close>: from the last dot of the file name, unless that
      dot is its first character or the name is \<open>..\<close>\<close>
  "path_extension p =
     (let f = path_filename p
      in if f = ''.'' \<or> f = ''..'' then []
         else case find_last_char (CHR ''.'') f of
                None \<Rightarrow> [] | Some 0 \<Rightarrow> [] | Some (Suc i) \<Rightarrow> drop (Suc i) f)"

definition newline :: string where
  "newline = [CHR 0x0A]"

definition error_body :: "http_status \<Rightarrow> string \<Rightarrow> string" where
  "error_body st message =
     (let status_text = get_status_text st;
          error_message = (if message = [] then status_text else message);
          code = dec_digits (status_code st)
      in ''<!DOCTYPE html>'' @ newline @
         ''<html><head><title>'' @ code @ '' '' @ status_text @ ''</title></head>'' @ newline @
         ''<body>'' @ newline @
         ''<h1>'' @ code @ '' '' @ status_text @ ''</h1>'' @ newline @
         ''<p>'' @ error_message @ ''</p>'' @ newline @
         ''<hr>'' @ newline @
         ''<p><em>MultithreadedWebServer/1.0</em></p>'' @ newline @
         ''</body></html>'' @ newline)"

definition create_error_response :: "nat \<Rightarrow> http_status \<Rightarrow> string \<Rightarrow> http_response" where
  "create_error_response now st message =
     set_content_type ''text/html; charset=utf-8'' (set_body (error_body st message) (new_response now st))"

definition create_file_response :: "nat \<Rightarrow> string \<Rightarrow> string \<Rightarrow> http_response" where
  "create_file_response now file_path file_content =
     (let mime_type = get_mime_type (path_extension file_path)
      in set_content_type mime_type (set_body file_content (new_response now OK)))"

section \<open>MIME types, whatever the case of the extension\<close>

lemma mime_types_distinct: "distinct (map fst mime_types)"
  by (simp add: mime_types_def)

text \<open>Every extension of the table is recognised in any mix of cases; anything else is served
  as \<open>application/octet-stream\<close>.\<close>

theorem get_mime_type_spec:
  "(\<forall>(ext, t) \<in> set mime_types. \<forall>s. lower s = ext \<longrightarrow> get_mime_type s = t) \<and>
   (\<forall>s. lower s \<notin> fst ` set mime_types \<longrightarrow> get_mime_type s = ''application/octet-stream'')"
proof -
  have "get_mime_type s = t" if "(lower s, t) \<in> set mime_types" for s t
    using map_of_is_SomeI [OF mime_types_distinct that] by (simp add: get_mime_type_def)
  moreover have "get_mime_type s = ''application/octet-stream''"
    if "lower s \<notin> fst ` set mime_types" for s
    using that by (simp add: get_mime_type_def flip: map_of_eq_None_iff)
  ultimately show ?thesis by blast
qed

theorem get_mime_type_spec_witness:
  "get_mime_type ''.HTML'' = ''text/html; charset=utf-8'' \<and>
   get_mime_type ''.exe'' = ''application/octet-stream''"
proof -
  have "(''.html'', ''text/html; charset=utf-8'') \<in> set mime_types" "lower ''.HTML'' = ''.html''"
    "lower ''.exe'' \<notin> fst ` set mime_types"
    by (simp_all add: mime_types_def lower_def to_lower_def char_eval)
  with get_mime_type_spec show ?thesis by blast
qed

section \<open>Responses the server builds\<close>

definition known_headers :: "string set" where
  "known_headers = {''Date'', ''Server'', ''Connection'', ''Keep-Alive'', ''Content-Length'',
     ''Content-Type'', ''X-Cache''}"

definition framed :: "http_response \<Rightarrow> bool" where
  \<comment> \<open>the Content-Length header is the length of the body\<close>
  "framed r \<longleftrightarrow> map_of (rs_headers r) ''Content-Length'' = Some (dec_digits (length (rs_body r)))"

definition header_wf :: "http_response \<Rightarrow> bool" where
  "header_wf r \<longleftrightarrow> distinct (map fst (rs_headers r)) \<and> fst ` set (rs_headers r) \<subseteq> known_headers \<and>
     list_all good_header (rs_headers r) \<and> rs_version r = ''HTTP/1.1''"

definition good_value :: "string \<Rightarrow> bool" where
  "good_value v \<longleftrightarrow> good_header ([], v)"

lemma good_header_known:
  "n \<in> known_headers \<Longrightarrow> good_header (n, v) \<longleftrightarrow> good_value v"
  by (auto simp: known_headers_def good_header_def good_value_def is_blank_def)

lemma set_header_wf [inv_intros]:
  "header_wf r \<Longrightarrow> n \<in> known_headers \<Longrightarrow> good_value v \<Longrightarrow> header_wf (set_header n v r)"
proof -
  assume "header_wf r" "n \<in> known_headers" "good_value v"
  then have "good_header (n, v)" by (simp add: good_header_known)
  moreover have "set (AList.update n v hs) \<subseteq> insert (n, v) (set hs)" for hs :: "(string \<times> string) list"
    by (induction hs) auto
  ultimately show ?thesis
    using \<open>header_wf r\<close> \<open>n \<in> known_headers\<close>
    by (auto simp: header_wf_def set_header_def distinct_update keys_update list_all_iff)
qed

lemma good_value_digits: "good_value (dec_digits n)"
  using dec_digits_props [of n] digit_not_special
  by (auto simp: good_value_def good_header_def intro: hd_in_set last_in_set)

lemma good_value_literals:
  "good_value ''close''" "good_value ''keep-alive''" "good_value ''timeout=30, max=100''"
  "good_value ''MultithreadedWebServer/1.0''" "good_value ''text/html; charset=utf-8''"
  "good_value ''application/json''" "good_value ''HIT''" "good_value ''MISS''" "good_value ''NONE''"
  by (simp_all add: good_value_def good_header_def is_blank_def)

lemma good_value_mime: "good_value (get_mime_type ext)"
proof -
  have "\<forall>t \<in> snd ` set mime_types. good_value t" "good_value ''application/octet-stream''"
    by (simp_all add: mime_types_def good_value_def good_header_def is_blank_def)
  then show ?thesis
    by (auto simp: get_mime_type_def split: option.splits dest!: map_of_SomeD)
qed

lemma known_names:
  "''Date'' \<in> known_headers" "''Server'' \<in> known_headers" "''Connection'' \<in> known_headers"
  "''Keep-Alive'' \<in> known_headers" "''Content-Length'' \<in> known_headers"
  "''Content-Type'' \<in> known_headers" "''X-Cache'' \<in> known_headers"
  by (simp_all add: known_headers_def)

lemma split_month_bound:
  "d < sum_list ls \<Longrightarrow> split_month ls d = (m, e) \<Longrightarrow> m < length ls \<and> e < ls ! m"
proof (induction ls arbitrary: d m)
  case (Cons l ls)
  show ?case
  proof (cases "d < l")
    case False
    obtain m1 e1 where "split_month ls (d - l) = (m1, e1)" by fastforce
    with Cons.IH [of "d - l" m1] Cons.prems False show ?thesis by auto
  qed (use Cons.prems in auto)
qed simp

lemma split_year_bound: "split_year y d = (y1, d1) \<Longrightarrow> d1 < year_length y1"
  by (induction y d rule: split_year.induct) (subst (asm) (2) split_year.simps, simp split: if_splits)

lemma month_lengths_sum: "sum_list (month_lengths y) = year_length y"
  by (simp add: month_lengths_def year_length_def)

lemma nice_names:
  "n < 7 \<Longrightarrow> day_names ! n \<noteq> [] \<and> CHR 0x0A \<notin> set (day_names ! n) \<and> CHR 0x0D \<notin> set (day_names ! n) \<and>
     \<not> is_blank (hd (day_names ! n))"
  "m < 12 \<Longrightarrow> CHR 0x0A \<notin> set (month_names ! m) \<and> CHR 0x0D \<notin> set (month_names ! m)"
  by (auto simp: day_names_def month_names_def is_blank_def less_Suc_eq numeral_eq_Suc)

lemma digit_char: "(k :: nat) < 10 \<Longrightarrow> is_digit (char_of (48 + k))"
  by (simp add: is_digit_def)

lemma two_digits_are_digits: "\<forall>c \<in> set (two_digits n). is_digit c"
  by (simp add: two_digits_def digit_char)

lemma good_value_date: "good_value (format_date now)"
proof -
  obtain y d where y: "split_year 1970 (now div 86400) = (y, d)" by fastforce
  obtain m e where m: "split_month (month_lengths y) d = (m, e)" by fastforce
  have "m < 12"
    using split_month_bound [OF _ m] split_year_bound [OF y] month_lengths_sum [of y]
    by (simp add: month_lengths_def)
  note names = nice_names(1) [of "(now div 86400 + 4) mod 7"] nice_names(2) [OF this]
  have nl: "\<And>c. is_digit c \<Longrightarrow> c \<noteq> CHR 0x0A \<and> c \<noteq> CHR 0x0D" using digit_not_special by blast
  have "CHR 0x0A \<notin> set (format_date now)" "CHR 0x0D \<notin> set (format_date now)"
    using names nl two_digits_are_digits dec_digits_props
    by (fastforce simp: format_date_def Let_def y m)+
  moreover have "format_date now \<noteq> []" "\<not> is_blank (hd (format_date now))"
    "\<not> is_blank (last (format_date now))"
    using names by (simp_all add: format_date_def Let_def y m is_blank_def)
  ultimately show ?thesis
    by (simp add: good_value_def good_header_def)
qed

lemmas response_wf_facts = good_value_digits good_value_date good_value_literals good_value_mime known_names

lemma new_response_wf [inv_intros]: "header_wf (new_response now st)"
  unfolding new_response_def set_default_headers_def
  by (intro inv_intros response_wf_facts) (simp_all add: header_wf_def)

lemma set_body_wf [inv_intros]: "header_wf r \<Longrightarrow> header_wf (set_body b r)"
  unfolding set_body_def Let_def set_content_length_def
  by (intro inv_intros response_wf_facts) (simp add: header_wf_def)

lemma append_body_wf [inv_intros]: "header_wf r \<Longrightarrow> header_wf (append_body b r)"
  unfolding append_body_def Let_def set_content_length_def
  by (intro inv_intros response_wf_facts) (simp add: header_wf_def)

lemma set_content_type_wf [inv_intros]:
  "header_wf r \<Longrightarrow> good_value t \<Longrightarrow> header_wf (set_content_type t r)"
  unfolding set_content_type_def by (intro inv_intros response_wf_facts)

lemma set_keep_alive_wf [inv_intros]: "header_wf r \<Longrightarrow> header_wf (set_keep_alive k r)"
  unfolding set_keep_alive_def by (auto intro!: inv_intros response_wf_facts)

lemma set_header_framed [inv_intros]:
  "framed r \<Longrightarrow> n \<noteq> ''Content-Length'' \<Longrightarrow> framed (set_header n v r)"
  by (simp add: framed_def set_header_def AList.update_conv')

lemma set_body_framed [inv_intros]: "framed (set_body b r)"
  by (simp add: framed_def set_body_def set_content_length_def set_header_def AList.update_conv' Let_def)

lemma append_body_framed [inv_intros]: "framed (append_body b r)"
  by (simp add: framed_def append_body_def set_content_length_def set_header_def AList.update_conv' Let_def)

lemma set_content_type_framed [inv_intros]: "framed r \<Longrightarrow> framed (set_content_type t r)"
  unfolding set_content_type_def by (intro inv_intros) simp_all

lemma set_keep_alive_framed [inv_intros]: "framed r \<Longrightarrow> framed (set_keep_alive k r)"
  unfolding set_keep_alive_def by (auto intro!: inv_intros)

lemma create_error_response_ok [inv_intros]:
  "framed (create_error_response now st msg)"
  "header_wf (create_error_response now st msg)"
  unfolding create_error_response_def by (intro inv_intros response_wf_facts; simp)+

lemma create_file_response_ok [inv_intros]:
  "framed (create_file_response now p content)"
  "header_wf (create_file_response now p content)"
  unfolding create_file_response_def Let_def by (intro inv_intros response_wf_facts; simp)+

lemma rs_body_simps [simp]:
  "rs_body (set_header n v r) = rs_body r" "rs_body (set_body b r) = b"
  "rs_body (set_content_type t r) = rs_body r" "rs_body (set_keep_alive k r) = rs_body r"
  "rs_body (create_file_response now p content) = content"
  "rs_body (create_error_response now st msg) = error_body st msg"
  by (simp_all add: set_header_def set_body_def set_content_length_def set_content_type_def
      set_keep_alive_def create_file_response_def create_error_response_def Let_def)

lemma rs_status_simps [simp]:
  "rs_status (set_header n v r) = rs_status r" "rs_status (set_body b r) = rs_status r"
  "rs_status (set_content_type t r) = rs_status r" "rs_status (set_keep_alive k r) = rs_status r"
  "rs_status (new_response now st) = st"
  "rs_status (create_file_response now p content) = OK"
  "rs_status (create_error_response now st msg) = st"
  by (simp_all add: set_header_def set_body_def set_content_length_def set_content_type_def
      set_keep_alive_def create_file_response_def create_error_response_def Let_def
      new_response_def set_default_headers_def)


section \<open>The client's end\<close>

definition client_line :: "string \<Rightarrow> (string \<times> string) option" where
  "client_line s =
     (case find_char (CHR 0x0A) s of
        None \<Rightarrow> None
      | Some i \<Rightarrow> Some (strip_cr (take i s), drop (Suc i) s))"

definition client_field :: "string \<Rightarrow> (string \<times> string) option" where
  "client_field l =
     (case find_char (CHR '':'') l of
        None \<Rightarrow> None
      | Some i \<Rightarrow> Some (take i l, ltrim (drop (Suc i) l)))"

lemma client_line_shorter: "client_line s = Some (l, r) \<Longrightarrow> length r < length s"
  by (auto simp: client_line_def split: option.splits dest!: find_char_Some)

function client_headers :: "string \<Rightarrow> ((string \<times> string) list \<times> string) option" where
  "client_headers s =
     (case client_line s of
        None \<Rightarrow> None
      | Some (l, r) \<Rightarrow>
          if l = [] then Some ([], r)
          else case client_field l of
            None \<Rightarrow> None
          | Some h \<Rightarrow>
              (case client_headers r of
                 None \<Rightarrow> None
               | Some (hs, r2) \<Rightarrow> Some (h # hs, r2)))"
  by pat_completeness auto
termination
  by (relation "measure length") (auto simp: client_line_shorter)

declare client_headers.simps [simp del]

definition client_read ::
    "string \<Rightarrow> (string \<times> (string \<times> string) list \<times> string \<times> string) option" where
  \<comment> \<open>status line, headers, body, what is left in the stream\<close>
  "client_read s =
     (case client_line s of
        None \<Rightarrow> None
      | Some (st, r) \<Rightarrow>
          (case client_headers r of
             None \<Rightarrow> None
           | Some (hs, r2) \<Rightarrow>
               (case map_of hs ''Content-Length'' of
                  None \<Rightarrow> None
                | Some v \<Rightarrow>
                    (case stoull v of
                       Inl _ \<Rightarrow> None
                     | Inr n \<Rightarrow>
                         if unat n \<le> length r2
                         then Some (st, hs, take (unat n) r2, drop (unat n) r2) else None))))"

lemma client_line_crlf:
  "CHR 0x0A \<notin> set l \<Longrightarrow> client_line (l @ crlf @ r) = Some (l, r)"
  using find_char_app [of "CHR 0x0A" "l @ [CHR 0x0D]" r]
  by (simp add: client_line_def crlf_def)

lemma client_field_good: "good_header (n, v) \<Longrightarrow> client_field (n @ '': '' @ v) = Some (n, v)"
  using find_char_app [of "CHR '':''" n "CHR '' '' # v"] ltrim_id [of v]
  by (auto simp: client_field_def good_header_def)

lemma client_headers_good:
  "list_all good_header hs \<Longrightarrow>
   client_headers (concat (map (\<lambda>(name, value). name @ '': '' @ value @ crlf) hs) @ crlf @ r)
     = Some (hs, r)"
proof (induction hs)
  case Nil
  show ?case using client_line_crlf [of "[]" r] by (subst client_headers.simps) simp
next
  case (Cons h hs)
  obtain n v where h: "h = (n, v)" by (cases h)
  have "CHR 0x0A \<notin> set (n @ '': '' @ v)" "good_header (n, v)"
    using Cons.prems by (auto simp: h good_header_def)
  note facts = client_line_crlf [OF this(1)] client_field_good [OF this(2)]
  show ?case
    using Cons facts by (subst client_headers.simps) (simp add: h)
qed

lemma status_line_no_newline: "rs_version r = ''HTTP/1.1'' \<Longrightarrow> CHR 0x0A \<notin> set (status_line r)"
  using dec_digits_props [of "status_code (rs_status r)"] digit_not_special
  by (cases "rs_status r") (fastforce simp: status_line_def)+

lemma map_of_mset:
  assumes "distinct (map fst xs)" and "mset ys = mset xs"
  shows "map_of ys = map_of xs" "distinct (map fst ys)" "set ys = set xs"
proof -
  have "mset (map fst ys) = mset (map fst xs)" using assms(2) by (simp only: mset_map)
  then show d: "distinct (map fst ys)" using assms(1) mset_eq_imp_distinct_iff by blast
  show s: "set ys = set xs" using assms(2) by (rule mset_eq_setD)
  show "map_of ys = map_of xs"
    using d assms(1) s map_of_inject_set by metis
qed

lemma response_readable:
  assumes "header_wf r" and "framed r" and "length (rs_body r) < 2 ^ 64"
    and "\<And>xs. mset (order xs) = mset xs"
  shows "\<exists>hs. client_read (to_bytes order r @ rest) = Some (status_line r, hs, rs_body r, rest) \<and>
    map_of hs = map_of (rs_headers r)"
proof -
  let ?hs = "order (rs_headers r)"
  have d: "distinct (map fst (rs_headers r))" using assms(1) by (simp add: header_wf_def)
  note m = map_of_mset [OF d assms(4) [of "rs_headers r"]]
  have good: "list_all good_header ?hs"
    using assms(1) m(3) by (simp add: header_wf_def list_all_iff)
  have "CHR 0x0A \<notin> set (status_line r)"
    using assms(1) by (simp add: header_wf_def status_line_no_newline)
  note reads = client_line_crlf [OF this] client_headers_good [OF good]
  have len: "map_of ?hs ''Content-Length'' = Some (dec_digits (length (rs_body r)))"
    using assms(2) m(1) by (simp add: framed_def)
  have "unat (word_of_nat (length (rs_body r)) :: u64) = length (rs_body r)"
    using assms(3) by (simp add: unat_of_nat take_bit_nat_eq_self)
  then show ?thesis
    using reads len stoull_dec_digits [OF assms(3)] m(1)
    by (simp add: client_read_def to_bytes_def response_to_string_def)
qed

text \<open>C34: A client reads back every response the server builds: the status line, every header with
  its value and exactly the body, whatever order the header table is walked in and whatever
  follows on the connection.\<close>

theorem response_read_back:
  assumes "header_wf r" and "framed r" and "length (rs_body r) < 2 ^ 64"
    and "\<And>xs. mset (order xs) = mset xs"
  shows "\<exists>hs. client_read (to_bytes order r @ rest) = Some (status_line r, hs, rs_body r, rest) \<and>
    map_of hs = map_of (rs_headers r)"
  using assms by (rule response_readable)

theorem response_read_back_witness:
  "\<exists>hs. client_read (to_bytes rev (create_file_response 0 ''/a.html'' ''hello'') @ ''HTTP/1.1 '') =
     Some (''HTTP/1.1 200 OK'', hs, ''hello'', ''HTTP/1.1 '') \<and>
     map_of hs ''Content-Length'' = Some ''5''"
proof -
  let ?r = "create_file_response 0 ''/a.html'' ''hello''"
  have "framed ?r" "header_wf ?r" by (intro inv_intros)+
  then have "map_of (rs_headers ?r) ''Content-Length'' = Some ''5''"
    by (simp add: framed_def dec_digits.simps char_eval)
  moreover have "status_line ?r = ''HTTP/1.1 200 OK''"
    by (simp add: status_line_def create_file_response_def new_response_def set_default_headers_def
        set_body_def set_content_length_def set_content_type_def set_header_def Let_def
        dec_digits.simps char_eval)
  ultimately show ?thesis
    using response_read_back [of ?r rev "''HTTP/1.1 ''"] \<open>framed ?r\<close> \<open>header_wf ?r\<close> by force
qed

text \<open>Error pages and file responses carry the content type of their body, close the connection
  unless told otherwise, and are well-formed and framed.\<close>

theorem standard_responses:
  "let e = create_error_response now st msg; f = create_file_response now path content
   in header_wf e \<and> framed e \<and> rs_status e = st \<and> rs_body e = error_body st msg \<and>
      map_of (rs_headers e) ''Content-Type'' = Some ''text/html; charset=utf-8'' \<and>
      map_of (rs_headers e) ''Connection'' = Some ''close'' \<and>
      header_wf f \<and> framed f \<and> rs_status f = OK \<and> rs_body f = content \<and>
      map_of (rs_headers f) ''Content-Type'' = Some (get_mime_type (path_extension path)) \<and>
      map_of (rs_headers f) ''Connection'' = Some ''close''"
proof -
  have "map_of (rs_headers (set_content_type t (set_body b (new_response now st)))) k =
      (if k = ''Content-Type'' then Some t
       else if k = ''Connection'' then Some ''close''
       else map_of (rs_headers (set_body b (new_response now st))) k)" for t b st k
    by (simp add: set_content_type_def set_body_def new_response_def set_default_headers_def
        set_content_length_def set_header_def AList.update_conv' Let_def)
  then have "map_of (rs_headers (create_error_response now st msg)) ''Content-Type'' =
      Some ''text/html; charset=utf-8''"
    "map_of (rs_headers (create_error_response now st msg)) ''Connection'' = Some ''close''"
    "map_of (rs_headers (create_file_response now path content)) ''Content-Type'' =
      Some (get_mime_type (path_extension path))"
    "map_of (rs_headers (create_file_response now path content)) ''Connection'' = Some ''close''"
    by (simp_all add: create_error_response_def create_file_response_def)
  then show ?thesis
    by (simp add: Let_def create_error_response_ok create_file_response_ok)
qed

end
