(* ===== verification/Http_Framing.thy ===== *)
theory Http_Framing
  imports Http_Request
begin

text \<open>
  Deciding from the receive buffer when a request has arrived: the two functions at the end
  of \<open>src/server.cpp\<close>, \<open>Server::is_http_request_complete\<close> and
  \<open>Server::is_likely_http_request\<close>.  The expected size is a \<open>size_t\<close>, a \<open>64 word\<close> here, so
  that adding a \<open>Content-Length\<close> can wrap.
\<close>

section \<open>The two tests\<close>

definition header_terminator :: string where
  "header_terminator = crlf @ crlf"

fun scan_content_length :: "string list \<Rightarrow> u64 option" where
  \<comment> \<open>the loop over the header lines: the first \<open>Content-Length\<close> ends it, read or not
      (\<open>None\<close>: \<open>has_content_length\<close> stays false)\<close>
  "scan_content_length [] = None"
| "scan_content_length (line # lines) =
     (if line = [] then None
      else case header_field (strip_cr line) of
        None \<Rightarrow> scan_content_length lines
      | Some (name, value) \<Rightarrow>
          if name = ''content-length''
          then (case stoull value of Inr content_length \<Rightarrow> Some content_length | Inl _ \<Rightarrow> None)
          else scan_content_length lines)"

definition expected_size :: "nat \<Rightarrow> string \<Rightarrow> u64" where
  "expected_size header_end headers =
     word_of_nat header_end + 4 +
     (case scan_content_length (drop 1 (getlines (CHR 0x0A) headers)) of
        None \<Rightarrow> 0 | Some content_length \<Rightarrow> content_length)"

definition is_http_request_complete :: "string \<Rightarrow> bool" where
  "is_http_request_complete buffer =
     (case find_sub header_terminator buffer of
        None \<Rightarrow> False
      | Some header_end \<Rightarrow>
          expected_size header_end (take header_end buffer) \<le> word_of_nat (length buffer))"

definition known_methods :: "string list" where
  "known_methods = [''GET'', ''POST'', ''PUT'', ''DELETE'', ''HEAD'', ''OPTIONS'']"

definition is_likely_http_request :: "string \<Rightarrow> bool" where
  "is_likely_http_request buffer =
     (if buffer = [] then False
      else case find_char (CHR 0x0A) buffer of
        None \<Rightarrow>
          if length buffer < 16 then False
          else list_ex (\<lambda>m. starts_with m (strip_cr buffer) \<and> length m < length (strip_cr buffer) \<and>
                            strip_cr buffer ! length m = CHR '' '') known_methods
      | Some first_line_end \<Rightarrow>
          let first_line = strip_cr (take first_line_end buffer)
          in list_ex (\<lambda>m. starts_with m first_line \<and> length m < length first_line \<and>
                          first_line ! length m = CHR '' '') known_methods)"

section \<open>Where the headers end\<close>

lemma find_sub_Some:
  "find_sub pat s = Some i \<Longrightarrow> take (length pat) (drop i s) = pat \<and> i + length pat \<le> length s"
proof (induction pat s arbitrary: i rule: find_sub.induct)
  case (2 pat x xs)
  show ?case
  proof (cases "take (length pat) (x # xs) = pat")
    case True
    then have "length pat \<le> length (x # xs)" by (metis length_take min_def nat_le_linear)
    with True 2 show ?thesis by auto
  qed (use 2 in auto)
qed (auto split: if_splits)

lemma find_sub_append: "find_sub pat s = Some i \<Longrightarrow> find_sub pat (s @ t) = Some i"
proof (induction pat s arbitrary: i rule: find_sub.induct)
  case (1 pat)
  then show ?case by (cases t) (auto split: if_splits)
next
  case (2 pat x xs)
  show ?case
  proof (cases "take (length pat) (x # xs) = pat")
    case True
    then have "length pat \<le> length (x # xs)" by (metis length_take min_def nat_le_linear)
    then have "take (length pat) (x # xs @ t) = take (length pat) (x # xs)"
      by (metis append_Cons take_append append_take_drop_id diff_is_0_eq take0 append_Nil2)
    with True 2 show ?thesis by simp
  next
    case False
    with 2(2) obtain j where j: "find_sub pat xs = Some j" "i = Suc j" by auto
    have "find_sub pat (xs @ t) = Some j" using 2(1) [OF False] j by simp
    moreover have "take (length pat) (x # xs @ t) \<noteq> pat"
    proof
      assume eq: "take (length pat) (x # xs @ t) = pat"
      have "j + length pat \<le> length xs" using find_sub_Some [OF j(1)] by simp
      then have "take (length pat) (x # xs @ t) = take (length pat) (x # xs)"
        by (cases "length pat") simp_all
      with eq False show False by simp
    qed
    ultimately show ?thesis using j by simp
  qed
qed

lemma find_sub_take:
  assumes "find_sub pat s = Some i" and "pat \<noteq> []"
  shows "find_sub pat (take n s) = (if i + length pat \<le> n then Some i else None)"
proof (cases "find_sub pat (take n s)")
  case None
  have "\<not> i + length pat \<le> n"
  proof
    assume le: "i + length pat \<le> n"
    have "find_sub pat s = Some i \<Longrightarrow> i + length pat \<le> n \<Longrightarrow> find_sub pat (take n s) \<noteq> None" for i n
    proof (induction pat s arbitrary: i n rule: find_sub.induct)
      case (2 pat x xs)
      show ?case
      proof (cases "take (length pat) (x # xs) = pat")
        case True
        then have "take (length pat) (take n (x # xs)) = pat"
          using 2(3) by (simp add: min_def take_take)
        then show ?thesis using 2(3) by (cases "take n (x # xs)") auto
      next
        case False
        with 2(2) obtain j where j: "find_sub pat xs = Some j" "i = Suc j" by auto
        obtain m where m: "n = Suc m" using 2(3) j by (cases n) auto
        have "find_sub pat (take m xs) \<noteq> None" using 2(1) [OF False j(1), of m] 2(3) j m by simp
        then show ?thesis by (simp add: m)
      qed
    qed (auto split: if_splits)
    with assms(1) le None show False by blast
  qed
  with None show ?thesis by simp
next
  case (Some j)
  from find_sub_append [OF this, of "drop n s"] assms(1) have "j = i" by simp
  with Some find_sub_Some [OF Some] show ?thesis by simp
qed


lemma find_terminator_here:
  "CHR 0x0A \<notin> set l \<Longrightarrow> find_sub header_terminator (l @ header_terminator @ r) = Some (length l)"
proof (induction l)
  case (Cons c l)
  have "take 4 (c # l @ header_terminator @ r) \<noteq> header_terminator"
  proof (cases l)
    case (Cons d l') then show ?thesis using Cons.prems by (auto simp: header_terminator_def crlf_def)
  qed (simp add: header_terminator_def crlf_def)
  moreover have "length header_terminator = 4" by (simp add: header_terminator_def crlf_def)
  ultimately show ?case using Cons by simp
qed (simp add: header_terminator_def crlf_def)

lemma find_terminator_line:
  assumes "CHR 0x0A \<notin> set l" and "take 2 s \<noteq> crlf" and "find_sub header_terminator s = Some i"
  shows "find_sub header_terminator (l @ crlf @ s) = Some (length l + 2 + i)"
  using assms(1)
proof (induction l)
  case Nil
  have "take 4 (crlf @ s) \<noteq> header_terminator" "take 4 (CHR 0x0A # s) \<noteq> header_terminator"
    using assms(2) by (simp_all add: crlf_def header_terminator_def)
  with assms(3) show ?case by (simp add: crlf_def header_terminator_def numeral_eq_Suc)
next
  case (Cons c l)
  have "take 4 (c # l @ crlf @ s) \<noteq> header_terminator"
    using Cons.prems assms(2)
    by (cases l; cases "tl l") (auto simp: header_terminator_def crlf_def)
  moreover have "length header_terminator = 4" by (simp add: header_terminator_def crlf_def)
  ultimately show ?case using Cons by simp
qed

definition request_head :: "http_method \<Rightarrow> string \<Rightarrow> string \<Rightarrow> (string \<times> string) list \<Rightarrow> string" where
  \<comment> \<open>a request up to the line break that ends its last header line\<close>
  "request_head m target version headers =
     concat (map (\<lambda>l. l @ crlf)
       (butlast ((method_to_string m @ '' '' @ target @ '' '' @ version) # map (\<lambda>(n, v). n @ '': '' @ v) headers)))
     @ last ((method_to_string m @ '' '' @ target @ '' '' @ version) # map (\<lambda>(n, v). n @ '': '' @ v) headers)"

lemma concat_lines:
  "ls \<noteq> [] \<Longrightarrow> concat (map (\<lambda>l. l @ crlf) ls) = concat (map (\<lambda>l. l @ crlf) (butlast ls)) @ last ls @ crlf"
  by (induction ls) auto

lemma render_request_head:
  "render_request m target version headers body =
     request_head m target version headers @ header_terminator @ body"
proof -
  let ?l = "method_to_string m @ '' '' @ target @ '' '' @ version"
  let ?ls = "?l # map (\<lambda>(n, v). n @ '': '' @ v) headers"
  have "render_request m target version headers body = concat (map (\<lambda>l. l @ crlf) ?ls) @ crlf @ body"
    by (simp add: render_request_def render_header_def [abs_def] comp_def case_prod_beta)
  then show ?thesis
    using concat_lines [of ?ls] by (simp add: request_head_def header_terminator_def)
qed

lemma find_terminator_lines:
  assumes "ls \<noteq> []" and "\<forall>l \<in> set ls. CHR 0x0A \<notin> set l \<and> l \<noteq> []"
  shows "find_sub header_terminator (concat (map (\<lambda>l. l @ crlf) (butlast ls)) @ last ls @ header_terminator @ r)
    = Some (length (concat (map (\<lambda>l. l @ crlf) (butlast ls)) @ last ls))"
  using assms
proof (induction ls rule: list_nonempty_induct)
  case (single l)
  then show ?case by (simp add: find_terminator_here)
next
  case (cons l ls)
  let ?s = "concat (map (\<lambda>l. l @ crlf) (butlast ls)) @ last ls @ header_terminator @ r"
  obtain l1 rest where s: "?s = l1 @ crlf @ rest" "CHR 0x0A \<notin> set l1" "l1 \<noteq> []"
  proof (cases "butlast ls")
    case Nil
    then show ?thesis
      using that [of "last ls" "crlf @ r"] cons by (simp add: header_terminator_def)
  next
    case (Cons l2 ls2)
    then have "l2 \<in> set ls" by (metis in_set_butlastD list.set_intros(1))
    with Cons show ?thesis using that [of l2] cons(3) by simp
  qed
  have "take 2 ?s \<noteq> crlf"
    using s by (cases l1; cases "tl l1") (auto simp: crlf_def)
  from find_terminator_line [OF _ this, of l] cons show ?case by (simp add: crlf_def)
qed

lemma find_terminator_request:
  assumes "CHR 0x0A \<notin> set target" and "CHR 0x0A \<notin> set version" and "list_all good_header headers"
  shows "find_sub header_terminator (render_request m target version headers body @ rest)
    = Some (length (request_head m target version headers))"
proof -
  let ?l = "method_to_string m @ '' '' @ target @ '' '' @ version"
  let ?ls = "?l # map (\<lambda>(n, v). n @ '': '' @ v) headers"
  have "CHR 0x0A \<notin> set (method_to_string m)" by (cases m) simp_all
  then have "\<forall>l \<in> set ?ls. CHR 0x0A \<notin> set l \<and> l \<noteq> []"
    using assms by (auto simp: good_header_def list_all_iff)
  from find_terminator_lines [OF _ this, of "body @ rest"] show ?thesis
    by (simp add: render_request_head request_head_def)
qed


section \<open>What the headers declare\<close>

definition declared_length :: "(string \<times> string) list \<Rightarrow> u64" where
  \<comment> \<open>the first \<open>Content-Length\<close> field; 0 without one or when it is no number\<close>
  "declared_length headers =
     (case map_of (map (\<lambda>(n, v). (lower n, v)) headers) ''content-length'' of
        None \<Rightarrow> 0
      | Some v \<Rightarrow> (case stoull v of Inr n \<Rightarrow> n | Inl _ \<Rightarrow> 0))"

lemma getlines_crlf:
  assumes "ls \<noteq> []" and "\<forall>l \<in> set ls. CHR 0x0A \<notin> set l \<and> l \<noteq> []"
  shows "getlines (CHR 0x0A) (concat (map (\<lambda>l. l @ crlf) (butlast ls)) @ last ls)
    = map (\<lambda>l. l @ [CHR 0x0D]) (butlast ls) @ [last ls]"
  using assms
proof (induction ls rule: list_nonempty_induct)
  case (cons l ls)
  from getlines_line [of "CHR 0x0A" "l @ [CHR 0x0D]"] cons show ?case by (simp add: crlf_def)
qed (simp add: getlines_last)

lemma scan_content_length_headers:
  assumes "map strip_cr lines = map (\<lambda>(n, v). n @ '': '' @ v) headers" and "[] \<notin> set lines"
    and "list_all good_header headers"
  shows "(case scan_content_length lines of None \<Rightarrow> 0 | Some n \<Rightarrow> n) = declared_length headers"
  using assms
proof (induction lines arbitrary: headers)
  case (Cons line lines)
  then obtain n v hs where h: "headers = (n, v) # hs" "strip_cr line = n @ '': '' @ v" by (cases headers) auto
  with Cons have "header_field (strip_cr line) = Some (lower n, v)"
    using header_field_line by simp
  with Cons h show ?case
    by (auto simp: declared_length_def split: sum.splits)
qed (simp add: declared_length_def)

lemma expected_size_request:
  assumes "CHR 0x0A \<notin> set target" and "CHR 0x0A \<notin> set version" and "list_all good_header headers"
    and "\<forall>h \<in> set headers. CHR 0x0D \<notin> set (snd h)"
  shows "expected_size e (request_head m target version headers) =
    word_of_nat e + 4 + declared_length headers"
proof -
  let ?l = "method_to_string m @ '' '' @ target @ '' '' @ version"
  let ?hs = "map (\<lambda>(n, v). n @ '': '' @ v) headers"
  let ?lines = "drop 1 (getlines (CHR 0x0A) (request_head m target version headers))"
  have "CHR 0x0A \<notin> set (method_to_string m)" by (cases m) simp_all
  then have "\<forall>l \<in> set (?l # ?hs). CHR 0x0A \<notin> set l \<and> l \<noteq> []"
    using assms by (auto simp: good_header_def list_all_iff)
  from getlines_crlf [OF _ this]
  have lines: "?lines = (if headers = [] then [] else map (\<lambda>l. l @ [CHR 0x0D]) (butlast ?hs) @ [last ?hs])"
    by (cases headers) (simp_all add: request_head_def)
  have last: "strip_cr (last ?hs) = last ?hs" if "headers \<noteq> []"
  proof (rule strip_cr_id)
    have "last headers \<in> set headers" using that by simp
    with assms(4) show "last ?hs = [] \<or> last (last ?hs) \<noteq> CHR 0x0D"
      using that by (cases "last headers"; cases "snd (last headers) = []") (fastforce simp: last_map dest: last_in_set)+
  qed
  have stripped: "map strip_cr ?lines = ?hs"
  proof (cases "headers = []")
    case False
    then have "?hs \<noteq> []" by simp
    then have "?hs = butlast ?hs @ [last ?hs]" by (rule append_butlast_last_id [symmetric])
    with lines last [OF False] False show ?thesis
      by (simp add: comp_def del: append_butlast_last_id)
  next
    case True
    with lines show ?thesis by (simp only: if_True list.map simp_thms)
  qed
  have "[] \<notin> set ?lines"
    using lines by (auto simp: last_map split: prod.splits if_splits)
  from scan_content_length_headers [OF stripped this assms(3)] show ?thesis
    by (simp only: expected_size_def)
qed

section \<open>Framing of requests\<close>

lemma word_of_nat_le: "a < 2 ^ 64 \<Longrightarrow> b < 2 ^ 64 \<Longrightarrow> ((word_of_nat a :: u64) \<le> word_of_nat b) = (a \<le> b)"
  by (simp add: word_le_nat_alt unat_of_nat take_bit_nat_eq_self)

lemma complete_prefix:
  assumes "CHR 0x0A \<notin> set target" and "CHR 0x0A \<notin> set version" and "list_all good_header headers"
    and "\<forall>h \<in> set headers. CHR 0x0D \<notin> set (snd h)"
    and "declared_length headers = word_of_nat (length body)"
    and "length (render_request m target version headers body @ rest) < 2 ^ 64"
  shows "is_http_request_complete (take n (render_request m target version headers body @ rest))
    \<longleftrightarrow> length (render_request m target version headers body) \<le> n"
proof -
  let ?r = "render_request m target version headers body"
  let ?h = "request_head m target version headers"
  have r: "?r = ?h @ header_terminator @ body" and len: "length header_terminator = 4"
    "header_terminator \<noteq> []"
    by (simp_all add: render_request_head) (simp_all add: header_terminator_def crlf_def)
  note found = find_sub_take [OF find_terminator_request [OF assms(1-3), of m body rest] len(2), of n]
  have head: "take (length ?h) (take n (?r @ rest)) = ?h" if "length ?h + 4 \<le> n"
    using that by (simp add: r min_def)
  have size: "expected_size (length ?h) ?h = word_of_nat (length ?r)"
    by (simp only: expected_size_request [OF assms(1-4)] assms(5) r len length_append of_nat_add
        of_nat_numeral add.assoc)
  have "length ?r < 2 ^ 64" "length (take n (?r @ rest)) < 2 ^ 64"
    by (rule le_less_trans [OF _ assms(6)], simp only: length_append le_add1)
      (rule le_less_trans [OF _ assms(6)], simp only: length_take min.cobounded1)
  note word_of_nat_le [OF this]
  then have le: "expected_size (length ?h) ?h \<le> word_of_nat (length (take n (?r @ rest)))
      \<longleftrightarrow> length ?r \<le> length (take n (?r @ rest))"
    by (simp only: size)
  have rlen: "length ?r = length ?h + (4 + length body)" by (simp only: r length_append len)
  show ?thesis
  proof (cases "length ?h + 4 \<le> n")
    case True
    then have "is_http_request_complete (take n (?r @ rest)) \<longleftrightarrow> length ?r \<le> length (take n (?r @ rest))"
      by (simp only: is_http_request_complete_def found len head option.case le if_True)
    then show ?thesis by (simp only: length_take length_append min_le_iff_disj min.bounded_iff) simp
  next
    case False
    then show ?thesis
      using rlen by (simp only: is_http_request_complete_def found len option.case if_False) simp
  qed
qed

text \<open>C35: A request is complete exactly when its last byte has arrived: no prefix of it is taken for
  complete, and with its last byte it is, whatever follows on the connection.\<close>

theorem complete_exactly:
  assumes "CHR 0x0A \<notin> set target" and "CHR 0x0A \<notin> set version" and "list_all good_header headers"
    and "\<forall>h \<in> set headers. CHR 0x0D \<notin> set (snd h)"
    and "declared_length headers = word_of_nat (length body)"
    and "length (render_request m target version headers body @ rest) < 2 ^ 64"
  shows "is_http_request_complete (take n (render_request m target version headers body @ rest))
    \<longleftrightarrow> length (render_request m target version headers body) \<le> n"
  using assms by (rule complete_prefix)

theorem complete_exactly_witness:
  "is_http_request_complete
     (take 42 (render_request POST ''/a'' ''HTTP/1.1'' [(''Content-Length'', ''3'')] ''abc'' @ ''GET'')) \<and>
   \<not> is_http_request_complete
     (take 41 (render_request POST ''/a'' ''HTTP/1.1'' [(''Content-Length'', ''3'')] ''abc'' @ ''GET''))"
proof -
  have "declared_length [(''Content-Length'', ''3'')] = word_of_nat (length ''abc'')" by code_simp
  moreover have "list_all good_header [(''Content-Length'', ''3'')]"
    by (simp add: good_header_def is_blank_def)
  moreover have "length (render_request POST ''/a'' ''HTTP/1.1'' [(''Content-Length'', ''3'')] ''abc'') = 42"
    by (simp add: render_request_def render_header_def crlf_def)
  ultimately show ?thesis
    using complete_exactly [of "''/a''" "''HTTP/1.1''" "[(''Content-Length'', ''3'')]" "''abc''" POST "''GET''" 42]
      complete_exactly [of "''/a''" "''HTTP/1.1''" "[(''Content-Length'', ''3'')]" "''abc''" POST "''GET''" 41]
    by simp
qed

text \<open>What was complete stays complete when more data arrives.\<close>

theorem complete_monotone:
  assumes "is_http_request_complete buffer" and "length (buffer @ data) < 2 ^ 64"
  shows "is_http_request_complete (buffer @ data)"
proof -
  from assms(1) obtain e where e: "find_sub header_terminator buffer = Some e"
    "expected_size e (take e buffer) \<le> word_of_nat (length buffer)"
    by (auto simp: is_http_request_complete_def split: option.splits)
  have "e \<le> length buffer" using find_sub_Some [OF e(1)] by simp
  moreover have "(word_of_nat (length buffer) :: u64) \<le> word_of_nat (length (buffer @ data))"
    using assms(2) by (intro word_of_nat_le [THEN iffD2]) simp_all
  ultimately show ?thesis
    using e(2) find_sub_append [OF e(1), of data]
    by (simp add: is_http_request_complete_def)
qed

theorem complete_monotone_witness:
  "is_http_request_complete (''GET / HTTP/1.1'' @ header_terminator @ ''GET /'')"
proof -
  have "is_http_request_complete (''GET / HTTP/1.1'' @ header_terminator)" by code_simp
  from complete_monotone [OF this, of "''GET /''"] show ?thesis
    by (simp add: header_terminator_def crlf_def)
qed

text \<open>C36: The size of the body is added without an overflow check, so that a \<open>Content-Length\<close> within
  a header's length of 2^64 (or a negative one) declares the request complete with its header,
  long before that many bytes could have arrived.\<close>

theorem content_length_wraps:
  assumes "CHR 0x0A \<notin> set target" and "CHR 0x0A \<notin> set version" and "list_all good_header headers"
    and "\<forall>h \<in> set headers. CHR 0x0D \<notin> set (snd h)"
    and "declared_length headers = - word_of_nat k"
    and "0 < k" and "k \<le> length (render_request m target version headers [])"
    and "length (render_request m target version headers []) < 2 ^ 64"
  shows "is_http_request_complete (render_request m target version headers [])"
proof -
  let ?h = "request_head m target version headers"
  let ?r = "render_request m target version headers []"
  have r: "?r = ?h @ header_terminator" and len: "length header_terminator = 4"
    by (simp_all add: render_request_head) (simp_all add: header_terminator_def crlf_def)
  have "expected_size (length ?h) ?h = word_of_nat (length ?r) - word_of_nat k"
    using expected_size_request [OF assms(1-4), of "length ?h" m] assms(5) by (simp add: r len)
  also have "\<dots> = word_of_nat (length ?r - k)" using assms(7) by (simp add: of_nat_diff)
  also have "\<dots> \<le> word_of_nat (length ?r)"
    using assms(8) by (intro word_of_nat_le [THEN iffD2]) simp_all
  finally show ?thesis
    using find_terminator_request [OF assms(1-3), of m "[]" "[]"]
    by (simp add: is_http_request_complete_def r)
qed

theorem content_length_wraps_witness:
  "is_http_request_complete
     (render_request POST ''/a'' ''HTTP/1.1'' [(''Content-Length'', ''18446744073709551615'')] [])"
proof -
  have "declared_length [(''Content-Length'', ''18446744073709551615'')] = - word_of_nat 1" by code_simp
  moreover have "list_all good_header [(''Content-Length'', ''18446744073709551615'')]"
    by (simp add: good_header_def is_blank_def)
  ultimately show ?thesis
    using content_length_wraps [of "''/a''" "''HTTP/1.1''" "[(''Content-Length'', ''18446744073709551615'')]" 1 POST]
    by (simp add: render_request_def render_header_def crlf_def)
qed

text \<open>The test for data that does not look like HTTP never fires on a request whose first line has
  arrived: every rendered request passes it, and so does every prefix with that line.\<close>

theorem requests_are_likely:
  assumes "CHR 0x0A \<notin> set target" and "CHR 0x0A \<notin> set version"
    and "m \<noteq> UNKNOWN" and "prefix (method_to_string m @ '' '' @ target @ '' '' @ version @ crlf) buffer"
  shows "is_likely_http_request buffer"
proof -
  let ?l = "method_to_string m @ '' '' @ target @ '' '' @ version"
  from assms(4) obtain r where b: "buffer = (?l @ [CHR 0x0D]) @ CHR 0x0A # r"
    by (auto simp: prefix_def crlf_def)
  have "CHR 0x0A \<notin> set (method_to_string m)" by (cases m) simp_all
  with assms(1,2) have "find_char (CHR 0x0A) buffer = Some (length (?l @ [CHR 0x0D]))"
    by (simp only: b) (rule find_char_app, simp)
  moreover have "take (length (?l @ [CHR 0x0D])) buffer = ?l @ [CHR 0x0D]"
    by (simp only: b append_eq_conv_conj [THEN iffD1, OF refl, THEN conjunct1, symmetric])
  then have "strip_cr (take (length (?l @ [CHR 0x0D])) buffer) = ?l"
    by (simp only: strip_cr_snoc)
  moreover have "\<exists>k \<in> set known_methods. starts_with k ?l \<and> length k < length ?l \<and> ?l ! length k = CHR '' ''"
    using assms(3)
    by (intro bexI [of _ "method_to_string m"])
      (cases m; simp add: known_methods_def starts_with_def)+
  moreover have "buffer \<noteq> []" by (simp add: b)
  ultimately show ?thesis
    by (simp only: is_likely_http_request_def list_ex_iff Let_def option.case if_False)
qed

theorem requests_are_likely_witness:
  "is_likely_http_request (''GET / HTTP/1.1'' @ crlf @ ''Host:'')"
  using requests_are_likely [of "''/''" "''HTTP/1.1''" GET "''GET / HTTP/1.1'' @ crlf @ ''Host:''"]
  by (simp add: crlf_def)

end
