(* ===== verification/File_Handler.thy ===== *)
theory File_Handler
  imports Lru_Cache Http_Response "HOL-Library.Char_ord" "HOL-Library.List_Lexorder"
    "HOL-Library.Product_Lexorder"
begin

text \<open>
  Static files: \<open>include/file_handler.h\<close>, \<open>src/file_handler.cpp\<close> (class \<open>FileHandler\<close>).

  The operating system is an argument: a record \<open>filesystem\<close> with one field per call the code
  makes, each of which answers or throws.  It is fixed for the duration of a request.  What
  \<open>std::filesystem\<close> does lexically, on paths alone, is defined here.  An absolute path is the
  list of its components.

  \<open>handle_file_request\<close> returns an \<open>option\<close> because the cache's eviction loop does, and inside
  it either the exception that leaves the function or the response, with the new handler.
\<close>

section \<open>The file system\<close>

type_synonym 'a result = "std_error + 'a"

record dir_entry =
  de_name :: string
  de_is_directory :: bool
  de_size :: "u64 result"
  de_write_time :: "clock result"

record filesystem =
  fs_exists :: "string \<Rightarrow> bool result"
  fs_is_directory :: "string \<Rightarrow> bool result"
  fs_is_regular_file :: "string \<Rightarrow> bool result"
  fs_file_size :: "string \<Rightarrow> u64 result"
  fs_canonical :: "string \<Rightarrow> string list result"
  fs_weakly_canonical :: "string list \<Rightarrow> string list result"
  fs_absolute :: "string \<Rightarrow> string list result"
  fs_open :: "string \<Rightarrow> (int \<times> (nat \<Rightarrow> string option)) option"
    \<comment> \<open>opened at its end: the position \<open>tellg\<close> reports, and what \<open>read\<close> delivers\<close>
  fs_directory :: "string \<Rightarrow> dir_entry list result"
  fs_file_clock :: clock
  fs_system_clock :: clock
  fs_localtime :: "int \<Rightarrow> nat"
    \<comment> \<open>local time as seconds since 1 January 1970 0:00 local\<close>
  fs_create_directories :: "string \<Rightarrow> unit result"

record clocks =
  ck_date :: nat          \<comment> \<open>\<open>system_clock\<close>, for the Date header\<close>
  ck_expiry :: clock      \<comment> \<open>in \<open>LRUCache::is_expired\<close>\<close>
  ck_access :: clock      \<comment> \<open>in \<open>LRUCache::get\<close>\<close>
  ck_create :: clock      \<comment> \<open>in \<open>LRUCache::put\<close>\<close>

subsection \<open>Lexical operations of \<open>std::filesystem::path\<close>\<close>

definition parent_path :: "string \<Rightarrow> string" where
  "parent_path p =
     (let dir = rev (dropWhile (\<lambda>c. c \<noteq> CHR ''/'') (rev p));
          stem = rev (dropWhile (\<lambda>c. c = CHR ''/'') (rev dir))
      in if stem = [] \<and> dir \<noteq> [] then ''/'' else stem)"

fun lexically_normal :: "string list \<Rightarrow> string list \<Rightarrow> string list" where
  \<comment> \<open>of an absolute path; the first argument is the normal prefix, reversed\<close>
  "lexically_normal acc [] = rev acc"
| "lexically_normal acc (c # cs) =
     (if c = [] \<or> c = ''.'' then lexically_normal acc cs
      else if c = ''..'' then lexically_normal (tl acc) cs
      else lexically_normal (c # acc) cs)"

fun strip_common :: "string list \<Rightarrow> string list \<Rightarrow> string list \<times> string list" where
  \<comment> \<open>\<open>std::mismatch\<close>\<close>
  "strip_common (x # xs) (y # ys) = (if x = y then strip_common xs ys else (x # xs, y # ys))"
| "strip_common xs ys = (xs, ys)"

definition up_count :: "string list \<Rightarrow> int" where
  "up_count bs = sum_list (map (\<lambda>b. if b = ''..'' then - 1 else if b = [] \<or> b = ''.'' then 0 else 1) bs)"

definition lexically_relative :: "string list \<Rightarrow> string list \<Rightarrow> string list" where
  \<comment> \<open>of two absolute paths; \<open>[]\<close> is the empty path\<close>
  "lexically_relative p base =
     (let (a, b) = strip_common p base; n = up_count b
      in if a = [] \<and> b = [] then [''.'']
         else if n < 0 then []
         else if n = 0 \<and> (a = [] \<or> hd a = []) then [''.'']
         else replicate (nat n) ''..'' @ a)"

fun native :: "string list \<Rightarrow> string" where
  "native [] = []"
| "native [c] = c"
| "native (c # cs) = c @ ''/'' @ native cs"

definition fs_relative :: "filesystem \<Rightarrow> string list \<Rightarrow> string list \<Rightarrow> string list result" where
  \<comment> \<open>\<open>std::filesystem::relative(p, base)\<close>\<close>
  "fs_relative fs p base =
     (case fs_weakly_canonical fs p of
        Inl e \<Rightarrow> Inl e
      | Inr p1 \<Rightarrow>
          (case fs_weakly_canonical fs base of
             Inl e \<Rightarrow> Inl e
           | Inr base1 \<Rightarrow> Inr (lexically_relative p1 base1)))"

section \<open>State\<close>

record file_handler =
  fh_document_root :: string
  fh_default_file :: string
  fh_max_file_size :: u64
  fh_cache_enabled :: bool
  fh_cache :: "lru_cache option"

definition DEFAULT_MAX_FILE_SIZE :: u64 where
  "DEFAULT_MAX_FILE_SIZE = 50 * 1024 * 1024"

definition with_slash :: "string \<Rightarrow> string" where
  "with_slash root = (if root \<noteq> [] \<and> last root \<noteq> CHR ''/'' then root @ ''/'' else root)"

definition new_file_handler :: "string \<Rightarrow> string \<Rightarrow> bool \<Rightarrow> u64 \<Rightarrow> file_handler" where
  \<comment> \<open>\<open>create_directories\<close> can only fail with a message on \<open>std::cerr\<close>\<close>
  "new_file_handler document_root default_file enable_cache cache_size_mb =
     \<lparr>fh_document_root = with_slash document_root, fh_default_file = default_file,
      fh_max_file_size = DEFAULT_MAX_FILE_SIZE, fh_cache_enabled = enable_cache,
      fh_cache = (if enable_cache then Some (lru_new cache_size_mb 300) else None)\<rparr>"

definition set_document_root :: "string \<Rightarrow> file_handler \<Rightarrow> file_handler" where
  "set_document_root root fh = fh\<lparr>fh_document_root := root\<rparr>"

definition set_default_file :: "string \<Rightarrow> file_handler \<Rightarrow> file_handler" where
  "set_default_file default_file fh = fh\<lparr>fh_default_file := default_file\<rparr>"

definition set_max_file_size :: "u64 \<Rightarrow> file_handler \<Rightarrow> file_handler" where
  "set_max_file_size max_size fh = fh\<lparr>fh_max_file_size := max_size\<rparr>"

definition enable_cache :: "bool \<Rightarrow> file_handler \<Rightarrow> file_handler" where
  "enable_cache enabled fh = fh\<lparr>fh_cache_enabled := enabled\<rparr>"

definition clear_cache :: "file_handler \<Rightarrow> file_handler" where
  "clear_cache fh = fh\<lparr>fh_cache := map_option lru_clear (fh_cache fh)\<rparr>"

definition get_cache_stats :: "file_handler \<Rightarrow> u64 \<times> u64 \<times> u64 \<times> u64 \<Rightarrow> u64 \<times> u64 \<times> u64 \<times> u64" where
  \<comment> \<open>the reference arguments keep their values when there is no cache\<close>
  "get_cache_stats fh args = (case fh_cache fh of Some c \<Rightarrow> lru_get_stats c | None \<Rightarrow> args)"

section \<open>Paths\<close>

definition resolve_path :: "file_handler \<Rightarrow> string \<Rightarrow> string" where
  "resolve_path fh request_path =
     (let path = (if request_path \<noteq> [] \<and> hd request_path = CHR ''/'' then tl request_path else request_path);
          path = (if path = [] then fh_default_file fh else path)
      in fh_document_root fh @ path)"

definition path_to_compare :: "filesystem \<Rightarrow> string \<Rightarrow> string list result" where
  \<comment> \<open>\<open>canonical_path\<close> in \<open>is_safe_path\<close>\<close>
  "path_to_compare fs resolved_path =
     (case fs_exists fs resolved_path of
        Inl e \<Rightarrow> Inl e
      | Inr True \<Rightarrow> fs_canonical fs resolved_path
      | Inr False \<Rightarrow>
          (case fs_exists fs (parent_path resolved_path) of
             Inl e \<Rightarrow> Inl e
           | Inr True \<Rightarrow>
               (case fs_canonical fs (parent_path resolved_path) of
                  Inl e \<Rightarrow> Inl e
                | Inr canonical_parent \<Rightarrow> Inr (canonical_parent @ [path_filename resolved_path]))
           | Inr False \<Rightarrow>
               (case fs_absolute fs resolved_path of
                  Inl e \<Rightarrow> Inl e
                | Inr abs_path \<Rightarrow> Inr (lexically_normal [] abs_path))))"

definition relative_ok :: "string list \<Rightarrow> bool" where
  "relative_ok relative =
     (if native relative = [] then False
      else hd (native relative) \<noteq> CHR ''.'' \<and> find_sub ''..'' (native relative) = None)"

definition is_safe_path :: "filesystem \<Rightarrow> file_handler \<Rightarrow> string \<Rightarrow> bool" where
  "is_safe_path fs fh resolved_path =
     (case fs_canonical fs (fh_document_root fh) of
        Inl _ \<Rightarrow> False
      | Inr canonical_root \<Rightarrow>
          (case path_to_compare fs resolved_path of
             Inl _ \<Rightarrow> False
           | Inr canonical_path \<Rightarrow>
               (case fs_relative fs canonical_path canonical_root of
                  Inl _ \<Rightarrow> False
                | Inr relative \<Rightarrow> relative_ok relative)))"

definition file_exists :: "filesystem \<Rightarrow> file_handler \<Rightarrow> string \<Rightarrow> bool result" where
  "file_exists fs fh path =
     (let resolved = resolve_path fh path
      in case fs_exists fs resolved of
           Inl e \<Rightarrow> Inl e
         | Inr False \<Rightarrow> Inr False
         | Inr True \<Rightarrow> fs_is_regular_file fs resolved)"

definition read_file :: "filesystem \<Rightarrow> string \<Rightarrow> string option result" where
  \<comment> \<open>\<open>std::vector<char> buffer(size)\<close> throws \<open>length_error\<close> for the -1 of a failed \<open>tellg\<close>\<close>
  "read_file fs path =
     (case fs_open fs path of
        None \<Rightarrow> Inr None
      | Some (end_pos, read) \<Rightarrow> if end_pos < 0 then Inl Length_error else Inr (read (nat end_pos)))"


section \<open>Directory listings\<close>

definition round_half_even_div :: "nat \<Rightarrow> nat \<Rightarrow> nat" where
  \<comment> \<open>the nearest integer to \<open>n / d\<close>, ties to even\<close>
  "round_half_even_div n d =
     (let q = n div d; r = n mod d
      in if 2 * r < d \<or> 2 * r = d \<and> even q then q else q + 1)"

fun double_exponent :: "nat \<Rightarrow> nat" where
  "double_exponent n = (if n < 2 ^ 53 then 0 else Suc (double_exponent (n div 2)))"

declare double_exponent.simps [simp del]

definition u64_to_double :: "nat \<Rightarrow> nat" where
  \<comment> \<open>\<open>static_cast<double>(size)\<close>: rounded to 53 significant bits\<close>
  "u64_to_double n =
     round_half_even_div n (2 ^ double_exponent n) * 2 ^ double_exponent n"

function size_unit :: "nat \<Rightarrow> nat \<Rightarrow> nat" where
  \<comment> \<open>the loop that divides by 1024, which is exact on a double: after \<open>k\<close> rounds
      \<open>display_size\<close> is \<open>size / 1024 ^ k\<close>\<close>
  "size_unit sz k = (if 1024 * 1024 ^ k \<le> sz \<and> k < 4 then size_unit sz (k + 1) else k)"
  by pat_completeness auto
termination
  by (relation "measure (\<lambda>(_, k). 4 - k)") auto

declare size_unit.simps [simp del]

definition size_units :: "string list" where
  "size_units = [''B'', ''KB'', ''MB'', ''GB'', ''TB'']"

definition get_file_size_string :: "u64 \<Rightarrow> string" where
  \<comment> \<open>\<open>setprecision(1)\<close> prints the double correctly rounded to one decimal\<close>
  "get_file_size_string sz =
     (let display_size = u64_to_double (unat sz);
          unit_index = size_unit display_size 0;
          tenths = round_half_even_div (10 * display_size) (1024 ^ unit_index)
      in dec_digits (tenths div 10) @ ''.'' @ dec_digits (tenths mod 10) @ '' '' @
         size_units ! unit_index)"

definition get_last_modified_string :: "filesystem \<Rightarrow> clock \<Rightarrow> string" where
  \<comment> \<open>\<open>to_time_t\<close> counts whole seconds; \<open>%Y-%m-%d %H:%M:%S\<close>\<close>
  "get_last_modified_string fs file_time =
     (let system_time = file_time - fs_file_clock fs + fs_system_clock fs;
          t = fs_localtime fs (duration_seconds system_time);
          (year, yday) = split_year 1970 (t div 86400);
          (mon, mday) = split_month (month_lengths year) yday;
          secs = t mod 86400
      in dec_digits year @ ''-'' @ two_digits (mon + 1) @ ''-'' @ two_digits (mday + 1) @ '' '' @
         two_digits (secs div 3600) @ '':'' @ two_digits (secs div 60 mod 60) @ '':'' @
         two_digits (secs mod 60))"

definition quote :: string where
  "quote = [CHR 0x22]"

definition listing_head :: "string \<Rightarrow> string" where
  "listing_head request_path =
     ''<!DOCTYPE html>'' @ newline @
     ''<html><head><title>Directory listing for '' @ request_path @ ''</title>'' @
     ''<style>'' @ newline @
     ''body { font-family: Arial, sans-serif; margin: 40px; }'' @ newline @
     ''table { border-collapse: collapse; width: 100%; }'' @ newline @
     ''th, td { border: 1px solid #ddd; padding: 8px; text-align: left; }'' @ newline @
     ''th { background-color: #f2f2f2; }'' @ newline @
     ''a { text-decoration: none; color: #0066cc; }'' @ newline @
     ''a:hover { text-decoration: underline; }'' @ newline @
     ''</style></head>'' @ newline @
     ''<body>'' @ newline @
     ''<h1>Directory listing for '' @ request_path @ ''</h1>'' @ newline @
     ''<table>'' @ newline @
     ''<tr><th>Name</th><th>Size</th><th>Last Modified</th></tr>'' @ newline"

definition parent_link :: "string \<Rightarrow> string" where
  \<comment> \<open>\<open>request_path\<close> is not empty\<close>
  "parent_link request_path =
     (let p = (if last request_path = CHR ''/'' then butlast request_path else request_path)
      in case find_last_char (CHR ''/'') p of
           Some last_slash \<Rightarrow> take (last_slash + 1) p
         | None \<Rightarrow> ''/'')"

definition parent_row :: "string \<Rightarrow> string" where
  "parent_row request_path =
     (if request_path \<noteq> ''/'' \<and> request_path \<noteq> []
      then ''<tr><td><a href='' @ quote @ parent_link request_path @ quote @
        ''>..</a></td><td>-</td><td>-</td></tr>'' @ newline
      else [])"

definition sort_entries :: "dir_entry list \<Rightarrow> dir_entry list" where
  \<comment> \<open>\<open>std::sort\<close> with directories first, then by file name.  The names in a directory are
      distinct, so that the comparison is total and the result is the only sorted one.\<close>
  "sort_entries es = sort_key (\<lambda>e. (\<not> de_is_directory e, de_name e)) es"

definition entry_link :: "string \<Rightarrow> dir_entry \<Rightarrow> string" where
  \<comment> \<open>\<open>request_path\<close> is not empty: \<open>back()\<close> of an empty string is undefined in C++\<close>
  "entry_link request_path e =
     (let link_path = (if last request_path \<noteq> CHR ''/'' then request_path @ ''/'' else request_path)
      in link_path @ de_name e @ (if de_is_directory e then ''/'' else []))"

definition entry_row :: "filesystem \<Rightarrow> string \<Rightarrow> dir_entry \<Rightarrow> string" where
  "entry_row fs request_path e =
     ''<tr>'' @
     ''<td><a href='' @ quote @ entry_link request_path e @ quote @ ''>'' @
     de_name e @ (if de_is_directory e then ''/'' else []) @ ''</a></td>'' @
     (if de_is_directory e then ''<td>-</td>''
      else case de_size e of
             Inr n \<Rightarrow> ''<td>'' @ get_file_size_string n @ ''</td>''
           | Inl _ \<Rightarrow> ''<td>-</td>'') @
     (case de_write_time e of
        Inr t \<Rightarrow> ''<td>'' @ get_last_modified_string fs t @ ''</td>''
      | Inl _ \<Rightarrow> ''<td>-</td>'') @
     ''</tr>'' @ newline"

definition listing_foot :: string where
  "listing_foot =
     ''</table>'' @ newline @
     ''<hr>'' @ newline @
     ''<p><em>MultithreadedWebServer/1.0</em></p>'' @ newline @
     ''</body></html>'' @ newline"

definition create_directory_listing :: "filesystem \<Rightarrow> nat \<Rightarrow> string \<Rightarrow> string \<Rightarrow> http_response" where
  "create_directory_listing fs now dir_path request_path =
     (case fs_directory fs dir_path of
        Inl _ \<Rightarrow> create_error_response now INTERNAL_SERVER_ERROR ''Could not list directory''
      | Inr entries \<Rightarrow>
          (let body = listing_head request_path @ parent_row request_path @
                 concat (map (entry_row fs request_path) (sort_entries entries)) @ listing_foot
           in set_header ''X-Cache'' ''NONE''
                (set_content_type ''text/html; charset=utf-8''
                  (set_body body (new_response now OK)))))"

section \<open>Requests for files\<close>

definition default_path :: "file_handler \<Rightarrow> string \<Rightarrow> string" where
  "default_path fh dir = with_slash dir @ fh_default_file fh"

definition cached_response :: "nat \<Rightarrow> cache_entry \<Rightarrow> http_response" where
  "cached_response now e =
     set_header ''X-Cache'' ''HIT''
       (set_content_type (ce_content_type e) (set_body (ce_data e) (new_response now OK)))"

definition internal_error :: "nat \<Rightarrow> http_response" where
  "internal_error now = create_error_response now INTERNAL_SERVER_ERROR ''Internal server error''"

definition deliver_file ::
    "filesystem \<Rightarrow> clocks \<Rightarrow> string \<Rightarrow> file_handler \<Rightarrow> (http_response \<times> file_handler) option" where
  \<comment> \<open>lines 75 to 90: the file is not in the cache\<close>
  "deliver_file fs ck path fh =
     (case read_file fs path of
        Inl _ \<Rightarrow> Some (internal_error (ck_date ck), fh)
      | Inr None \<Rightarrow> Some (create_error_response (ck_date ck) INTERNAL_SERVER_ERROR ''Could not read file'', fh)
      | Inr (Some file_content) \<Rightarrow>
          (let mime_type = get_mime_type (path_extension path);
               response = set_header ''X-Cache'' ''MISS''
                 (create_file_response (ck_date ck) path file_content)
           in case fh_cache fh of
                Some c \<Rightarrow>
                  if fh_cache_enabled fh \<and> length file_content < 1024 * 1024 then
                    (case lru_put (ck_create ck) path file_content mime_type c of
                       None \<Rightarrow> None
                     | Some c1 \<Rightarrow> Some (response, fh\<lparr>fh_cache := Some c1\<rparr>))
                  else Some (response, fh)
              | None \<Rightarrow> Some (response, fh)))"

definition serve_file ::
    "filesystem \<Rightarrow> clocks \<Rightarrow> string \<Rightarrow> file_handler \<Rightarrow> (http_response \<times> file_handler) option" where
  \<comment> \<open>lines 53 to 90\<close>
  "serve_file fs ck path fh =
     (case fs_is_regular_file fs path of
        Inl _ \<Rightarrow> Some (internal_error (ck_date ck), fh)
      | Inr False \<Rightarrow> Some (create_error_response (ck_date ck) FORBIDDEN ''Not a regular file'', fh)
      | Inr True \<Rightarrow>
          (case fs_file_size fs path of
             Inl _ \<Rightarrow> Some (internal_error (ck_date ck), fh)
           | Inr file_size \<Rightarrow>
               if fh_max_file_size fh < file_size
               then Some (create_error_response (ck_date ck) FORBIDDEN ''File too large'', fh)
               else case fh_cache fh of
                 None \<Rightarrow> deliver_file fs ck path fh
               | Some c \<Rightarrow>
                   if \<not> fh_cache_enabled fh then deliver_file fs ck path fh
                   else (case lru_get (ck_expiry ck) (ck_access ck) path c of
                           (Some e, c1) \<Rightarrow>
                             Some (cached_response (ck_date ck) e, fh\<lparr>fh_cache := Some c1\<rparr>)
                         | (None, c1) \<Rightarrow> deliver_file fs ck path (fh\<lparr>fh_cache := Some c1\<rparr>))))"

definition is_default_file :: "filesystem \<Rightarrow> string \<Rightarrow> bool result" where
  \<comment> \<open>line 46, with its short-circuit\<close>
  "is_default_file fs path =
     (case fs_exists fs path of
        Inl e \<Rightarrow> Inl e
      | Inr False \<Rightarrow> Inr False
      | Inr True \<Rightarrow> fs_is_regular_file fs path)"

definition serve_existing ::
    "filesystem \<Rightarrow> clocks \<Rightarrow> string \<Rightarrow> string \<Rightarrow> file_handler \<Rightarrow> (http_response \<times> file_handler) option" where
  \<comment> \<open>the \<open>try\<close> block\<close>
  "serve_existing fs ck resolved_path request_path fh =
     (case fs_is_directory fs resolved_path of
        Inl _ \<Rightarrow> Some (internal_error (ck_date ck), fh)
      | Inr False \<Rightarrow> serve_file fs ck resolved_path fh
      | Inr True \<Rightarrow>
          (case is_default_file fs (default_path fh resolved_path) of
             Inl _ \<Rightarrow> Some (internal_error (ck_date ck), fh)
           | Inr True \<Rightarrow> serve_file fs ck (default_path fh resolved_path) fh
           | Inr False \<Rightarrow>
               Some (create_directory_listing fs (ck_date ck) resolved_path request_path, fh)))"

definition handle_file_request ::
    "filesystem \<Rightarrow> clocks \<Rightarrow> string \<Rightarrow> file_handler \<Rightarrow> (http_response result \<times> file_handler) option" where
  \<comment> \<open>\<open>exists\<close> on line 34 stands outside the \<open>try\<close> block\<close>
  "handle_file_request fs ck request_path fh =
     (let resolved_path = resolve_path fh request_path
      in if \<not> is_safe_path fs fh resolved_path
         then Some (Inr (create_error_response (ck_date ck) FORBIDDEN ''Access denied''), fh)
         else case fs_exists fs resolved_path of
           Inl e \<Rightarrow> Some (Inl e, fh)
         | Inr False \<Rightarrow> Some (Inr (create_error_response (ck_date ck) NOT_FOUND ''File not found''), fh)
         | Inr True \<Rightarrow>
             map_option (\<lambda>(r, fh1). (Inr r, fh1)) (serve_existing fs ck resolved_path request_path fh))"


section \<open>Path safety\<close>

definition plain_component :: "string \<Rightarrow> bool" where
  "plain_component c \<longleftrightarrow> c \<noteq> [] \<and> c \<noteq> ''.'' \<and> c \<noteq> ''..'' \<and> CHR ''/'' \<notin> set c"

definition canonical_laws :: "filesystem \<Rightarrow> bool" where
  \<comment> \<open>documented of \<open>canonical\<close>: its result has no dot, dot-dot or empty component, and is its own
      weakly canonical form\<close>
  "canonical_laws fs \<longleftrightarrow>
     (\<forall>p q. fs_canonical fs p = Inr q \<longrightarrow> list_all plain_component q \<and> fs_weakly_canonical fs q = Inr q)"

definition inside :: "string list \<Rightarrow> string list \<Rightarrow> bool" where
  \<comment> \<open>strictly below the root, not hidden at its top, and without two dots in a row in any name\<close>
  "inside root path \<longleftrightarrow>
     (\<exists>rel. path = root @ rel \<and> rel \<noteq> [] \<and> hd (hd rel) \<noteq> CHR ''.'' \<and>
        (\<forall>c \<in> set rel. find_sub ''..'' c = None))"

lemma strip_common_split:
  "strip_common xs ys = (a, b) \<Longrightarrow>
   \<exists>c. xs = c @ a \<and> ys = c @ b \<and> (a = [] \<or> b = [] \<or> hd a \<noteq> hd b)"
proof (induction xs ys rule: strip_common.induct)
  case (1 x xs y ys)
  show ?case
  proof (cases "x = y")
    case True
    with 1 obtain c where "xs = c @ a \<and> ys = c @ b \<and> (a = [] \<or> b = [] \<or> hd a \<noteq> hd b)" by auto
    with True show ?thesis by (intro exI [of _ "x # c"]) simp
  qed (use 1 in auto)
qed auto

lemma strip_common_app [simp]: "strip_common (r @ xs) r = (xs, [])"
  by (induction r) (cases xs; simp)+

lemma up_count_plain: "list_all plain_component bs \<Longrightarrow> up_count bs = int (length bs)"
  by (induction bs) (auto simp: up_count_def plain_component_def)

lemma find_dots_slash:
  "find_sub ''..'' (c @ CHR ''/'' # s) = None \<longleftrightarrow> find_sub ''..'' c = None \<and> find_sub ''..'' s = None"
proof (induction c)
  case (Cons x c)
  then show ?case by (cases c) auto
qed simp

lemma native_Cons: "native (c # cs) = (if cs = [] then c else c @ CHR ''/'' # native cs)"
  by (cases cs) simp_all

lemma find_dots_native:
  "find_sub ''..'' (native cs) = None \<longleftrightarrow> (\<forall>c \<in> set cs. find_sub ''..'' c = None)"
proof (induction cs)
  case (Cons c cs)
  then show ?case by (simp add: native_Cons find_dots_slash)
qed simp

lemma native_plain:
  "list_all plain_component cs \<Longrightarrow> cs \<noteq> [] \<Longrightarrow> native cs \<noteq> [] \<and> hd (native cs) = hd (hd cs)"
  by (cases cs) (auto simp: native_Cons plain_component_def)

lemma relative_ok_inside:
  assumes "list_all plain_component p" and "list_all plain_component root"
  shows "relative_ok (lexically_relative p root) \<longleftrightarrow> inside root p"
proof -
  obtain a b where ab: "strip_common p root = (a, b)" by fastforce
  from strip_common_split [OF this] obtain c where c: "p = c @ a" "root = c @ b"
    "a = [] \<or> b = [] \<or> hd a \<noteq> hd b" by blast
  have b: "up_count b = int (length b)"
    using assms(2) c by (intro up_count_plain) simp
  have inside_b: "inside root p \<longleftrightarrow> b = [] \<and> a \<noteq> [] \<and> hd (hd a) \<noteq> CHR ''.'' \<and> (\<forall>c \<in> set a. find_sub ''..'' c = None)"
  proof
    assume "inside root p"
    then obtain rel where rel: "p = root @ rel" "rel \<noteq> []" "hd (hd rel) \<noteq> CHR ''.''"
      "\<forall>c \<in> set rel. find_sub ''..'' c = None" by (auto simp: inside_def)
    from ab rel(1) have "a = rel" "b = []" by simp_all
    with rel show "b = [] \<and> a \<noteq> [] \<and> hd (hd a) \<noteq> CHR ''.'' \<and> (\<forall>c \<in> set a. find_sub ''..'' c = None)"
      by simp
  qed (use c in \<open>auto simp: inside_def\<close>)
  consider "b = []" "a = []" | "b = []" "a \<noteq> []" | b1 bs where "b = b1 # bs" by (cases b) auto
  then show ?thesis
  proof cases
    case 2
    then have "hd a \<noteq> []" "list_all plain_component a"
      using assms(1) c by (cases a; simp add: plain_component_def)+
    with 2 show ?thesis
      using native_plain [of a] find_dots_native [of a] inside_b
      by (auto simp: lexically_relative_def ab up_count_def relative_ok_def)
  qed (use b inside_b in \<open>auto simp: lexically_relative_def ab relative_ok_def up_count_def native_Cons nat_add_distrib\<close>)
qed

lemma is_safe_path_inside:
  assumes "canonical_laws fs" and "fs_exists fs p = Inr True"
  shows "is_safe_path fs fh p \<longleftrightarrow>
    (\<exists>root path. fs_canonical fs (fh_document_root fh) = Inr root \<and> fs_canonical fs p = Inr path \<and>
       inside root path)"
  using assms relative_ok_inside unfolding canonical_laws_def
  by (auto simp: is_safe_path_def path_to_compare_def fs_relative_def split: sum.splits)


section \<open>What is served\<close>

definition content_of :: "filesystem \<Rightarrow> string \<Rightarrow> string \<times> string" where
  \<comment> \<open>the bytes of a file and the type it is served with\<close>
  "content_of fs path =
     (case read_file fs path of Inr (Some d) \<Rightarrow> d | _ \<Rightarrow> [], get_mime_type (path_extension path))"

definition cache_ok :: "filesystem \<Rightarrow> lru_cache \<Rightarrow> bool" where
  "cache_ok fs c \<longleftrightarrow> lru_inv c \<and> coherent lru_held (content_of fs) c \<and>
     lru_total c \<le> unat (lc_max_size c) \<and> unat (lc_max_size c) + 2 ^ 20 \<le> 2 ^ 64"

definition handler_inv :: "filesystem \<Rightarrow> file_handler \<Rightarrow> bool" where
  "handler_inv fs fh \<longleftrightarrow> (case fh_cache fh of None \<Rightarrow> True | Some c \<Rightarrow> cache_ok fs c)"

definition response_ok :: "http_response \<Rightarrow> bool" where
  "response_ok r \<longleftrightarrow> header_wf r \<and> framed r"

lemma response_ok_intros [inv_intros]:
  "response_ok (create_error_response now st msg)"
  "response_ok (internal_error now)"
  "response_ok (create_directory_listing fs now d p)"
  "response_ok (set_header ''X-Cache'' ''MISS'' (create_file_response now p content))"
  "good_value (ce_content_type e) \<Longrightarrow> response_ok (cached_response now e)"
proof -
  show "response_ok (create_error_response now st msg)"
    by (simp add: response_ok_def create_error_response_ok)
  show "response_ok (internal_error now)"
    by (simp add: response_ok_def internal_error_def create_error_response_ok)
  show "response_ok (create_directory_listing fs now d p)"
    unfolding create_directory_listing_def response_ok_def Let_def
    by (auto split: sum.split intro!: inv_intros response_wf_facts)
  show "response_ok (set_header ''X-Cache'' ''MISS'' (create_file_response now p content))"
    unfolding response_ok_def by (auto intro!: inv_intros response_wf_facts)
  show "response_ok (cached_response now e)" if "good_value (ce_content_type e)"
    unfolding response_ok_def cached_response_def using that
    by (auto intro!: inv_intros response_wf_facts)
qed

lemma cache_ok_get:
  assumes "cache_ok fs c" and "lru_get t1 t2 p c = (r, c1)"
  shows "cache_ok fs c1 \<and> (\<forall>e. r = Some e \<longrightarrow> (ce_data e, ce_content_type e) = content_of fs p)"
  using assms lru.get_inv lru.get_coherent lru.hit_content lru.get_within_limit
  unfolding cache_ok_def by metis

lemma cache_ok_put:
  assumes "cache_ok fs c" and "lru_get t1 t2 p c = (None, c1)" and "length d < 2 ^ 20"
    and "content_of fs p = (d, ct)"
  shows "\<exists>c2. lru_put t p d ct c1 = Some c2 \<and> cache_ok fs c2"
proof -
  note c = assms(1) [unfolded cache_ok_def]
  have c1: "cache_ok fs c1" using cache_ok_get [OF assms(1,2)] by simp
  then obtain c2 where put: "lru_put t p d ct c1 = Some c2"
    using lru.put_returns [of c1 t p d ct] by (auto simp: cache_ok_def)
  have "unat (lc_max_size c) + length d < 2 ^ 64" using c assms(3) by linarith
  with c have "lru_total c2 \<le> unat (lc_max_size c2) \<and> unat (lc_max_size c2) = unat (lc_max_size c)"
    using lru.miss_put_within_limit [OF _ _ _ assms(2) put] by blast
  then have "cache_ok fs c2"
    using lru.put_inv [OF _ put] lru.put_coherent [where content = "content_of fs", OF _ _ put assms(4)] c1 c
    by (simp add: cache_ok_def)
  with put show ?thesis by blast
qed

definition served :: "filesystem \<Rightarrow> string \<Rightarrow> http_response \<Rightarrow> bool" where
  \<comment> \<open>the response is the file\<close>
  "served fs path r \<longleftrightarrow> rs_status r = OK \<and> rs_body r = fst (content_of fs path) \<and>
     map_of (rs_headers r) ''Content-Type'' = Some (snd (content_of fs path))"

lemma served_simps:
  "read_file fs p = Inr (Some d) \<Longrightarrow>
     served fs p (set_header ''X-Cache'' ''MISS'' (create_file_response now p d))"
  "(ce_data e, ce_content_type e) = content_of fs p \<Longrightarrow> served fs p (cached_response now e)"
proof -
  have h: "map_of (rs_headers (set_header ''X-Cache'' v (set_content_type t r))) ''Content-Type'' = Some t" for v t r
    by (simp add: set_content_type_def set_header_def AList.update_conv')
  show "read_file fs p = Inr (Some d) \<Longrightarrow>
      served fs p (set_header ''X-Cache'' ''MISS'' (create_file_response now p d))"
    using h by (simp add: served_def content_of_def create_file_response_def Let_def)
  assume "(ce_data e, ce_content_type e) = content_of fs p"
  then have "content_of fs p = (ce_data e, ce_content_type e)" by simp
  then show "served fs p (cached_response now e)"
    using h by (simp add: served_def cached_response_def)
qed

lemma content_of_read: "read_file fs p = Inr (Some d) \<Longrightarrow> content_of fs p = (d, get_mime_type (path_extension p))"
  by (simp add: content_of_def)

lemma deliver_file_ok:
  assumes "fh_cache fh = None \<or> \<not> fh_cache_enabled fh \<and> handler_inv fs fh \<or>
    (\<exists>c0 c t1 t2. fh_cache fh = Some c \<and> cache_ok fs c0 \<and> lru_get t1 t2 p c0 = (None, c))"
  shows "\<exists>r fh'. deliver_file fs ck p fh = Some (r, fh') \<and> handler_inv fs fh' \<and> response_ok r \<and>
    (\<forall>d. read_file fs p = Inr (Some d) \<longrightarrow> served fs p r)"
proof -
  have inv: "handler_inv fs fh"
    using assms cache_ok_get by (auto simp: handler_inv_def split: option.splits)
  show ?thesis
  proof (cases "read_file fs p")
    case (Inr od)
    show ?thesis
    proof (cases od)
      case (Some d)
      show ?thesis
      proof (cases "\<exists>c. fh_cache fh = Some c \<and> fh_cache_enabled fh \<and> length d < 1024 * 1024")
        case True
        then obtain c where c: "fh_cache fh = Some c" "fh_cache_enabled fh" "length d < 2 ^ 20" by auto
        with assms obtain c0 t1 t2 where "cache_ok fs c0" "lru_get t1 t2 p c0 = (None, c)" by auto
        from cache_ok_put [OF this c(3) content_of_read, of "ck_create ck"] Inr Some
        obtain c2 where c2: "lru_put (ck_create ck) p d (get_mime_type (path_extension p)) c = Some c2"
          "cache_ok fs c2" by blast
        with c Inr Some show ?thesis
          by (simp add: deliver_file_def handler_inv_def served_simps inv_intros Let_def)
      next
        case False
        with Inr Some inv show ?thesis
          by (cases "fh_cache fh")
            (auto simp: deliver_file_def served_simps Let_def intro: inv_intros)
      qed
    qed (use Inr inv in \<open>simp add: deliver_file_def inv_intros\<close>)
  qed (use inv in \<open>simp add: deliver_file_def inv_intros\<close>)
qed

definition servable :: "filesystem \<Rightarrow> file_handler \<Rightarrow> string \<Rightarrow> bool" where
  \<comment> \<open>a readable regular file within the size limit\<close>
  "servable fs fh path \<longleftrightarrow> fs_is_regular_file fs path = Inr True \<and>
     (\<exists>n. fs_file_size fs path = Inr n \<and> n \<le> fh_max_file_size fh) \<and>
     (\<exists>d. read_file fs path = Inr (Some d))"

lemma serve_file_ok:
  assumes "handler_inv fs fh"
  shows "\<exists>r fh'. serve_file fs ck p fh = Some (r, fh') \<and> handler_inv fs fh' \<and> response_ok r \<and>
    (servable fs fh p \<longrightarrow> served fs p r)"
proof (cases "fs_is_regular_file fs p = Inr True \<and> (\<exists>n. fs_file_size fs p = Inr n \<and> n \<le> fh_max_file_size fh)")
  case False
  with assms show ?thesis
    by (auto simp: serve_file_def servable_def intro: inv_intros split: sum.splits bool.splits)
next
  case True
  then obtain n where n: "fs_is_regular_file fs p = Inr True" "fs_file_size fs p = Inr n"
    "\<not> fh_max_file_size fh < n" by auto
  show ?thesis
  proof (cases "\<exists>c. fh_cache fh = Some c \<and> fh_cache_enabled fh")
    case False
    then have "serve_file fs ck p fh = deliver_file fs ck p fh"
      using n by (auto simp: serve_file_def split: option.splits)
    with deliver_file_ok [of fh fs p ck] False assms show ?thesis by (auto simp: servable_def)
  next
    case True
    then obtain c where c: "fh_cache fh = Some c" "fh_cache_enabled fh" "cache_ok fs c"
      using assms by (auto simp: handler_inv_def)
    obtain oe c1 where get: "lru_get (ck_expiry ck) (ck_access ck) p c = (oe, c1)" by fastforce
    note ok = cache_ok_get [OF c(3) get]
    show ?thesis
    proof (cases oe)
      case None
      with n c get have "serve_file fs ck p fh = deliver_file fs ck p (fh\<lparr>fh_cache := Some c1\<rparr>)"
        by (simp add: serve_file_def)
      with deliver_file_ok [of "fh\<lparr>fh_cache := Some c1\<rparr>" fs p ck] c(3) get None show ?thesis
        by (auto simp: servable_def)
    next
      case (Some e)
      with ok have e: "(ce_data e, ce_content_type e) = content_of fs p" "cache_ok fs c1" by auto
      from e(1) have "ce_content_type e = get_mime_type (path_extension p)"
        by (simp add: content_of_def)
      then have "response_ok (cached_response (ck_date ck) e)"
        by (intro inv_intros) (simp add: good_value_mime)
      with n c get Some e show ?thesis
        by (simp add: serve_file_def handler_inv_def served_simps)
    qed
  qed
qed

text \<open>An exception could leave \<open>handle_file_request\<close> only if \<open>exists\<close> answered differently on two calls for
  the same path; with the file system fixed during the request it never does.\<close>

lemma no_exception_escapes:
  "handle_file_request fs ck path fh = Some (res, fh') \<Longrightarrow> \<exists>r. res = Inr r"
  by (auto simp: handle_file_request_def is_safe_path_def path_to_compare_def Let_def
      split: if_splits sum.splits bool.splits)

lemma handle_file_request_ok:
  assumes "handler_inv fs fh"
  shows "\<exists>res fh'. handle_file_request fs ck path fh = Some (res, fh') \<and> handler_inv fs fh' \<and>
    (\<forall>r. res = Inr r \<longrightarrow> response_ok r)"
proof -
  have "\<exists>r fh'. serve_existing fs ck p path fh = Some (r, fh') \<and> handler_inv fs fh' \<and> response_ok r" for p
    using assms serve_file_ok [OF assms, of ck p] serve_file_ok [OF assms, of ck "default_path fh p"]
    by (auto simp: serve_existing_def intro: inv_intros split: sum.split bool.split)
  from this [of "resolve_path fh path"] show ?thesis
    using assms
    by (auto simp: handle_file_request_def Let_def intro: inv_intros split: sum.split bool.split)
qed


section \<open>A small tree for the witnesses\<close>

text \<open>\<open>/srv\<close> with the file \<open>a.txt\<close>, the link \<open>key\<close> to \<open>/etc/key\<close> and the directory \<open>docs\<close>, whose
  \<open>index.html\<close> is such a link too.\<close>

definition ex_paths :: "(string \<times> string list) list" where
  "ex_paths = [(''/srv/'', [''srv'']), (''/srv/.'', [''srv'']), (''/srv/a.txt'', [''srv'', ''a.txt'']),
     (''/srv/key'', [''etc'', ''key'']), (''/srv/docs'', [''srv'', ''docs'']),
     (''/srv/docs/index.html'', [''etc'', ''key''])]"

definition ex_regular :: "string \<Rightarrow> bool" where
  "ex_regular p \<longleftrightarrow> map_of ex_paths p \<in> {Some [''srv'', ''a.txt''], Some [''etc'', ''key'']}"

definition ex_bytes :: "string \<Rightarrow> string" where
  "ex_bytes p = (if p = ''/srv/a.txt'' then ''hello'' else ''secret'')"

definition ex_fs :: filesystem where
  "ex_fs =
     \<lparr>fs_exists = \<lambda>p. Inr (map_of ex_paths p \<noteq> None),
      fs_is_directory = \<lambda>p. Inr (map_of ex_paths p \<in> {Some [''srv''], Some [''srv'', ''docs'']}),
      fs_is_regular_file = \<lambda>p. Inr (ex_regular p),
      fs_file_size = \<lambda>p. if ex_regular p then Inr (word_of_nat (length (ex_bytes p))) else Inl Filesystem_error,
      fs_canonical = \<lambda>p. case map_of ex_paths p of Some q \<Rightarrow> Inr q | None \<Rightarrow> Inl Filesystem_error,
      fs_weakly_canonical = \<lambda>q. Inr q,
      fs_absolute = \<lambda>p. Inl Filesystem_error,
      fs_open = \<lambda>p. if ex_regular p then Some (int (length (ex_bytes p)), \<lambda>n. Some (take n (ex_bytes p))) else None,
      fs_directory = \<lambda>p. if p = ''/srv/docs''
        then Inr [\<lparr>de_name = ''<b>'', de_is_directory = False, de_size = Inr 5, de_write_time = Inl Filesystem_error\<rparr>,
                  \<lparr>de_name = ''sub'', de_is_directory = True, de_size = Inl Filesystem_error, de_write_time = Inl Filesystem_error\<rparr>]
        else Inl Filesystem_error,
      fs_file_clock = 0, fs_system_clock = 0, fs_localtime = nat,
      fs_create_directories = \<lambda>p. Inr ()\<rparr>"

definition ex_handler :: file_handler where
  "ex_handler = new_file_handler ''/srv'' ''index.html'' True 1"

definition ex_clocks :: clocks where
  "ex_clocks = \<lparr>ck_date = 0, ck_expiry = 0, ck_access = 0, ck_create = 0\<rparr>"

lemma ex_canonical_laws: "canonical_laws ex_fs"
proof -
  have "map_of ex_paths p = Some q \<Longrightarrow> list_all plain_component q" for p q
    by (drule map_of_SomeD) (auto simp: ex_paths_def plain_component_def)
  then show ?thesis
    by (auto simp: canonical_laws_def ex_fs_def split: option.splits)
qed

lemma mb_limit: "unat (mb * 1024 * 1024 :: u64) + 2 ^ 20 \<le> 2 ^ 64"
proof -
  have "unat (mb * 1024 * 1024) = unat (mb * 1048576)" by (simp add: mult.assoc)
  also have "\<dots> = (unat mb * 1048576) mod (17592186044416 * 1048576)"
    by (simp add: unat_word_ariths)
  also have "\<dots> = (unat mb mod 17592186044416) * 1048576" by (rule mod_mult_mult2)
  also have "\<dots> \<le> 17592186044415 * 1048576"
    using mod_less_divisor [of 17592186044416 "unat mb"] by (intro mult_le_mono1) linarith
  finally show ?thesis by simp
qed

lemma new_handler_inv: "handler_inv fs (new_file_handler root def en mb)"
  using mb_limit [of mb]
  by (simp add: handler_inv_def new_file_handler_def cache_ok_def lru_new_inv)
    (simp add: lru_new_def lru_total_def coherent_def lru_held_def)

lemma ex_handler_sel [simp]:
  "fh_document_root ex_handler = ''/srv/''" "fh_default_file ex_handler = ''index.html''"
  "fh_max_file_size ex_handler = 52428800"
  by (simp_all add: ex_handler_def new_file_handler_def with_slash_def DEFAULT_MAX_FILE_SIZE_def)


section \<open>Properties\<close>

text \<open>C24: Whatever exists outside the document root is refused: a request path whose canonical form is
  not strictly below the canonical root, by any mixture of dots, repeated slashes or symbolic links,
  is answered 403 and nothing is read or cached.\<close>

theorem traversal_blocked:
  assumes "canonical_laws fs" and "fs_exists fs (resolve_path fh path) = Inr True"
    and "fs_canonical fs (fh_document_root fh) = Inr root"
    and "fs_canonical fs (resolve_path fh path) = Inr p" and "\<nexists>rel. rel \<noteq> [] \<and> p = root @ rel"
  shows "handle_file_request fs ck path fh =
    Some (Inr (create_error_response (ck_date ck) FORBIDDEN ''Access denied''), fh)"
proof -
  have "\<not> inside root p" using assms(5) by (auto simp: inside_def)
  then have "\<not> is_safe_path fs fh (resolve_path fh path)"
    using is_safe_path_inside [OF assms(1,2)] assms(3,4) by auto
  then show ?thesis by (simp add: handle_file_request_def Let_def)
qed

theorem traversal_blocked_witness:
  "handle_file_request ex_fs ex_clocks ''/key'' ex_handler =
     Some (Inr (create_error_response 0 FORBIDDEN ''Access denied''), ex_handler)"
  using traversal_blocked [OF ex_canonical_laws, of ex_handler "''/key''" "[''srv'']" "[''etc'', ''key'']" ex_clocks]
  by (simp add: resolve_path_def ex_fs_def ex_paths_def) (simp add: ex_clocks_def)

text \<open>The safety test is exact on what exists: a path passes precisely when its canonical form lies
  below the canonical root, does not begin there with a dot, and has no name with two dots in a
  row.  So hidden files at the top of the root and harmless names such as \<open>a..b\<close> are refused
  along with real traversal.\<close>

theorem is_safe_path_exact:
  assumes "canonical_laws fs" and "fs_exists fs p = Inr True"
  shows "is_safe_path fs fh p \<longleftrightarrow>
    (\<exists>root rel. fs_canonical fs (fh_document_root fh) = Inr root \<and> fs_canonical fs p = Inr (root @ rel) \<and>
       rel \<noteq> [] \<and> hd (hd rel) \<noteq> CHR ''.'' \<and> (\<forall>c \<in> set rel. find_sub ''..'' c = None))"
  unfolding is_safe_path_inside [OF assms] inside_def by auto

theorem is_safe_path_exact_witness:
  "is_safe_path ex_fs ex_handler ''/srv/a.txt'' \<and> \<not> is_safe_path ex_fs ex_handler ''/srv/key''"
  using is_safe_path_exact [OF ex_canonical_laws, of "''/srv/a.txt''" ex_handler]
    is_safe_path_exact [OF ex_canonical_laws, of "''/srv/key''" ex_handler]
  by (simp add: ex_fs_def ex_paths_def)

lemma file_request_served:
  assumes "handler_inv fs fh" and "canonical_laws fs"
    and "resolve_path fh path = p" and "fs_exists fs p = Inr True"
    and "fs_canonical fs (fh_document_root fh) = Inr root" and "fs_canonical fs p = Inr q" and "inside root q"
    and "fs_is_directory fs p = Inr False" and "fs_is_regular_file fs p = Inr True"
    and "fs_file_size fs p = Inr n" and "n \<le> fh_max_file_size fh" and "read_file fs p = Inr (Some d)"
  shows "\<exists>r fh'. handle_file_request fs ck path fh = Some (Inr r, fh') \<and> rs_status r = OK \<and>
    rs_body r = d \<and> map_of (rs_headers r) ''Content-Type'' = Some (get_mime_type (path_extension p)) \<and>
    header_wf r \<and> framed r \<and> handler_inv fs fh'"
proof -
  have safe: "is_safe_path fs fh p" using is_safe_path_inside [OF assms(2,4)] assms(5-7) by blast
  have "servable fs fh p" using assms(9-12) by (simp add: servable_def)
  with serve_file_ok [OF assms(1), of ck p] obtain r fh' where
    r: "serve_file fs ck p fh = Some (r, fh')" "handler_inv fs fh'" "response_ok r" "served fs p r" by blast
  have "handle_file_request fs ck path fh = Some (Inr r, fh')"
    using safe assms(3,4,8) r(1) by (simp add: handle_file_request_def serve_existing_def)
  with r show ?thesis by (simp add: served_def content_of_read [OF assms(12)] response_ok_def)
qed



text \<open>The document root itself never passes the safety test (its relative path is a single dot):
  the directory listing of the root, and the branch of the listing code for it, cannot be reached.\<close>

theorem root_listing_unreachable:
  assumes "canonical_laws fs" and "fs_exists fs (resolve_path fh path) = Inr True"
    and "fs_canonical fs (resolve_path fh path) = fs_canonical fs (fh_document_root fh)"
  shows "handle_file_request fs ck path fh =
    Some (Inr (create_error_response (ck_date ck) FORBIDDEN ''Access denied''), fh)"
  using is_safe_path_inside [OF assms(1,2), of fh] assms(3)
  by (auto simp: handle_file_request_def Let_def inside_def)

theorem root_listing_unreachable_witness:
  "handle_file_request ex_fs ex_clocks ''/.'' ex_handler =
     Some (Inr (create_error_response 0 FORBIDDEN ''Access denied''), ex_handler)"
  using root_listing_unreachable [OF ex_canonical_laws, of ex_handler "''/.''" ex_clocks]
  by (simp add: resolve_path_def ex_fs_def ex_paths_def) (simp add: ex_clocks_def)

text \<open>C25: The default file of a directory is not checked again: when it is a link to a file outside the
  root, a request for the directory is answered with that file, although a request for the link
  itself is refused.\<close>

theorem default_file_escapes:
  assumes "handler_inv fs fh" and "canonical_laws fs"
    and "fs_exists fs p = Inr True" and "resolve_path fh path = p"
    and "fs_canonical fs (fh_document_root fh) = Inr root" and "fs_canonical fs p = Inr q" and "inside root q"
    and "fs_is_directory fs p = Inr True"
    and "fs_exists fs (default_path fh p) = Inr True" and "servable fs fh (default_path fh p)"
    and "fs_canonical fs (default_path fh p) = Inr out" and "\<not> inside root out"
  shows "\<not> is_safe_path fs fh (default_path fh p) \<and>
    (\<exists>r fh'. handle_file_request fs ck path fh = Some (Inr r, fh') \<and> rs_status r = OK \<and>
       rs_body r = fst (content_of fs (default_path fh p)))"
proof -
  let ?d = "default_path fh p"
  have safe: "is_safe_path fs fh p" "\<not> is_safe_path fs fh ?d"
    using is_safe_path_inside [OF assms(2,3)] is_safe_path_inside [OF assms(2,9)] assms(5-7,11,12) by auto
  obtain r fh' where r: "serve_file fs ck ?d fh = Some (r, fh')" "served fs ?d r"
    using serve_file_ok [OF assms(1), of ck ?d] assms(10) by blast
  have "is_default_file fs ?d = Inr True"
    using assms(9,10) by (simp add: is_default_file_def servable_def)
  then have "handle_file_request fs ck path fh = Some (Inr r, fh')"
    using safe assms(3,4,8) r(1) by (simp add: handle_file_request_def serve_existing_def)
  with r(2) safe(2) show ?thesis by (auto simp: served_def)
qed

theorem default_file_escapes_witness:
  "\<exists>r fh'. handle_file_request ex_fs ex_clocks ''/docs'' ex_handler = Some (Inr r, fh') \<and>
     rs_status r = OK \<and> rs_body r = ''secret''"
proof -
  have "handler_inv ex_fs ex_handler" by (simp add: ex_handler_def new_handler_inv)
  moreover have p: "resolve_path ex_handler ''/docs'' = ''/srv/docs''"
    "default_path ex_handler ''/srv/docs'' = ''/srv/docs/index.html''"
    by (simp_all add: resolve_path_def default_path_def with_slash_def)
  moreover have "inside [''srv''] [''srv'', ''docs'']" "\<not> inside [''srv''] [''etc'', ''key'']"
    by (simp_all add: inside_def)
  moreover have "servable ex_fs ex_handler ''/srv/docs/index.html''"
    "fst (content_of ex_fs ''/srv/docs/index.html'') = ''secret''"
    by (simp_all add: servable_def content_of_def read_file_def ex_fs_def ex_regular_def ex_paths_def ex_bytes_def)
  ultimately show ?thesis
    using default_file_escapes [of ex_fs ex_handler "''/srv/docs''" "''/docs''" "[''srv'']"
        "[''srv'', ''docs'']" "[''etc'', ''key'']" ex_clocks] ex_canonical_laws
    by (auto simp: ex_fs_def ex_paths_def)
qed


section \<open>Every history of the handler\<close>

definition fh_init :: "file_handler \<Rightarrow> bool" where
  "fh_init fh \<longleftrightarrow> (\<exists>root def en mb. fh = new_file_handler root def en mb)"

inductive fh_step :: "filesystem \<Rightarrow> file_handler \<Rightarrow> file_handler \<Rightarrow> bool" for fs where
  request: "handle_file_request fs ck path fh = Some (res, fh') \<Longrightarrow> fh_step fs fh fh'"
| cleared: "fh_step fs fh (clear_cache fh)"
| cache_switched: "fh_step fs fh (enable_cache en fh)"
| root_changed: "fh_step fs fh (set_document_root root fh)"
| default_changed: "fh_step fs fh (set_default_file def fh)"
| limit_changed: "fh_step fs fh (set_max_file_size n fh)"

inductive_cases fh_stepE: "fh_step fs fh fh'"

lemma handler_inv_settings [inv_intros]:
  "handler_inv fs fh \<Longrightarrow> handler_inv fs (enable_cache en fh)"
  "handler_inv fs fh \<Longrightarrow> handler_inv fs (set_document_root root fh)"
  "handler_inv fs fh \<Longrightarrow> handler_inv fs (set_default_file def fh)"
  "handler_inv fs fh \<Longrightarrow> handler_inv fs (set_max_file_size n fh)"
  by (simp_all add: handler_inv_def enable_cache_def set_document_root_def set_default_file_def
      set_max_file_size_def)

lemma clear_cache_inv [inv_intros]: "handler_inv fs fh \<Longrightarrow> handler_inv fs (clear_cache fh)"
proof -
  have "cache_ok fs c \<Longrightarrow> cache_ok fs (lru_clear c)" for c
    using lru_clear_inv [of c]
    by (simp add: cache_ok_def lru_clear_def coherent_def lru_held_def lru_total_def)
  then show "handler_inv fs fh \<Longrightarrow> handler_inv fs (clear_cache fh)"
    by (simp add: handler_inv_def clear_cache_def split: option.splits)
qed

lemma handle_file_request_inv:
  "handle_file_request fs ck path fh = Some (res, fh') \<Longrightarrow> handler_inv fs fh \<Longrightarrow> handler_inv fs fh'"
  using handle_file_request_ok [of fs fh ck path] by auto

interpretation fh: inductive_invariant fh_init "fh_step fs" "handler_inv fs" for fs
proof (unfold_locales, goal_cases)
  case (1 fh)
  then show ?case by (auto simp: fh_init_def new_handler_inv)
next
  case (2 fh fh')
  from 2(2,1) show ?case by (auto elim!: fh_stepE intro: inv_intros handle_file_request_inv)
qed



section \<open>Listings\<close>

text \<open>A listing has one row for each entry of the directory, directories first, each kind by name;
  names and the request path are copied as they are, without escaping.\<close>

theorem listing_rows:
  assumes "fs_directory fs dir = Inr es"
  shows "\<exists>sorted_es. mset sorted_es = mset es \<and>
    sorted (map (\<lambda>e. (\<not> de_is_directory e, de_name e)) sorted_es) \<and>
    rs_status (create_directory_listing fs now dir request_path) = OK \<and>
    rs_body (create_directory_listing fs now dir request_path) =
      listing_head request_path @ parent_row request_path @
      concat (map (entry_row fs request_path) sorted_es) @ listing_foot \<and>
    (\<forall>e \<in> set es. \<exists>a b. entry_row fs request_path e = a @ de_name e @ b) \<and>
    (\<exists>a b. listing_head request_path = a @ request_path @ b)"
proof -
  have "\<exists>a b. entry_row fs request_path e = a @ de_name e @ b" for e
    unfolding entry_row_def
    by (rule exI [of _ "''<tr>'' @ ''<td><a href='' @ quote @ entry_link request_path e @ quote @ ''>''"])
      (simp only: append_assoc, blast)
  moreover have "\<exists>a b. listing_head request_path = a @ request_path @ b"
    unfolding listing_head_def
    by (rule exI [of _ "''<!DOCTYPE html>'' @ newline @ ''<html><head><title>Directory listing for ''"])
      (simp only: append_assoc, blast)
  ultimately show ?thesis
    using assms
    by (intro exI [of _ "sort_entries es"])
      (simp add: create_directory_listing_def sort_entries_def)
qed

lemma ex_fs_entries:
  "(\<lambda>e. (\<not> de_is_directory e, de_name e)) ` set (projr (fs_directory ex_fs ''/srv/docs''))
    = {(True, ''<b>''), (False, ''sub'')}"
  by (simp add: ex_fs_def)

theorem listing_rows_witness:
  "\<exists>sorted_es. mset sorted_es = mset (projr (fs_directory ex_fs ''/srv/docs'')) \<and>
     map de_name sorted_es = [''sub'', ''<b>'']"
proof -
  let ?es = "projr (fs_directory ex_fs ''/srv/docs'')"
  have es: "fs_directory ex_fs ''/srv/docs'' = Inr ?es" by (simp add: ex_fs_def)
  from listing_rows [OF es, of 0 "''/docs''"] obtain s where s: "mset s = mset ?es"
    "sorted (map (\<lambda>e. (\<not> de_is_directory e, de_name e)) s)" by blast
  let ?key = "\<lambda>e. (\<not> de_is_directory e, de_name e)"
  have "set s = set ?es" "length s = 2"
    using mset_eq_setD [OF s(1)] mset_eq_length [OF s(1)] by (simp_all add: ex_fs_def)
  moreover from this obtain a b where ab: "s = [a, b]" by (auto simp: length_Suc_conv numeral_2_eq_2)
  ultimately have "?key ` {a, b} = {(True, ''<b>''), (False, ''sub'')}"
    using ex_fs_entries by (simp only: list.set)
  then have "?key a = (True, ''<b>'') \<and> ?key b = (False, ''sub'') \<or>
      ?key a = (False, ''sub'') \<and> ?key b = (True, ''<b>'')"
    by (simp only: image_insert image_empty doubleton_eq_iff)
  moreover have "?key a \<le> ?key b" using s(2) ab by (simp only: list.map sorted2)
  ultimately have "?key a = (False, ''sub'') \<and> ?key b = (True, ''<b>'')"
    by (elim disjE conjE) (simp_all only: less_eq_prod_simp less_bool_def le_bool_def simp_thms)
  then have "map de_name s = [''sub'', ''<b>'']" by (simp only: ab list.map prod.inject)
  with s(1) show ?thesis by (intro exI [of _ s] conjI)
qed

subsection \<open>Sizes\<close>

lemma round_half_even_div_bounds:
  assumes "0 < d"
  shows "2 * n \<le> 2 * (round_half_even_div n d * d) + d" "2 * (round_half_even_div n d * d) \<le> 2 * n + d"
proof -
  have n: "n = n div d * d + n mod d" "n mod d < d" using assms by simp_all
  show "2 * n \<le> 2 * (round_half_even_div n d * d) + d" "2 * (round_half_even_div n d * d) \<le> 2 * n + d"
    using n unfolding round_half_even_div_def Let_def
    by (cases "2 * (n mod d) < d \<or> 2 * (n mod d) = d \<and> even (n div d)"; simp add: add_mult_distrib; linarith)+
qed

lemma u64_to_double_small: "n < 2 ^ 53 \<Longrightarrow> u64_to_double n = n"
  by (simp add: u64_to_double_def double_exponent.simps round_half_even_div_def)

lemma size_unit_spec:
  "k \<le> 4 \<Longrightarrow> (k = 0 \<or> 1024 ^ k \<le> n) \<Longrightarrow>
   (let u = size_unit n k in u \<le> 4 \<and> (u = 0 \<or> 1024 ^ u \<le> n) \<and> (u < 4 \<longrightarrow> n < 1024 ^ Suc u))"
proof (induction n k rule: size_unit.induct)
  case (1 n k)
  show ?case
  proof (cases "1024 * 1024 ^ k \<le> n \<and> k < 4")
    case True
    with 1 show ?thesis by (subst size_unit.simps) simp
  next
    case False
    then have "size_unit n k = k" by (simp add: size_unit.simps)
    with False 1(2,3) show ?thesis by auto
  qed
qed

text \<open>Below 2^53 bytes the printed size is the size in the largest of the units B to TB that does
  not exceed it, correct to within half of its last decimal.\<close>

theorem file_size_string_correct:
  assumes "unat n < 2 ^ 53"
  shows "\<exists>u t. u \<le> 4 \<and> (u = 0 \<or> 1024 ^ u \<le> unat n) \<and> (u < 4 \<longrightarrow> unat n < 1024 ^ Suc u) \<and>
    get_file_size_string n = dec_digits (t div 10) @ ''.'' @ dec_digits (t mod 10) @ '' '' @ size_units ! u \<and>
    20 * unat n \<le> 2 * t * 1024 ^ u + 1024 ^ u \<and> 2 * t * 1024 ^ u \<le> 20 * unat n + 1024 ^ u"
proof -
  let ?u = "size_unit (unat n) 0"
  let ?t = "round_half_even_div (10 * unat n) (1024 ^ ?u)"
  have "get_file_size_string n = dec_digits (?t div 10) @ ''.'' @ dec_digits (?t mod 10) @ '' '' @ size_units ! ?u"
    using assms by (simp add: get_file_size_string_def u64_to_double_small Let_def)
  moreover have "?u \<le> 4 \<and> (?u = 0 \<or> 1024 ^ ?u \<le> unat n) \<and> (?u < 4 \<longrightarrow> unat n < 1024 ^ Suc ?u)"
    using size_unit_spec [of 0 "unat n"] by (simp add: Let_def)
  moreover have "20 * unat n \<le> 2 * ?t * 1024 ^ ?u + 1024 ^ ?u" "2 * ?t * 1024 ^ ?u \<le> 20 * unat n + 1024 ^ ?u"
    using round_half_even_div_bounds [of "1024 ^ ?u" "10 * unat n"] by simp_all
  ultimately show ?thesis by blast
qed

theorem file_size_string_correct_witness:
  "\<exists>u t. get_file_size_string 1536 = dec_digits (t div 10) @ ''.'' @ dec_digits (t mod 10) @ '' '' @ size_units ! u \<and>
     u = 1 \<and> t = 15"
proof -
  obtain u t where ut: "u \<le> 4" "u = 0 \<or> 1024 ^ u \<le> (1536 :: nat)" "u < 4 \<longrightarrow> (1536 :: nat) < 1024 ^ Suc u"
    "get_file_size_string 1536 = dec_digits (t div 10) @ ''.'' @ dec_digits (t mod 10) @ '' '' @ size_units ! u"
    "20 * 1536 \<le> 2 * t * 1024 ^ u + 1024 ^ u" "2 * t * 1024 ^ u \<le> 20 * 1536 + 1024 ^ u"
    using file_size_string_correct [of 1536] by auto
  have "u = 1"
  proof -
    have "u \<in> {0, 1, 2, 3, 4}" using ut(1) by auto
    then show ?thesis using ut(2,3) by auto
  qed
  with ut show ?thesis by (intro exI [of _ 1] exI [of _ t]) auto
qed

end
