(* ===== verification/Rate_Limiter.thy ===== *)
theory Rate_Limiter
  imports Interfaces Double_Arith
begin

text \<open>
  Token buckets per client: \<open>include/rate_limiter.h\<close>, \<open>src/rate_limiter.cpp\<close> (classes
  \<open>TokenBucket\<close>, \<open>RateLimiter\<close>).  A \<open>double\<close> is a rational number and every operation on one is
  rounded (\<open>Double_Arith.fl\<close>).  Each operation runs under \<open>mutex_\<close> from start to end, so a
  history of the limiter is a sequence of calls.  One call of \<open>is_allowed\<close> reads the clock up
  to four times; the readings are the record \<open>rl_clocks\<close>.
\<close>

section \<open>State\<close>

record token_bucket =
  tb_tokens :: rat
  tb_last_refill :: clock

record rate_limiter =
  rl_enabled :: bool
  rl_requests_per_second :: rat
  rl_burst_capacity :: rat
  rl_buckets :: "(string \<times> token_bucket) list"
  rl_total_requests :: u64
  rl_blocked_requests :: u64
  rl_last_cleanup :: clock

record rl_clocks =
  rc_now :: clock       \<comment> \<open>in \<open>is_allowed\<close>\<close>
  rc_cleanup :: clock   \<comment> \<open>in \<open>cleanup_expired_buckets\<close>\<close>
  rc_create :: clock    \<comment> \<open>in the constructor of \<open>TokenBucket\<close>\<close>
  rc_refill :: clock    \<comment> \<open>in \<open>refill_bucket\<close>\<close>

definition CLEANUP_INTERVAL_SECONDS :: int where
  "CLEANUP_INTERVAL_SECONDS = 300"

definition BUCKET_EXPIRY_SECONDS :: int where
  "BUCKET_EXPIRY_SECONDS = 3600"

definition new_bucket :: "clock \<Rightarrow> rat \<Rightarrow> token_bucket" where
  "new_bucket now capacity = \<lparr>tb_tokens = capacity, tb_last_refill = now\<rparr>"

definition new_rate_limiter :: "clock \<Rightarrow> rat \<Rightarrow> rat \<Rightarrow> bool \<Rightarrow> rate_limiter" where
  "new_rate_limiter now requests_per_second burst_capacity enabled =
     \<lparr>rl_enabled = enabled, rl_requests_per_second = requests_per_second,
      rl_burst_capacity = burst_capacity, rl_buckets = [], rl_total_requests = 0,
      rl_blocked_requests = 0, rl_last_cleanup = now\<rparr>"

section \<open>Operations\<close>

definition extract_ip_from_address :: "string \<Rightarrow> string" where
  "extract_ip_from_address address =
     (case find_last_char (CHR '':'') address of Some colon_pos \<Rightarrow> take colon_pos address | None \<Rightarrow> address)"

definition refill_bucket :: "clock \<Rightarrow> rate_limiter \<Rightarrow> token_bucket \<Rightarrow> token_bucket" where
  \<comment> \<open>\<open>std::min(a, b)\<close> is \<open>b\<close> only if \<open>b < a\<close>\<close>
  "refill_bucket now rl bucket =
     (let elapsed = duration_millis (now - tb_last_refill bucket);
          elapsed_seconds = fl (fl (of_int elapsed) / 1000);
          tokens_to_add = fl (elapsed_seconds * rl_requests_per_second rl);
          filled = fl (tb_tokens bucket + tokens_to_add)
      in \<lparr>tb_tokens = (if filled < rl_burst_capacity rl then filled else rl_burst_capacity rl),
          tb_last_refill = now\<rparr>)"

definition bucket_expired :: "clock \<Rightarrow> token_bucket \<Rightarrow> bool" where
  "bucket_expired now b \<longleftrightarrow> duration_seconds (now - tb_last_refill b) \<ge> BUCKET_EXPIRY_SECONDS"

definition cleanup_expired_buckets :: "clock \<Rightarrow> rate_limiter \<Rightarrow> rate_limiter" where
  "cleanup_expired_buckets now rl =
     rl\<lparr>rl_buckets := filter (\<lambda>(_, b). \<not> bucket_expired now b) (rl_buckets rl)\<rparr>"

definition cleanup_if_due :: "rl_clocks \<Rightarrow> rate_limiter \<Rightarrow> rate_limiter" where
  "cleanup_if_due ck rl =
     (let cleanup_elapsed = duration_seconds (rc_now ck - rl_last_cleanup rl)
      in if CLEANUP_INTERVAL_SECONDS \<le> cleanup_elapsed
         then (cleanup_expired_buckets (rc_cleanup ck) rl)\<lparr>rl_last_cleanup := rc_now ck\<rparr>
         else rl)"

definition find_or_create :: "rl_clocks \<Rightarrow> string \<Rightarrow> rate_limiter \<Rightarrow> token_bucket" where
  "find_or_create ck ip rl =
     (case map_of (rl_buckets rl) ip of
        Some b \<Rightarrow> b
      | None \<Rightarrow> new_bucket (rc_create ck) (rl_burst_capacity rl))"

definition is_allowed :: "rl_clocks \<Rightarrow> string \<Rightarrow> rate_limiter \<Rightarrow> bool \<times> rate_limiter" where
  "is_allowed ck client_ip rl =
     (if \<not> rl_enabled rl then (True, rl)
      else let
        rl1 = rl\<lparr>rl_total_requests := rl_total_requests rl + 1\<rparr>;
        rl2 = cleanup_if_due ck rl1;
        ip = extract_ip_from_address client_ip;
        bucket = refill_bucket (rc_refill ck) rl2 (find_or_create ck ip rl2)
      in if 1 \<le> tb_tokens bucket
         then (True, rl2\<lparr>rl_buckets := AList.update ip
                 (bucket\<lparr>tb_tokens := fl (tb_tokens bucket - 1)\<rparr>) (rl_buckets rl2)\<rparr>)
         else (False, rl2\<lparr>rl_buckets := AList.update ip bucket (rl_buckets rl2),
                          rl_blocked_requests := rl_blocked_requests rl2 + 1\<rparr>))"

definition set_enabled :: "bool \<Rightarrow> rate_limiter \<Rightarrow> rate_limiter" where
  "set_enabled enabled rl = rl\<lparr>rl_enabled := enabled\<rparr>"

definition set_rate :: "rat \<Rightarrow> rate_limiter \<Rightarrow> rate_limiter" where
  "set_rate requests_per_second rl = rl\<lparr>rl_requests_per_second := requests_per_second\<rparr>"

definition set_burst_capacity :: "rat \<Rightarrow> rate_limiter \<Rightarrow> rate_limiter" where
  "set_burst_capacity burst_capacity rl = rl\<lparr>rl_burst_capacity := burst_capacity\<rparr>"

definition get_stats :: "rate_limiter \<Rightarrow> u64 \<times> u64 \<times> u64" where
  "get_stats rl = (rl_total_requests rl, rl_blocked_requests rl, word_of_nat (length (rl_buckets rl)))"

definition reset_stats :: "rate_limiter \<Rightarrow> rate_limiter" where
  "reset_stats rl = rl\<lparr>rl_total_requests := 0, rl_blocked_requests := 0\<rparr>"

section \<open>One refill\<close>

definition config_ok :: "rate_limiter \<Rightarrow> bool" where
  "config_ok rl \<longleftrightarrow> 0 \<le> rl_requests_per_second rl \<and> 0 \<le> rl_burst_capacity rl \<and>
     representable (rl_burst_capacity rl)"

definition bucket_ok :: "rat \<Rightarrow> clock \<Rightarrow> token_bucket \<Rightarrow> bool" where
  "bucket_ok burst now b \<longleftrightarrow> 0 \<le> tb_tokens b \<and> tb_tokens b \<le> burst \<and> representable (tb_tokens b) \<and>
     tb_last_refill b \<le> now"

definition tokens_added :: "clock \<Rightarrow> rate_limiter \<Rightarrow> token_bucket \<Rightarrow> rat" where
  "tokens_added now rl b =
     fl (fl (fl (of_int (duration_millis (now - tb_last_refill b))) / 1000) * rl_requests_per_second rl)"

lemma refill_bucket_eq:
  "refill_bucket now rl b =
     \<lparr>tb_tokens = min (rl_burst_capacity rl) (fl (tb_tokens b + tokens_added now rl b)),
      tb_last_refill = now\<rparr>"
  by (auto simp: refill_bucket_def tokens_added_def Let_def min_def)

lemma millis_bounds:
  "0 \<le> d \<Longrightarrow> 0 \<le> duration_millis d \<and> duration_millis d * 1000000 \<le> d"
  using pos_imp_zdiv_nonneg_iff [of 1000000 d] div_mult_mod_eq [of d 1000000] pos_mod_sign [of 1000000 d]
  by (simp add: duration_millis_nonneg)

lemma seconds_less: "0 \<le> d \<Longrightarrow> d < n * 1000000000 \<Longrightarrow> duration_seconds d < n"
  by (simp add: duration_seconds_nonneg div_less_iff_less_mult)

definition slack :: rat where
  \<comment> \<open>one rounding\<close>
  "slack = 1 + 1 / 2 ^ 53"

lemma tokens_added_bounds:
  assumes "0 \<le> rl_requests_per_second rl" and "tb_last_refill b \<le> now"
  shows "0 \<le> tokens_added now rl b"
    and "tokens_added now rl b \<le>
      rl_requests_per_second rl * of_int (now - tb_last_refill b) / 1000000000 * slack ^ 3"
proof -
  let ?ms = "duration_millis (now - tb_last_refill b)"
  let ?r = "rl_requests_per_second rl"
  have ms: "0 \<le> (of_int ?ms :: rat)" "(of_int ?ms :: rat) * 1000000 \<le> of_int (now - tb_last_refill b)"
  proof -
    have m: "0 \<le> ?ms" "?ms * 1000000 \<le> now - tb_last_refill b"
      using millis_bounds [of "now - tb_last_refill b"] assms(2) by simp_all
    from m(1) show "0 \<le> (of_int ?ms :: rat)" by (simp only: of_int_0_le_iff)
    from m(2) have "(of_int (?ms * 1000000) :: rat) \<le> of_int (now - tb_last_refill b)"
      by (simp only: of_int_le_iff)
    then show "(of_int ?ms :: rat) * 1000000 \<le> of_int (now - tb_last_refill b)"
      by (simp only: of_int_mult of_int_numeral)
  qed
  show "0 \<le> tokens_added now rl b"
    unfolding tokens_added_def using ms(1) assms(1)
    by (intro fl_nonneg mult_nonneg_nonneg divide_nonneg_nonneg) simp_all
  let ?a = "fl (of_int ?ms)" let ?b = "fl (?a / 1000)"
  have a: "0 \<le> ?a" "?a \<le> of_int ?ms * slack"
    using ms(1) fl_le [OF ms(1)] by (simp_all add: fl_nonneg slack_def)
  have b0: "0 \<le> ?b" using a(1) by (simp add: fl_nonneg)
  have "?b \<le> ?a / 1000 * slack"
    using a(1) fl_le [of "?a / 1000"] by (simp add: slack_def)
  also have "?a / 1000 * slack \<le> of_int ?ms * slack / 1000 * slack"
    using a(2) by (intro mult_right_mono divide_right_mono) (simp_all add: slack_def)
  finally have "?b \<le> of_int ?ms / 1000 * slack ^ 2"
    by (simp add: power2_eq_square mult.assoc)
  note b = this b0
  have "tokens_added now rl b \<le> ?b * ?r * slack"
    unfolding tokens_added_def using b(2) assms(1) fl_le [of "?b * ?r"] by (simp add: slack_def)
  also have "\<dots> \<le> of_int ?ms / 1000 * slack ^ 2 * ?r * slack"
    using b(1) assms(1) by (intro mult_right_mono) (simp_all add: slack_def)
  also have "\<dots> = ?r * (of_int ?ms * 1000000) / 1000000000 * slack ^ 3"
    by (simp add: power2_eq_square power3_eq_cube)
  also have "\<dots> \<le> ?r * of_int (now - tb_last_refill b) / 1000000000 * slack ^ 3"
    using ms(2) assms(1) by (intro mult_right_mono divide_right_mono mult_left_mono) (simp_all add: slack_def)
  finally show "tokens_added now rl b \<le> \<dots>" .
qed

lemma refill_bucket_ok:
  assumes "config_ok rl" and "bucket_ok (rl_burst_capacity rl) t b" and "t \<le> now"
  shows "bucket_ok (rl_burst_capacity rl) now (refill_bucket now rl b)"
proof -
  have "0 \<le> tokens_added now rl b"
    using assms by (intro tokens_added_bounds) (auto simp: config_ok_def bucket_ok_def)
  then have s: "0 \<le> tb_tokens b + tokens_added now rl b" using assms(2) by (simp add: bucket_ok_def)
  then show ?thesis
    using assms(1) fl_nonneg [OF s] representable_fl [OF s]
    by (auto simp: refill_bucket_eq bucket_ok_def config_ok_def min_def)
qed

lemma take_token_ok:
  assumes "bucket_ok burst t b" and "1 \<le> tb_tokens b" and "representable burst"
  shows "bucket_ok burst t (b\<lparr>tb_tokens := fl (tb_tokens b - 1)\<rparr>)"
proof -
  have "fl (tb_tokens b - 1) \<le> fl burst"
    using assms by (intro fl_mono) (auto simp: bucket_ok_def)
  also have "fl burst = burst"
    using assms by (intro fl_representable) (auto simp: bucket_ok_def)
  finally show ?thesis
    using assms by (simp add: bucket_ok_def fl_nonneg representable_fl)
qed


section \<open>The invariant\<close>

definition rl_inv :: "clock \<Rightarrow> rate_limiter \<Rightarrow> bool" where
  "rl_inv now rl \<longleftrightarrow> config_ok rl \<and> distinct (map fst (rl_buckets rl)) \<and>
     (\<forall>ip b. map_of (rl_buckets rl) ip = Some b \<longrightarrow> bucket_ok (rl_burst_capacity rl) now b)"

definition clocks_from :: "clock \<Rightarrow> rl_clocks \<Rightarrow> bool" where
  \<comment> \<open>\<open>steady_clock\<close> never runs backwards\<close>
  "clocks_from t ck \<longleftrightarrow> t \<le> rc_now ck \<and> rc_now ck \<le> rc_cleanup ck \<and> rc_cleanup ck \<le> rc_create ck \<and>
     rc_create ck \<le> rc_refill ck"

lemma map_of_filter_values:
  "distinct (map fst m) \<Longrightarrow>
   map_of (filter (\<lambda>(_, b). P b) m) k = (case map_of m k of Some b \<Rightarrow> if P b then Some b else None | None \<Rightarrow> None)"
  by (induction m) (auto simp: map_of_eq_None_iff image_iff split: option.splits)

lemma cleanup_lookup:
  "distinct (map fst (rl_buckets rl)) \<Longrightarrow>
   map_of (rl_buckets (cleanup_expired_buckets t rl)) ip =
     (case map_of (rl_buckets rl) ip of Some b \<Rightarrow> if bucket_expired t b then None else Some b | None \<Rightarrow> None)"
  by (simp add: cleanup_expired_buckets_def map_of_filter_values split: option.splits)

lemma cleanup_frame [simp]:
  "rl_enabled (cleanup_if_due ck rl) = rl_enabled rl"
  "rl_requests_per_second (cleanup_if_due ck rl) = rl_requests_per_second rl"
  "rl_burst_capacity (cleanup_if_due ck rl) = rl_burst_capacity rl"
  "rl_total_requests (cleanup_if_due ck rl) = rl_total_requests rl"
  "rl_blocked_requests (cleanup_if_due ck rl) = rl_blocked_requests rl"
  by (simp_all add: cleanup_if_due_def cleanup_expired_buckets_def Let_def)

lemma cleanup_if_due_lookup:
  assumes "distinct (map fst (rl_buckets rl))"
  shows "map_of (rl_buckets (cleanup_if_due ck rl)) ip = Some b \<Longrightarrow> map_of (rl_buckets rl) ip = Some b"
    and "map_of (rl_buckets rl) ip = Some b \<Longrightarrow> \<not> bucket_expired (rc_cleanup ck) b \<Longrightarrow>
      map_of (rl_buckets (cleanup_if_due ck rl)) ip = Some b"
    and "map_of (rl_buckets rl) ip = None \<Longrightarrow> map_of (rl_buckets (cleanup_if_due ck rl)) ip = None"
    and "distinct (map fst (rl_buckets (cleanup_if_due ck rl)))"
  using assms
  by (auto simp: cleanup_if_due_def Let_def cleanup_lookup split: option.splits if_splits)
    (simp_all add: cleanup_expired_buckets_def distinct_map_filter)

definition refilled :: "rl_clocks \<Rightarrow> string \<Rightarrow> rate_limiter \<Rightarrow> token_bucket" where
  \<comment> \<open>the bucket a call of \<open>is_allowed\<close> looks at\<close>
  "refilled ck ip rl = refill_bucket (rc_refill ck) rl (find_or_create ck ip (cleanup_if_due ck rl))"

lemma refill_bucket_cong:
  "rl_requests_per_second rl = rl_requests_per_second rl' \<Longrightarrow> rl_burst_capacity rl = rl_burst_capacity rl' \<Longrightarrow>
   refill_bucket t rl b = refill_bucket t rl' b"
  by (simp add: refill_bucket_def Let_def)

lemma cleanup_total [simp]:
  "rl_buckets (cleanup_if_due ck (rl\<lparr>rl_total_requests := n\<rparr>)) = rl_buckets (cleanup_if_due ck rl)"
  by (simp add: cleanup_if_due_def cleanup_expired_buckets_def Let_def)

lemma is_allowed_enabled:
  assumes "rl_enabled rl" and "ip = extract_ip_from_address a"
  shows "fst (is_allowed ck a rl) = (1 \<le> tb_tokens (refilled ck ip rl))"
    and "rl_buckets (snd (is_allowed ck a rl)) =
      AList.update ip (if 1 \<le> tb_tokens (refilled ck ip rl)
        then (refilled ck ip rl)\<lparr>tb_tokens := fl (tb_tokens (refilled ck ip rl) - 1)\<rparr>
        else refilled ck ip rl) (rl_buckets (cleanup_if_due ck rl))"
    and "rl_total_requests (snd (is_allowed ck a rl)) = rl_total_requests rl + 1"
    and "rl_blocked_requests (snd (is_allowed ck a rl)) =
      rl_blocked_requests rl + (if 1 \<le> tb_tokens (refilled ck ip rl) then 0 else 1)"
    and "rl_enabled (snd (is_allowed ck a rl))"
    and "rl_requests_per_second (snd (is_allowed ck a rl)) = rl_requests_per_second rl"
    and "rl_burst_capacity (snd (is_allowed ck a rl)) = rl_burst_capacity rl"
proof -
  let ?rl2 = "cleanup_if_due ck (rl\<lparr>rl_total_requests := rl_total_requests rl + 1\<rparr>)"
  have r: "refill_bucket (rc_refill ck) ?rl2 (find_or_create ck ip ?rl2) = refilled ck ip rl"
    unfolding refilled_def find_or_create_def
    by (simp add: refill_bucket_cong [of ?rl2 rl] split: option.split)
  show "fst (is_allowed ck a rl) = (1 \<le> tb_tokens (refilled ck ip rl))"
    and "rl_buckets (snd (is_allowed ck a rl)) =
      AList.update ip (if 1 \<le> tb_tokens (refilled ck ip rl)
        then (refilled ck ip rl)\<lparr>tb_tokens := fl (tb_tokens (refilled ck ip rl) - 1)\<rparr>
        else refilled ck ip rl) (rl_buckets (cleanup_if_due ck rl))"
    and "rl_total_requests (snd (is_allowed ck a rl)) = rl_total_requests rl + 1"
    and "rl_blocked_requests (snd (is_allowed ck a rl)) =
      rl_blocked_requests rl + (if 1 \<le> tb_tokens (refilled ck ip rl) then 0 else 1)"
    and "rl_enabled (snd (is_allowed ck a rl))"
    and "rl_requests_per_second (snd (is_allowed ck a rl)) = rl_requests_per_second rl"
    and "rl_burst_capacity (snd (is_allowed ck a rl)) = rl_burst_capacity rl"
    using assms(1) by (simp_all add: is_allowed_def Let_def r flip: assms(2))
qed

lemma bucket_ok_later: "bucket_ok burst t b \<Longrightarrow> t \<le> now \<Longrightarrow> bucket_ok burst now b"
  by (auto simp: bucket_ok_def)

lemma new_bucket_ok: "config_ok rl \<Longrightarrow> bucket_ok (rl_burst_capacity rl) t (new_bucket t (rl_burst_capacity rl))"
  by (simp add: config_ok_def bucket_ok_def new_bucket_def)

lemma found_bucket_ok:
  assumes "rl_inv t rl" and "clocks_from t ck"
  shows "bucket_ok (rl_burst_capacity rl) (rc_create ck) (find_or_create ck ip (cleanup_if_due ck rl))"
proof -
  have "t \<le> rc_create ck" using assms(2) by (simp add: clocks_from_def)
  from bucket_ok_later [OF _ this] show ?thesis
    using assms(1) cleanup_if_due_lookup(1) [of rl ck ip] new_bucket_ok [of rl "rc_create ck"]
    unfolding rl_inv_def find_or_create_def
    by (cases "map_of (rl_buckets (cleanup_if_due ck rl)) ip") (auto simp del: map_of_eq_Some_iff)
qed

lemma refilled_ok:
  assumes "rl_inv t rl" and "clocks_from t ck"
  shows "bucket_ok (rl_burst_capacity rl) (rc_refill ck) (refilled ck ip rl)"
  unfolding refilled_def using assms found_bucket_ok [OF assms]
  by (intro refill_bucket_ok) (auto simp: rl_inv_def clocks_from_def)

lemma is_allowed_inv:
  assumes "rl_inv t rl" and "clocks_from t ck"
  shows "rl_inv (rc_refill ck) (snd (is_allowed ck a rl))"
proof (cases "rl_enabled rl")
  case False
  have "t \<le> rc_refill ck" using assms(2) by (simp add: clocks_from_def)
  from bucket_ok_later [OF _ this] show ?thesis
    using assms(1) False by (simp add: is_allowed_def rl_inv_def)
next
  case True
  define ip where "ip = extract_ip_from_address a"
  note e = is_allowed_enabled [OF True ip_def, where ck = ck]
  note c = cleanup_if_due_lookup [where rl = rl and ck = ck]
  have burst: "representable (rl_burst_capacity rl)" using assms(1) by (simp add: rl_inv_def config_ok_def)
  have t: "t \<le> rc_refill ck" using assms(2) by (simp add: clocks_from_def)
  have "bucket_ok (rl_burst_capacity rl) (rc_refill ck) b"
    if "map_of (rl_buckets (snd (is_allowed ck a rl))) j = Some b" for j b
  proof (cases "j = ip")
    case True
    with that refilled_ok [OF assms, of ip] take_token_ok [OF _ _ burst] show ?thesis
      by (auto simp: e(2) AList.update_conv' split: if_splits)
  next
    case False
    with that have "map_of (rl_buckets (cleanup_if_due ck rl)) j = Some b"
      by (simp add: e(2) AList.update_conv')
    from c(1) [OF _ this] assms(1) bucket_ok_later [OF _ t] show ?thesis
      unfolding rl_inv_def by blast
  qed
  then show ?thesis
    using assms(1) c(4) by (auto simp: rl_inv_def config_ok_def e distinct_update)
qed


section \<open>Runs of one client\<close>

type_synonym rl_call = "string \<times> rl_clocks"

fun allowed_count :: "string \<Rightarrow> rl_call list \<Rightarrow> rate_limiter \<Rightarrow> nat" where
  \<comment> \<open>how many of the calls the limiter grants to the client \<open>ip\<close>\<close>
  "allowed_count ip [] rl = 0"
| "allowed_count ip ((a, ck) # cs) rl =
     (let (ok, rl1) = is_allowed ck a rl
      in (if ok \<and> extract_ip_from_address a = ip then 1 else 0) + allowed_count ip cs rl1)"

fun calls_between :: "clock \<Rightarrow> clock \<Rightarrow> rl_call list \<Rightarrow> bool" where
  "calls_between t t_end [] = (t \<le> t_end)"
| "calls_between t t_end ((a, ck) # cs) = (clocks_from t ck \<and> calls_between (rc_refill ck) t_end cs)"

lemma calls_between_le: "calls_between t t_end cs \<Longrightarrow> t \<le> t_end"
  by (induction cs arbitrary: t) (fastforce simp: clocks_from_def)+

lemma not_expired:
  "tb_last_refill b \<le> t \<Longrightarrow> t - tb_last_refill b < 3600000000000 \<Longrightarrow> \<not> bucket_expired t b"
  using seconds_less [of "t - tb_last_refill b" 3600]
  by (simp add: bucket_expired_def BUCKET_EXPIRY_SECONDS_def)

lemma other_bucket_kept:
  assumes "rl_enabled rl" and "distinct (map fst (rl_buckets rl))" and "j \<noteq> extract_ip_from_address a"
    and "map_of (rl_buckets rl) j = Some b" and "\<not> bucket_expired (rc_cleanup ck) b"
  shows "map_of (rl_buckets (snd (is_allowed ck a rl))) j = Some b"
  using is_allowed_enabled(2) [OF assms(1) refl, of ck a] cleanup_if_due_lookup(2) [OF assms(2,4,5)] assms(3)
  by (simp add: AList.update_conv' del: map_of_eq_Some_iff)

definition token_cost :: "rat \<Rightarrow> rat" where
  \<comment> \<open>what two roundings per call can add to a bucket of this capacity\<close>
  "token_cost burst = 2 * burst / 2 ^ 53"

lemma take_token_bound:
  assumes "bucket_ok burst t b" and "1 \<le> tb_tokens b"
  shows "fl (tb_tokens b - 1) + 1 \<le> tb_tokens b + burst / 2 ^ 53"
proof -
  have "fl (tb_tokens b - 1) \<le> (tb_tokens b - 1) * (1 + 1 / 2 ^ 53)"
    using assms(2) by (intro fl_le) simp
  also have "\<dots> = tb_tokens b - 1 + (tb_tokens b - 1) / 2 ^ 53" by (simp add: field_simps)
  also have "(tb_tokens b - 1) / 2 ^ 53 \<le> burst / 2 ^ 53"
    using assms(1) by (intro divide_right_mono) (simp_all add: bucket_ok_def)
  finally show ?thesis by simp
qed

text \<open>The potential argument: a granted call costs one token, and tokens come from the passage of
  time (and rounding) only.\<close>

lemma refill_credit:
  assumes "config_ok rl" and "bucket_ok (rl_burst_capacity rl) t b" and "t \<le> now"
  shows "tb_tokens (refill_bucket now rl b) \<le>
    tb_tokens b + rl_requests_per_second rl * of_int (now - tb_last_refill b) / 1000000000 * slack ^ 4
      + rl_burst_capacity rl / 2 ^ 53"
proof -
  let ?add = "tokens_added now rl b"
  let ?earned = "rl_requests_per_second rl * of_int (now - tb_last_refill b) / 1000000000"
  have tb: "0 \<le> tb_tokens b" "tb_tokens b \<le> rl_burst_capacity rl" "tb_last_refill b \<le> now"
    using assms(2,3) by (auto simp: bucket_ok_def)
  have add: "0 \<le> ?add" "?add \<le> ?earned * slack ^ 3"
    using tokens_added_bounds [of rl b now] assms(1) tb(3) by (simp_all add: config_ok_def)
  have "tb_tokens (refill_bucket now rl b) \<le> fl (tb_tokens b + ?add)"
    by (simp add: refill_bucket_eq)
  also have "\<dots> \<le> (tb_tokens b + ?add) * slack"
    using fl_le [of "tb_tokens b + ?add"] tb(1) add(1) by (simp add: slack_def)
  also have "\<dots> = tb_tokens b + tb_tokens b / 2 ^ 53 + ?add * slack"
    by (simp add: slack_def algebra_simps)
  also have "\<dots> \<le> tb_tokens b + rl_burst_capacity rl / 2 ^ 53 + ?earned * slack ^ 3 * slack"
    using tb(2) add(2) by (intro add_mono mult_right_mono divide_right_mono) (simp_all add: slack_def)
  finally show ?thesis by (simp add: power4_eq_xxxx power3_eq_cube mult.assoc)
qed


definition earned :: "rate_limiter \<Rightarrow> clock \<Rightarrow> rat" where
  \<comment> \<open>what the rate grants in a time, with the rounding of one refill\<close>
  "earned rl d = rl_requests_per_second rl * of_int d / 1000000000 * slack ^ 4"

lemma earned_add: "earned rl d + earned rl e = earned rl (d + e)"
  by (simp add: earned_def algebra_simps add_divide_distrib)

lemma earned_mono: "config_ok rl \<Longrightarrow> d \<le> e \<Longrightarrow> earned rl d \<le> earned rl e"
  unfolding earned_def config_ok_def
  by (intro mult_right_mono divide_right_mono mult_left_mono) (simp_all add: slack_def)

lemma earned_cong:
  "rl_requests_per_second rl = rl_requests_per_second rl' \<Longrightarrow> earned rl d = earned rl' d"
  by (simp add: earned_def)

text \<open>One call of the client itself, as it leaves its bucket.\<close>

lemma own_call:
  assumes "rl_enabled rl" and "rl_inv t rl" and "clocks_from t ck" and "ip = extract_ip_from_address a"
  obtains b' where "map_of (rl_buckets (snd (is_allowed ck a rl))) ip = Some b'"
    and "tb_last_refill b' = rc_refill ck"
    and "(if fst (is_allowed ck a rl) then 1 else 0) + tb_tokens b' \<le>
      tb_tokens (refilled ck ip rl) + rl_burst_capacity rl / 2 ^ 53"
proof -
  let ?r = "refilled ck ip rl"
  note e = is_allowed_enabled [OF assms(1,4), where ck = ck]
  have burst: "0 \<le> rl_burst_capacity rl" using assms(2) by (simp add: rl_inv_def config_ok_def)
  let ?b' = "if 1 \<le> tb_tokens ?r then ?r\<lparr>tb_tokens := fl (tb_tokens ?r - 1)\<rparr> else ?r"
  have "map_of (rl_buckets (snd (is_allowed ck a rl))) ip = Some ?b'"
    by (simp add: e(2) AList.update_conv')
  moreover have "tb_last_refill ?b' = rc_refill ck"
    by (simp add: refilled_def refill_bucket_eq)
  moreover have "(if fst (is_allowed ck a rl) then 1 else 0) + tb_tokens ?b' \<le>
      tb_tokens ?r + rl_burst_capacity rl / 2 ^ 53"
    using take_token_bound [OF refilled_ok [OF assms(2,3), of ip]] burst by (simp add: e(1) add.commute)
  ultimately show thesis by (rule that)
qed

lemma bucket_spending:
  assumes "rl_enabled rl" and "rl_inv t rl" and "calls_between t t_end cs"
    and "map_of (rl_buckets rl) ip = Some b" and "t_end - tb_last_refill b < 3600000000000"
  shows "of_nat (allowed_count ip cs rl) \<le>
    tb_tokens b + earned rl (t_end - tb_last_refill b) + of_nat (length cs) * token_cost (rl_burst_capacity rl)"
  using assms
proof (induction cs arbitrary: rl t b)
  case Nil
  have "bucket_ok (rl_burst_capacity rl) t b" using Nil(2,4) unfolding rl_inv_def by blast
  then have "0 \<le> tb_tokens b" "tb_last_refill b \<le> t_end" using Nil(3) by (auto simp: bucket_ok_def)
  with earned_mono [of rl 0 "t_end - tb_last_refill b"] Nil(2) show ?case
    by (simp add: rl_inv_def) (simp add: earned_def)
next
  case (Cons c cs)
  obtain a ck where c: "c = (a, ck)" by (cases c)
  let ?rl1 = "snd (is_allowed ck a rl)"
  have ck: "clocks_from t ck" "calls_between (rc_refill ck) t_end cs" using Cons.prems(3) c by auto
  note e = is_allowed_enabled [OF Cons.prems(1) refl, where ck = ck and a = a]
  have b: "bucket_ok (rl_burst_capacity rl) t b" "config_ok rl" "distinct (map fst (rl_buckets rl))"
    using Cons.prems(2,4) unfolding rl_inv_def by blast+
  have times: "tb_last_refill b \<le> t" "t \<le> rc_cleanup ck" "t \<le> rc_refill ck" "rc_cleanup ck \<le> t_end"
    using b(1) ck calls_between_le [OF ck(2)] by (auto simp: clocks_from_def bucket_ok_def)
  then have fresh: "\<not> bucket_expired (rc_cleanup ck) b"
    using Cons.prems(5) by (intro not_expired) auto
  note inv = is_allowed_inv [OF Cons.prems(2) ck(1), of a]
  note IH = Cons.IH [OF e(5) inv ck(2)]
  have same: "earned ?rl1 d = earned rl d" "rl_burst_capacity ?rl1 = rl_burst_capacity rl" for d
    using e(6,7) by (auto intro: earned_cong)
  have cost: "0 \<le> token_cost (rl_burst_capacity rl)"
    using b(2) by (simp add: token_cost_def config_ok_def)
  show ?case
  proof (cases "extract_ip_from_address a = ip")
    case False
    with other_bucket_kept [OF Cons.prems(1) b(3) _ Cons.prems(4) fresh, of a]
    have "map_of (rl_buckets ?rl1) ip = Some b" by metis
    from IH [OF this Cons.prems(5)] False cost show ?thesis
      by (simp add: c same case_prod_beta algebra_simps)
  next
    case True
    obtain b' where b': "map_of (rl_buckets ?rl1) ip = Some b'" "tb_last_refill b' = rc_refill ck"
      "(if fst (is_allowed ck a rl) then 1 else 0) + tb_tokens b' \<le>
        tb_tokens (refilled ck ip rl) + rl_burst_capacity rl / 2 ^ 53"
      by (rule own_call [OF Cons.prems(1,2) ck(1) True [symmetric]])
    have "refilled ck ip rl = refill_bucket (rc_refill ck) rl b"
      using cleanup_if_due_lookup(2) [OF b(3) Cons.prems(4) fresh]
      by (simp add: refilled_def find_or_create_def)
    with refill_credit [OF b(2,1) times(3)] b'(3)
    have "(if fst (is_allowed ck a rl) then 1 else 0) + tb_tokens b' \<le>
        tb_tokens b + earned rl (rc_refill ck - tb_last_refill b) + token_cost (rl_burst_capacity rl)"
      by (simp add: earned_def token_cost_def)
    moreover have "of_nat (allowed_count ip cs ?rl1) \<le>
        tb_tokens b' + earned rl (t_end - rc_refill ck) + of_nat (length cs) * token_cost (rl_burst_capacity rl)"
      using IH [OF b'(1)] b'(2) same times Cons.prems(5) by simp
    ultimately show ?thesis
      using True earned_add [of rl "rc_refill ck - tb_last_refill b" "t_end - rc_refill ck"]
      by (simp add: c case_prod_beta algebra_simps split: if_splits)
  qed
qed


lemma window_bound:
  assumes "rl_enabled rl" and "rl_inv t rl" and "calls_between t t_end cs" and "t_end - t < 3600000000000"
  shows "of_nat (allowed_count ip cs rl) \<le>
    rl_burst_capacity rl + earned rl (t_end - t) + of_nat (length cs) * token_cost (rl_burst_capacity rl)"
  using assms
proof (induction cs arbitrary: rl t)
  case Nil
  with earned_mono [of rl 0 "t_end - t"] show ?case by (simp add: rl_inv_def config_ok_def earned_def)
next
  case (Cons c cs)
  obtain a ck where c: "c = (a, ck)" by (cases c)
  let ?rl1 = "snd (is_allowed ck a rl)"
  have ck: "clocks_from t ck" "calls_between (rc_refill ck) t_end cs" using Cons.prems(3) c by auto
  note e = is_allowed_enabled [OF Cons.prems(1) refl, where ck = ck and a = a]
  have times: "t \<le> rc_refill ck" "rc_refill ck \<le> t_end"
    using ck calls_between_le by (auto simp: clocks_from_def)
  have cfg: "config_ok rl" using Cons.prems(2) by (simp add: rl_inv_def)
  note inv = is_allowed_inv [OF Cons.prems(2) ck(1), of a]
  have same: "earned ?rl1 d = earned rl d" "rl_burst_capacity ?rl1 = rl_burst_capacity rl" for d
    using e(6,7) by (auto intro: earned_cong)
  have cost: "rl_burst_capacity rl / 2 ^ 53 \<le> token_cost (rl_burst_capacity rl)"
    "0 \<le> token_cost (rl_burst_capacity rl)"
    using cfg by (simp_all add: token_cost_def config_ok_def)
  have later: "earned rl (t_end - rc_refill ck) \<le> earned rl (t_end - t)"
    using times by (intro earned_mono cfg) simp
  show ?case
  proof (cases "extract_ip_from_address a = ip")
    case False
    from Cons.IH [OF e(5) inv ck(2)] Cons.prems(4) times(1) False cost later show ?thesis
      by (simp add: c same case_prod_beta algebra_simps)
  next
    case True
    obtain b' where b': "map_of (rl_buckets ?rl1) ip = Some b'" "tb_last_refill b' = rc_refill ck"
      "(if fst (is_allowed ck a rl) then 1 else 0) + tb_tokens b' \<le>
        tb_tokens (refilled ck ip rl) + rl_burst_capacity rl / 2 ^ 53"
      by (rule own_call [OF Cons.prems(1,2) ck(1) True [symmetric]])
    have "tb_tokens (refilled ck ip rl) \<le> rl_burst_capacity rl"
      using refilled_ok [OF Cons.prems(2) ck(1), of ip] by (simp add: bucket_ok_def)
    moreover have "of_nat (allowed_count ip cs ?rl1) \<le>
        tb_tokens b' + earned rl (t_end - rc_refill ck) + of_nat (length cs) * token_cost (rl_burst_capacity rl)"
      using bucket_spending [OF e(5) inv ck(2) b'(1)] b'(2) same times Cons.prems(4) by simp
    ultimately show ?thesis
      using True b'(3) cost later by (simp add: c case_prod_beta algebra_simps split: if_splits)
  qed
qed

section \<open>Properties\<close>

definition ex_clock :: "clock \<Rightarrow> rl_clocks" where
  "ex_clock t = \<lparr>rc_now = t, rc_cleanup = t, rc_create = t, rc_refill = t\<rparr>"

definition ex_limiter :: rate_limiter where
  "ex_limiter = new_rate_limiter 0 100 2 True"

lemma ex_limiter_facts: "rl_enabled ex_limiter" "rl_inv 0 ex_limiter" "rl_burst_capacity ex_limiter = 2"
  "rl_requests_per_second ex_limiter = 100"
  using representable_of_int [of 2]
  by (simp_all add: ex_limiter_def new_rate_limiter_def rl_inv_def config_ok_def)

lemma ex_clocks_from: "t \<le> s \<Longrightarrow> clocks_from t (ex_clock s)"
  by (simp add: clocks_from_def ex_clock_def)

text \<open>C39: The token bucket law.  In any window shorter than an hour, from any state and whatever the
  other clients do, the limiter grants a client at most its burst capacity plus the rate times the
  length of the window, up to the rounding of the doubles (four roundings of the earned tokens, two
  of the bucket per call).\<close>

theorem granted_bounded:
  assumes "rl_enabled rl" and "rl_inv t rl" and "calls_between t t_end cs"
    and "t_end - t < 3600 * 1000000000"
  shows "of_nat (allowed_count ip cs rl) \<le>
    rl_burst_capacity rl
    + rl_requests_per_second rl * of_int (t_end - t) / 1000000000 * (1 + 1 / 2 ^ 53) ^ 4
    + of_nat (length cs) * (2 * rl_burst_capacity rl / 2 ^ 53)"
  using window_bound [OF assms(1-3), of ip] assms(4)
  by (simp add: earned_def slack_def token_cost_def)

theorem granted_bounded_witness:
  "allowed_count ''10.0.0.1'' [(''10.0.0.1:80'', ex_clock 0), (''10.0.0.1:81'', ex_clock 1),
     (''10.0.0.1:82'', ex_clock 2)] ex_limiter \<le> 2"
proof -
  let ?n = "allowed_count ''10.0.0.1'' [(''10.0.0.1:80'', ex_clock 0), (''10.0.0.1:81'', ex_clock 1),
     (''10.0.0.1:82'', ex_clock 2)] ex_limiter"
  have "of_nat ?n \<le> 2 + 100 * of_int 2 / 1000000000 * (1 + 1 / 2 ^ 53) ^ 4 + of_nat 3 * (2 * 2 / 2 ^ 53 :: rat)"
    using granted_bounded [OF ex_limiter_facts(1,2), of 2
        "[(''10.0.0.1:80'', ex_clock 0), (''10.0.0.1:81'', ex_clock 1), (''10.0.0.1:82'', ex_clock 2)]"
        "''10.0.0.1''"]
    by (simp add: ex_limiter_facts clocks_from_def ex_clock_def)
  also have "\<dots> < of_nat 3" by (simp add: power4_eq_xxxx)
  finally show ?thesis by (simp only: of_nat_less_iff)
qed

text \<open>Clients are independent: a call leaves every other client's bucket as it was, unless that
  bucket has been idle for an hour and is removed.\<close>

theorem clients_independent:
  assumes "distinct (map fst (rl_buckets rl))" and "j \<noteq> extract_ip_from_address a"
  shows "map_of (rl_buckets (snd (is_allowed ck a rl))) j = map_of (rl_buckets rl) j \<or>
    map_of (rl_buckets (snd (is_allowed ck a rl))) j = None \<and>
      (\<exists>b. map_of (rl_buckets rl) j = Some b \<and> 3600 \<le> duration_seconds (rc_cleanup ck - tb_last_refill b))"
proof (cases "rl_enabled rl")
  case False
  then show ?thesis by (simp add: is_allowed_def)
next
  case True
  then have "map_of (rl_buckets (snd (is_allowed ck a rl))) j = map_of (rl_buckets (cleanup_if_due ck rl)) j"
    using assms(2) is_allowed_enabled(2) [OF True refl, of ck a]
    by (simp add: AList.update_conv' del: map_of_eq_Some_iff)
  moreover have "map_of (rl_buckets (cleanup_if_due ck rl)) j = map_of (rl_buckets rl) j \<or>
      map_of (rl_buckets (cleanup_if_due ck rl)) j = None \<and>
      (\<exists>b. map_of (rl_buckets rl) j = Some b \<and> bucket_expired (rc_cleanup ck) b)"
    using cleanup_if_due_lookup [OF assms(1), where ck = ck] by (metis option.exhaust)
  ultimately show ?thesis
    by (simp only: bucket_expired_def BUCKET_EXPIRY_SECONDS_def)
qed

theorem clients_independent_witness:
  "map_of (rl_buckets (snd (is_allowed (ex_clock 5) ''10.0.0.2:80''
     (snd (is_allowed (ex_clock 0) ''10.0.0.1:80'' ex_limiter))))) ''10.0.0.1'' =
   map_of (rl_buckets (snd (is_allowed (ex_clock 0) ''10.0.0.1:80'' ex_limiter))) ''10.0.0.1''"
proof -
  let ?rl = "snd (is_allowed (ex_clock 0) ''10.0.0.1:80'' ex_limiter)"
  have ips: "extract_ip_from_address ''10.0.0.1:80'' = ''10.0.0.1''"
    "extract_ip_from_address ''10.0.0.2:80'' = ''10.0.0.2''"
    by (simp_all add: extract_ip_from_address_def)
  obtain b' where b': "map_of (rl_buckets ?rl) ''10.0.0.1'' = Some b'" "tb_last_refill b' = rc_refill (ex_clock 0)"
    by (rule own_call [OF ex_limiter_facts(1,2) ex_clocks_from [of 0 0] ips(1) [symmetric]]) auto
  have "distinct (map fst (rl_buckets ?rl))"
    using is_allowed_inv [OF ex_limiter_facts(2) ex_clocks_from [of 0 0]] by (simp add: rl_inv_def)
  from clients_independent [OF this, of "''10.0.0.1''" "''10.0.0.2:80''" "ex_clock 5"] b' ips(2)
  show ?thesis by (auto simp: ex_clock_def duration_seconds_nonneg)
qed

fun dense_calls :: "string \<Rightarrow> clock \<Rightarrow> rl_call list \<Rightarrow> bool" where
  \<comment> \<open>calls of one client, each less than a millisecond after the one before\<close>
  "dense_calls ip last_call [] = True"
| "dense_calls ip last_call ((a, ck) # cs) =
     (extract_ip_from_address a = ip \<and> clocks_from last_call ck \<and> rc_refill ck - last_call < 1000000 \<and>
      dense_calls ip (rc_refill ck) cs)"

lemma dense_refill:
  assumes "bucket_ok (rl_burst_capacity rl) t b" and "t = tb_last_refill b" and "t \<le> now" and "now - t < 1000000"
  shows "tb_tokens (refill_bucket now rl b) = tb_tokens b"
proof -
  have "duration_millis (now - t) = 0"
    using assms(3,4) by (simp add: duration_millis_nonneg)
  then have "tokens_added now rl b = 0" by (simp add: tokens_added_def assms(2))
  then show ?thesis
    using assms(1) fl_representable [of "tb_tokens b"] by (simp add: refill_bucket_eq bucket_ok_def)
qed

lemma dense_refused:
  assumes "rl_enabled rl" and "rl_inv t rl" and "map_of (rl_buckets rl) ip = Some b"
    and "tb_last_refill b = t" and "tb_tokens b < 1" and "dense_calls ip t cs"
  shows "allowed_count ip cs rl = 0"
  using assms
proof (induction cs arbitrary: rl t b)
  case (Cons c cs)
  obtain a ck where c: "c = (a, ck)" by (cases c)
  have ck: "extract_ip_from_address a = ip" "clocks_from t ck" "rc_refill ck - t < 1000000"
    "dense_calls ip (rc_refill ck) cs" using Cons.prems(6) c by auto
  note e = is_allowed_enabled [OF Cons.prems(1) ck(1) [symmetric], where ck = ck]
  have b: "bucket_ok (rl_burst_capacity rl) t b" "distinct (map fst (rl_buckets rl))"
    using Cons.prems(2,3) unfolding rl_inv_def by blast+
  have times: "t \<le> rc_cleanup ck" "rc_cleanup ck \<le> rc_refill ck" using ck(2) by (auto simp: clocks_from_def)
  then have "\<not> bucket_expired (rc_cleanup ck) b"
    using ck(3) Cons.prems(4) by (intro not_expired) auto
  from cleanup_if_due_lookup(2) [OF b(2) Cons.prems(3) this]
  have r: "refilled ck ip rl = refill_bucket (rc_refill ck) rl b"
    by (simp add: refilled_def find_or_create_def)
  then have tok: "tb_tokens (refilled ck ip rl) = tb_tokens b"
    using dense_refill [OF b(1) Cons.prems(4) [symmetric] _ ck(3)] times by simp
  with Cons.prems(5) have no: "\<not> 1 \<le> tb_tokens (refilled ck ip rl)" by simp
  have "map_of (rl_buckets (snd (is_allowed ck a rl))) ip = Some (refilled ck ip rl)"
    using no by (simp add: e(2) AList.update_conv')
  moreover have "tb_last_refill (refilled ck ip rl) = rc_refill ck" by (simp add: r refill_bucket_eq)
  ultimately have "allowed_count ip cs (snd (is_allowed ck a rl)) = 0"
    using Cons.IH [OF e(5) is_allowed_inv [OF Cons.prems(2) ck(2)]] ck(4) no by simp
  then show ?case using e(1) no by (simp add: c case_prod_beta)
qed simp

text \<open>Calls less than a millisecond apart never earn a token: the elapsed time is cut to whole
  milliseconds and the remainder is forgotten.  A client whose bucket is empty and that keeps
  calling at that pace, over any length of time, is refused every time, whatever the rate.\<close>

theorem dense_calls_starve:
  assumes "rl_enabled rl" and "rl_inv t rl" and "map_of (rl_buckets rl) ip = Some b"
    and "tb_last_refill b = t" and "tb_tokens b < 1" and "dense_calls ip t cs"
  shows "allowed_count ip cs rl = 0"
  using assms by (rule dense_refused)

theorem dense_calls_starve_witness:
  "allowed_count ''10.0.0.1'' [(''10.0.0.1:80'', ex_clock 900000), (''10.0.0.1:80'', ex_clock 1800000)]
     (ex_limiter\<lparr>rl_buckets := [(''10.0.0.1'', \<lparr>tb_tokens = 0, tb_last_refill = 0\<rparr>)]\<rparr>) = 0"
proof -
  let ?rl = "ex_limiter\<lparr>rl_buckets := [(''10.0.0.1'', \<lparr>tb_tokens = 0, tb_last_refill = 0\<rparr>)]\<rparr>"
  have "rl_inv 0 ?rl"
    using ex_limiter_facts(2) representable_of_int [of 0]
    by (simp add: rl_inv_def bucket_ok_def config_ok_def)
  with ex_limiter_facts(1) show ?thesis
    using dense_calls_starve [of ?rl 0 "''10.0.0.1''" "\<lparr>tb_tokens = 0, tb_last_refill = 0\<rparr>"
        "[(''10.0.0.1:80'', ex_clock 900000), (''10.0.0.1:80'', ex_clock 1800000)]"]
    by (simp add: clocks_from_def ex_clock_def extract_ip_from_address_def)
qed

section \<open>Every history of the limiter\<close>

definition rl_init :: "clock \<times> rate_limiter \<Rightarrow> bool" where
  "rl_init s \<longleftrightarrow> (\<exists>t rate burst en. 0 \<le> rate \<and> 0 \<le> burst \<and> representable burst \<and>
     s = (t, new_rate_limiter t rate burst en))"

inductive rl_step :: "clock \<times> rate_limiter \<Rightarrow> clock \<times> rate_limiter \<Rightarrow> bool" where
  called: "clocks_from t ck \<Longrightarrow> rl_step (t, rl) (rc_refill ck, snd (is_allowed ck a rl))"
| enabled: "rl_step (t, rl) (t, set_enabled en rl)"
| rate_set: "0 \<le> rate \<Longrightarrow> rl_step (t, rl) (t, set_rate rate rl)"
| burst_raised: "representable burst \<Longrightarrow> rl_burst_capacity rl \<le> burst \<Longrightarrow>
    rl_step (t, rl) (t, set_burst_capacity burst rl)"
| stats_reset: "rl_step (t, rl) (t, reset_stats rl)"
| cleaned: "t \<le> now \<Longrightarrow> rl_step (t, rl) (now, cleanup_expired_buckets now rl)"

inductive_cases rl_stepE: "rl_step s s'"

lemma rl_inv_later: "rl_inv t rl \<Longrightarrow> t \<le> now \<Longrightarrow> rl_inv now rl"
  unfolding rl_inv_def by (blast intro: bucket_ok_later)

lemma cleanup_inv: "rl_inv t rl \<Longrightarrow> rl_inv t (cleanup_expired_buckets now rl)"
proof -
  assume inv: "rl_inv t rl"
  then have "distinct (map fst (rl_buckets rl))" by (simp add: rl_inv_def)
  from cleanup_lookup [OF this, of now] inv show ?thesis
    unfolding rl_inv_def config_ok_def
    by (auto simp: cleanup_expired_buckets_def distinct_map_filter simp del: map_of_eq_Some_iff
        split: option.splits if_splits)
qed

interpretation rl: inductive_invariant rl_init rl_step "\<lambda>(t, rl). rl_inv t rl"
proof (unfold_locales, goal_cases)
  case (1 s)
  then show ?case by (auto simp: rl_init_def rl_inv_def config_ok_def new_rate_limiter_def)
next
  case (2 s s')
  from 2(2,1) show ?case
    by (cases rule: rl_stepE)
      (auto simp: is_allowed_inv cleanup_inv rl_inv_later,
       auto simp: rl_inv_def config_ok_def bucket_ok_def set_enabled_def set_rate_def
         set_burst_capacity_def reset_stats_def simp del: map_of_eq_Some_iff intro: order_trans)
qed

text \<open>In every history of the limiter (calls, cleanups, changes of rate, switching, a raised
  capacity) every bucket holds between zero and its capacity of tokens, never a negative number,
  and no bucket was refilled in the future.\<close>

theorem tokens_bounded:
  assumes "reachable rl_init rl_step (t, rl)" and "map_of (rl_buckets rl) ip = Some b"
  shows "0 \<le> tb_tokens b \<and> tb_tokens b \<le> rl_burst_capacity rl \<and> tb_last_refill b \<le> t"
proof -
  have "rl_inv t rl" using rl.reachable_inv [OF assms(1)] by simp
  with assms(2) have "bucket_ok (rl_burst_capacity rl) t b" unfolding rl_inv_def by blast
  then show ?thesis by (simp add: bucket_ok_def)
qed

theorem tokens_bounded_witness:
  "\<exists>b. map_of (rl_buckets (snd (is_allowed (ex_clock 0) ''h:1'' ex_limiter))) ''h'' = Some b \<and> 0 \<le> tb_tokens b"
proof -
  have "rl_init (0, ex_limiter)"
    using representable_of_int [of 2]
    unfolding rl_init_def ex_limiter_def
    by (intro exI [of _ 0] exI [of _ 100] exI [of _ 2] exI [of _ True]) simp
  then have "reachable rl_init rl_step (rc_refill (ex_clock 0), snd (is_allowed (ex_clock 0) ''h:1'' ex_limiter))"
    by (rule reachable.next_state [OF reachable.start]) (rule rl_step.called [OF ex_clocks_from], simp)
  moreover obtain b where "map_of (rl_buckets (snd (is_allowed (ex_clock 0) ''h:1'' ex_limiter))) ''h'' = Some b"
  proof -
    have "''h'' = extract_ip_from_address ''h:1''" by (simp add: extract_ip_from_address_def)
    from own_call [OF ex_limiter_facts(1,2) ex_clocks_from [of 0 0] this] that show ?thesis by blast
  qed
  ultimately show ?thesis using tokens_bounded by blast
qed

section \<open>Addresses and counters\<close>

text \<open>The port is cut off an IPv4 address, but without a port an IPv6 address loses its last group,
  so that all clients that differ only there share one bucket.\<close>

theorem extract_ip_cases:
  "(CHR '':'' \<notin> set port \<longrightarrow> extract_ip_from_address (host @ '':'' @ port) = host) \<and>
   (CHR '':'' \<notin> set host \<longrightarrow> extract_ip_from_address host = host)"
proof -
  have "extract_ip_from_address host = host" if "CHR '':'' \<notin> set host"
    using find_last_char_None [of "CHR '':''" host, THEN iffD2, OF that]
    by (simp only: extract_ip_from_address_def option.case)
  then show ?thesis
    using find_last_char_app [of "CHR '':''" port host] by (simp add: extract_ip_from_address_def)
qed

theorem extract_ip_cases_witness:
  "extract_ip_from_address ''2001:db8::1'' = extract_ip_from_address ''2001:db8::2'' \<and>
   extract_ip_from_address ''10.0.0.1'' = ''10.0.0.1''"
  using extract_ip_cases [of "''1''" "''2001:db8:''"] extract_ip_cases [of "''2''" "''2001:db8:''"]
    extract_ip_cases [of "''x''" "''10.0.0.1''"]
  by simp

end
