(* ===== verification/Thread_Pool.thy ===== *)
theory Thread_Pool
  imports Interfaces "HOL-Library.Multiset"
begin

text \<open>
  The worker threads: \<open>include/thread_pool.h\<close>, \<open>src/thread_pool.cpp\<close> (class \<open>ThreadPool\<close>).

  The pool is a state machine whose steps are the atomic pieces of the code.  \<open>tasks_\<close> is only
  touched with \<open>queue_mutex_\<close> held and \<open>shutdown_\<close> is only set with it held, so the region from
  taking the mutex to releasing it, or to the release inside \<open>condition_.wait\<close>, is one step.
  The tests of \<open>shutdown_\<close> outside the mutex and the notifications are steps of their own.
  \<^item> A worker is at the loop test, before the critical section, asleep in \<open>wait\<close>, woken (it
    must take the mutex again and re-evaluate the predicate), running a task, or has returned.
  \<^item> A client of \<open>enqueue\<close> is idle, past the test of \<open>shutdown_\<close>, or between releasing the mutex
    and \<open>notify_one\<close>.
  \<^item> One thread calls \<open>shutdown\<close>.

  \<open>tp_pushed\<close>, \<open>tp_started\<close> and \<open>tp_done\<close> are history variables: the tasks in the order they
  entered the queue, left it, and finished.  A task runs inside a \<open>packaged_task\<close>, which stores
  an exception in the future, so that finishing is the only outcome the worker sees.
\<close>

section \<open>State\<close>

datatype 't worker_pc = W_check | W_enter | W_asleep | W_woken | W_run 't | W_exit

datatype 't client_pc = C_idle | C_push 't | C_notify

datatype shutdown_pc = S_idle | S_set | S_notify | S_join | S_cleared

record 't pool =
  tp_workers :: "'t worker_pc list"
  tp_clients :: "'t client_pc list"
  tp_shutdown_pc :: shutdown_pc
  tp_tasks :: "'t list"
  tp_shutdown :: bool
  tp_pushed :: "'t list"
  tp_started :: "'t list"
  tp_done :: "'t list"

definition pool_thread_count :: "nat \<Rightarrow> nat \<Rightarrow> nat" where
  \<comment> \<open>\<open>hardware\<close> is \<open>std::thread::hardware_concurrency()\<close>, which may be 0\<close>
  "pool_thread_count thread_count hardware =
     (if thread_count = 0 then if hardware = 0 then 4 else hardware else thread_count)"

definition new_pool :: "nat \<Rightarrow> nat \<Rightarrow> nat \<Rightarrow> 't pool" where
  \<comment> \<open>with \<open>clients\<close> threads that may call \<open>enqueue\<close>\<close>
  "new_pool thread_count hardware clients =
     \<lparr>tp_workers = replicate (pool_thread_count thread_count hardware) W_check,
      tp_clients = replicate clients C_idle, tp_shutdown_pc = S_idle, tp_tasks = [],
      tp_shutdown = False, tp_pushed = [], tp_started = [], tp_done = []\<rparr>"

definition get_queue_size :: "'t pool \<Rightarrow> nat" where
  "get_queue_size s = length (tp_tasks s)"

definition get_thread_count :: "'t pool \<Rightarrow> nat" where
  \<comment> \<open>\<open>workers_.clear()\<close> ends \<open>shutdown\<close>\<close>
  "get_thread_count s = (if tp_shutdown_pc s = S_cleared then 0 else length (tp_workers s))"

definition is_shutdown :: "'t pool \<Rightarrow> bool" where
  "is_shutdown s = tp_shutdown s"

section \<open>The pieces of the code\<close>

definition set_worker :: "nat \<Rightarrow> 't worker_pc \<Rightarrow> 't pool \<Rightarrow> 't pool" where
  "set_worker i pc s = s\<lparr>tp_workers := (tp_workers s)[i := pc]\<rparr>"

definition set_client :: "nat \<Rightarrow> 't client_pc \<Rightarrow> 't pool \<Rightarrow> 't pool" where
  "set_client i pc s = s\<lparr>tp_clients := (tp_clients s)[i := pc]\<rparr>"

definition worker_check :: "nat \<Rightarrow> 't pool \<Rightarrow> 't pool" where
  \<comment> \<open>\<open>while (!shutdown_.load())\<close>\<close>
  "worker_check i s = set_worker i (if tp_shutdown s then W_exit else W_enter) s"

definition worker_section :: "nat \<Rightarrow> 't pool \<Rightarrow> 't pool" where
  \<comment> \<open>with the mutex: the predicate of \<open>wait\<close>, then \<open>break\<close> or \<open>pop\<close>\<close>
  "worker_section i s =
     (if \<not> (tp_shutdown s \<or> tp_tasks s \<noteq> []) then set_worker i W_asleep s
      else case tp_tasks s of
             [] \<Rightarrow> set_worker i W_exit s
           | t # ts \<Rightarrow> set_worker i (W_run t) (s\<lparr>tp_tasks := ts, tp_started := tp_started s @ [t]\<rparr>))"

definition worker_finish :: "nat \<Rightarrow> 't \<Rightarrow> 't pool \<Rightarrow> 't pool" where
  \<comment> \<open>\<open>task()\<close> returns\<close>
  "worker_finish i t s = set_worker i W_check (s\<lparr>tp_done := tp_done s @ [t]\<rparr>)"

definition enqueue_check :: "nat \<Rightarrow> 't \<Rightarrow> 't pool \<Rightarrow> std_error + 't pool" where
  \<comment> \<open>\<open>throw std::runtime_error("ThreadPool is shutdown")\<close>\<close>
  "enqueue_check c t s =
     (if tp_shutdown s then Inl (Runtime_error ''ThreadPool is shutdown'') else Inr (set_client c (C_push t) s))"

definition enqueue_push :: "nat \<Rightarrow> 't \<Rightarrow> 't pool \<Rightarrow> 't pool" where
  \<comment> \<open>with the mutex\<close>
  "enqueue_push c t s =
     set_client c C_notify (s\<lparr>tp_tasks := tp_tasks s @ [t], tp_pushed := tp_pushed s @ [t]\<rparr>)"

definition enqueue_notify :: "nat \<Rightarrow> nat option \<Rightarrow> 't pool \<Rightarrow> 't pool" where
  \<comment> \<open>\<open>notify_one\<close> wakes the given sleeper\<close>
  "enqueue_notify c w s =
     (let s1 = set_client c C_idle s
      in case w of None \<Rightarrow> s1 | Some i \<Rightarrow> set_worker i W_woken s1)"

definition shutdown_begin :: "'t pool \<Rightarrow> 't pool" where
  \<comment> \<open>\<open>if (!shutdown_.load())\<close>\<close>
  "shutdown_begin s = (if tp_shutdown s then s else s\<lparr>tp_shutdown_pc := S_set\<rparr>)"

definition shutdown_set :: "'t pool \<Rightarrow> 't pool" where
  "shutdown_set s = s\<lparr>tp_shutdown := True, tp_shutdown_pc := S_notify\<rparr>"

definition shutdown_notify :: "'t pool \<Rightarrow> 't pool" where
  \<comment> \<open>\<open>notify_all\<close>\<close>
  "shutdown_notify s =
     s\<lparr>tp_workers := map (\<lambda>w. if w = W_asleep then W_woken else w) (tp_workers s), tp_shutdown_pc := S_join\<rparr>"

definition shutdown_join :: "'t pool \<Rightarrow> 't pool" where
  \<comment> \<open>the joins have returned; \<open>workers_.clear()\<close>\<close>
  "shutdown_join s = s\<lparr>tp_shutdown_pc := S_cleared\<rparr>"

section \<open>Runs\<close>

text \<open>\<open>pool_work\<close> are the steps by which the pool works off what has been begun; the other three
  begin something: a call of \<open>enqueue\<close>, a call of \<open>shutdown\<close>, a spurious wake-up.\<close>

inductive pool_work :: "'t pool \<Rightarrow> 't pool \<Rightarrow> bool" where
  check: "i < length (tp_workers s) \<Longrightarrow> tp_workers s ! i = W_check \<Longrightarrow> pool_work s (worker_check i s)"
| critical: "i < length (tp_workers s) \<Longrightarrow> tp_workers s ! i \<in> {W_enter, W_woken} \<Longrightarrow>
    pool_work s (worker_section i s)"
| finish: "i < length (tp_workers s) \<Longrightarrow> tp_workers s ! i = W_run t \<Longrightarrow> pool_work s (worker_finish i t s)"
| push: "c < length (tp_clients s) \<Longrightarrow> tp_clients s ! c = C_push t \<Longrightarrow> pool_work s (enqueue_push c t s)"
| notify_none: "c < length (tp_clients s) \<Longrightarrow> tp_clients s ! c = C_notify \<Longrightarrow>
    W_asleep \<notin> set (tp_workers s) \<Longrightarrow> pool_work s (enqueue_notify c None s)"
| notify_one: "c < length (tp_clients s) \<Longrightarrow> tp_clients s ! c = C_notify \<Longrightarrow>
    i < length (tp_workers s) \<Longrightarrow> tp_workers s ! i = W_asleep \<Longrightarrow> pool_work s (enqueue_notify c (Some i) s)"
| shut_set: "tp_shutdown_pc s = S_set \<Longrightarrow> pool_work s (shutdown_set s)"
| shut_notify: "tp_shutdown_pc s = S_notify \<Longrightarrow> pool_work s (shutdown_notify s)"
| shut_join: "tp_shutdown_pc s = S_join \<Longrightarrow> \<forall>w \<in> set (tp_workers s). w = W_exit \<Longrightarrow>
    pool_work s (shutdown_join s)"

inductive pool_step :: "'t pool \<Rightarrow> 't pool \<Rightarrow> bool" where
  work: "pool_work s s' \<Longrightarrow> pool_step s s'"
| call: "c < length (tp_clients s) \<Longrightarrow> tp_clients s ! c = C_idle \<Longrightarrow> enqueue_check c t s = Inr s' \<Longrightarrow>
    pool_step s s'"
| spurious: "i < length (tp_workers s) \<Longrightarrow> tp_workers s ! i = W_asleep \<Longrightarrow>
    pool_step s (set_worker i W_woken s)"
| shut: "tp_shutdown_pc s = S_idle \<Longrightarrow> pool_step s (shutdown_begin s)"

definition pool_init :: "'t pool \<Rightarrow> bool" where
  "pool_init s \<longleftrightarrow> (\<exists>threads hardware clients. s = new_pool threads hardware clients)"

section \<open>The invariant\<close>

fun task_of :: "'t worker_pc \<Rightarrow> 't multiset" where
  "task_of (W_run t) = {#t#}"
| "task_of _ = {#}"

definition running :: "'t worker_pc list \<Rightarrow> 't multiset" where
  "running ws = sum_list (map task_of ws)"

lemma sum_list_map_update:
  fixes f :: "'a \<Rightarrow> 'b :: comm_monoid_add"
  shows "i < length xs \<Longrightarrow> sum_list (map f (xs[i := y])) + f (xs ! i) = sum_list (map f xs) + f y"
  by (induction xs arbitrary: i) (auto split: nat.split simp: add.commute add.left_commute)

lemma running_update:
  "i < length ws \<Longrightarrow> running (ws[i := w]) + task_of (ws ! i) = running ws + task_of w"
  unfolding running_def by (rule sum_list_map_update)

definition pool_inv :: "'t pool \<Rightarrow> bool" where
  "pool_inv s \<longleftrightarrow>
     tp_workers s \<noteq> [] \<and>
     tp_pushed s = tp_started s @ tp_tasks s \<and>
     mset (tp_started s) = mset (tp_done s) + running (tp_workers s) \<and>
     (tp_tasks s \<noteq> [] \<and> \<not> tp_shutdown s \<longrightarrow>
        (\<exists>w \<in> set (tp_workers s). w \<noteq> W_asleep) \<or> C_notify \<in> set (tp_clients s)) \<and>
     (tp_shutdown s \<longleftrightarrow> tp_shutdown_pc s \<in> {S_notify, S_join, S_cleared}) \<and>
     (tp_shutdown_pc s \<in> {S_join, S_cleared} \<longrightarrow> W_asleep \<notin> set (tp_workers s)) \<and>
     (tp_shutdown_pc s = S_cleared \<longrightarrow> set (tp_workers s) \<subseteq> {W_exit}) \<and>
     (W_exit \<in> set (tp_workers s) \<longrightarrow> tp_shutdown s)"

lemma pool_invD:
  assumes "pool_inv s"
  shows "tp_workers s \<noteq> []" "tp_pushed s = tp_started s @ tp_tasks s"
    "mset (tp_started s) = mset (tp_done s) + running (tp_workers s)"
    "tp_tasks s \<noteq> [] \<Longrightarrow> \<not> tp_shutdown s \<Longrightarrow>
      (\<exists>w \<in> set (tp_workers s). w \<noteq> W_asleep) \<or> C_notify \<in> set (tp_clients s)"
    "tp_shutdown s \<longleftrightarrow> tp_shutdown_pc s \<in> {S_notify, S_join, S_cleared}"
    "tp_shutdown_pc s \<in> {S_join, S_cleared} \<Longrightarrow> W_asleep \<notin> set (tp_workers s)"
    "tp_shutdown_pc s = S_cleared \<Longrightarrow> set (tp_workers s) \<subseteq> {W_exit}"
    "W_exit \<in> set (tp_workers s) \<Longrightarrow> tp_shutdown s"
  using assms unfolding pool_inv_def by blast+

lemma set_update_iff:
  "i < length xs \<Longrightarrow> y \<in> set (xs[i := x]) \<longleftrightarrow> y = x \<or> (\<exists>j < length xs. j \<noteq> i \<and> xs ! j = y)"
  by (auto simp: in_set_conv_nth nth_list_update)

text \<open>A worker moves on without a task changing hands.\<close>

lemma set_worker_inv:
  assumes inv: "pool_inv s" and i: "i < length (tp_workers s)"
    and same: "task_of (tp_workers s ! i) = task_of w"
    and sleep: "w = W_asleep \<Longrightarrow> tp_tasks s = [] \<and> \<not> tp_shutdown s"
    and exit: "w = W_exit \<Longrightarrow> tp_shutdown s" and live: "tp_workers s ! i \<noteq> W_exit"
  shows "pool_inv (set_worker i w s)"
proof -
  note I = pool_invD [OF inv]
  have "running ((tp_workers s)[i := w]) = running (tp_workers s)"
    using running_update [OF i, of w] same by simp
  moreover have "tp_shutdown_pc s \<noteq> S_cleared"
    using I(7) live nth_mem [OF i] by auto
  moreover have "W_asleep \<notin> set ((tp_workers s)[i := w])" if "tp_shutdown_pc s = S_join"
    using that sleep I(5,6) set_update_subset_insert [of "tp_workers s" i w] by auto
  moreover have "(\<exists>v \<in> set ((tp_workers s)[i := w]). v \<noteq> W_asleep)" if "tp_tasks s \<noteq> []"
    using that sleep set_update_memI [OF i, of w] by blast
  moreover have "W_exit \<in> set ((tp_workers s)[i := w]) \<Longrightarrow> tp_shutdown s"
    using exit I(8) set_update_subset_insert [of "tp_workers s" i w] by auto
  ultimately show ?thesis
    using I unfolding pool_inv_def set_worker_def by simp
qed


lemma worker_check_inv [inv_intros]:
  "pool_inv s \<Longrightarrow> i < length (tp_workers s) \<Longrightarrow> tp_workers s ! i = W_check \<Longrightarrow> pool_inv (worker_check i s)"
  unfolding worker_check_def by (intro set_worker_inv) (auto split: if_splits)

lemma pop_inv:
  assumes inv: "pool_inv s" and i: "i < length (tp_workers s)" and pc: "tp_workers s ! i \<in> {W_enter, W_woken}"
    and ts: "tp_tasks s = t # ts"
  shows "pool_inv (set_worker i (W_run t) (s\<lparr>tp_tasks := ts, tp_started := tp_started s @ [t]\<rparr>))"
proof -
  note I = pool_invD [OF inv]
  have "running ((tp_workers s)[i := W_run t]) = running (tp_workers s) + {#t#}"
    using running_update [OF i, of "W_run t"] pc by auto
  moreover have "tp_shutdown_pc s \<noteq> S_cleared" using I(7) pc nth_mem [OF i] by auto
  moreover have "W_asleep \<notin> set ((tp_workers s)[i := W_run t])" if "tp_shutdown_pc s = S_join"
    using that I(6) set_update_subset_insert [of "tp_workers s" i "W_run t"] by auto
  moreover have "\<exists>v \<in> set ((tp_workers s)[i := W_run t]). v \<noteq> W_asleep"
    using set_update_memI [OF i, of "W_run t"] by blast
  moreover have "W_exit \<in> set ((tp_workers s)[i := W_run t]) \<Longrightarrow> tp_shutdown s"
    using I(8) set_update_subset_insert [of "tp_workers s" i "W_run t"] by auto
  ultimately show ?thesis
    using I(1-3,5) ts unfolding pool_inv_def set_worker_def by simp
qed

lemma worker_section_inv [inv_intros]:
  assumes "pool_inv s" and "i < length (tp_workers s)" and "tp_workers s ! i \<in> {W_enter, W_woken}"
  shows "pool_inv (worker_section i s)"
proof -
  have "task_of (tp_workers s ! i) = {#}" "tp_workers s ! i \<noteq> W_exit" using assms(3) by auto
  then have "tp_tasks s = [] \<Longrightarrow> \<not> tp_shutdown s \<Longrightarrow> pool_inv (set_worker i W_asleep s)"
    "tp_shutdown s \<Longrightarrow> pool_inv (set_worker i W_exit s)"
    by (auto intro: set_worker_inv [OF assms(1,2)])
  with pop_inv [OF assms] show ?thesis
    unfolding worker_section_def by (auto split: list.split)
qed

lemma worker_finish_inv [inv_intros]:
  assumes inv: "pool_inv s" and i: "i < length (tp_workers s)" and pc: "tp_workers s ! i = W_run t"
  shows "pool_inv (worker_finish i t s)"
proof -
  note I = pool_invD [OF inv]
  have "running ((tp_workers s)[i := W_check]) + {#t#} = running (tp_workers s)"
    using running_update [OF i, of W_check] pc by simp
  then have "mset (tp_started s) = mset (tp_done s) + {#t#} + running ((tp_workers s)[i := W_check])"
    using I(3) by (metis add.assoc add.commute)
  moreover have "tp_shutdown_pc s \<noteq> S_cleared" using I(7) pc nth_mem [OF i] by auto
  moreover have "W_asleep \<notin> set ((tp_workers s)[i := W_check])" if "tp_shutdown_pc s = S_join"
    using that I(6) set_update_subset_insert [of "tp_workers s" i W_check] by auto
  moreover have "\<exists>v \<in> set ((tp_workers s)[i := W_check]). v \<noteq> W_asleep"
    using set_update_memI [OF i, of W_check] by blast
  moreover have "W_exit \<in> set ((tp_workers s)[i := W_check]) \<Longrightarrow> tp_shutdown s"
    using I(8) set_update_subset_insert [of "tp_workers s" i W_check] by auto
  ultimately show ?thesis
    using I(1,2,5) unfolding pool_inv_def set_worker_def worker_finish_def by simp
qed

text \<open>A client moves on; the pending notification of another one stays pending.\<close>

lemma set_client_inv:
  assumes inv: "pool_inv s" and c: "c < length (tp_clients s)"
    and quiet: "tp_clients s ! c = C_notify \<Longrightarrow> W_asleep \<notin> set (tp_workers s)"
  shows "pool_inv (set_client c pc s)"
proof -
  note I = pool_invD [OF inv]
  have "(\<exists>w \<in> set (tp_workers s). w \<noteq> W_asleep) \<or> C_notify \<in> set ((tp_clients s)[c := pc])"
    if "tp_tasks s \<noteq> []" "\<not> tp_shutdown s"
  proof (cases "tp_clients s ! c = C_notify")
    case True
    with quiet I(1) show ?thesis by (cases "tp_workers s") auto
  next
    case False
    have "C_notify \<in> set ((tp_clients s)[c := pc])" if "C_notify \<in> set (tp_clients s)"
      using that False unfolding set_update_iff [OF c] by (auto simp: in_set_conv_nth)
    with I(4) [OF that] show ?thesis by blast
  qed
  then show ?thesis using I unfolding pool_inv_def set_client_def by simp
qed

lemma enqueue_check_inv [inv_intros]:
  "pool_inv s \<Longrightarrow> c < length (tp_clients s) \<Longrightarrow> tp_clients s ! c = C_idle \<Longrightarrow>
   enqueue_check c t s = Inr s' \<Longrightarrow> pool_inv s'"
  using set_client_inv [of s c "C_push t"] by (auto simp: enqueue_check_def split: if_splits)

lemma enqueue_push_inv [inv_intros]:
  assumes "pool_inv s" and "c < length (tp_clients s)"
  shows "pool_inv (enqueue_push c t s)"
  using pool_invD [OF assms(1)] set_update_memI [OF assms(2), of C_notify]
  unfolding pool_inv_def enqueue_push_def set_client_def by simp

lemma enqueue_notify_inv [inv_intros]:
  assumes inv: "pool_inv s" and c: "c < length (tp_clients s)" and pc: "tp_clients s ! c = C_notify"
  shows "W_asleep \<notin> set (tp_workers s) \<Longrightarrow> pool_inv (enqueue_notify c None s)"
    and "i < length (tp_workers s) \<Longrightarrow> tp_workers s ! i = W_asleep \<Longrightarrow> pool_inv (enqueue_notify c (Some i) s)"
proof -
  show "pool_inv (enqueue_notify c None s)" if "W_asleep \<notin> set (tp_workers s)"
    using set_client_inv [OF inv c] that by (simp add: enqueue_notify_def Let_def)
  show "pool_inv (enqueue_notify c (Some i) s)"
    if i: "i < length (tp_workers s)" and w: "tp_workers s ! i = W_asleep"
  proof -
    have "pool_inv (set_worker i W_woken s)"
      using w by (intro set_worker_inv [OF inv i]) auto
    from pool_invD [OF this] show ?thesis
      using set_update_memI [OF i, of W_woken]
      unfolding pool_inv_def enqueue_notify_def set_client_def set_worker_def by auto
  qed
qed

lemma shutdown_inv [inv_intros]:
  assumes "pool_inv s"
  shows "tp_shutdown_pc s = S_idle \<Longrightarrow> pool_inv (shutdown_begin s)"
    and "tp_shutdown_pc s = S_set \<Longrightarrow> pool_inv (shutdown_set s)"
    and "tp_shutdown_pc s = S_notify \<Longrightarrow> pool_inv (shutdown_notify s)"
    and "tp_shutdown_pc s = S_join \<Longrightarrow> \<forall>w \<in> set (tp_workers s). w = W_exit \<Longrightarrow> pool_inv (shutdown_join s)"
proof -
  note I = pool_invD [OF assms]
  show "pool_inv (shutdown_begin s)" if "tp_shutdown_pc s = S_idle"
    using I that unfolding pool_inv_def shutdown_begin_def by auto
  show "pool_inv (shutdown_set s)" if "tp_shutdown_pc s = S_set"
    using I that unfolding pool_inv_def shutdown_set_def by auto
  have "running (map (\<lambda>w. if w = W_asleep then W_woken else w) ws) = running ws" for ws :: "'a worker_pc list"
    by (induction ws) (auto simp: running_def)
  with I show "pool_inv (shutdown_notify s)" if "tp_shutdown_pc s = S_notify"
    using that unfolding pool_inv_def shutdown_notify_def by auto
  show "pool_inv (shutdown_join s)" if "tp_shutdown_pc s = S_join" "\<forall>w \<in> set (tp_workers s). w = W_exit"
    using I that unfolding pool_inv_def shutdown_join_def by auto
qed

lemma new_pool_inv: "pool_inv (new_pool threads hardware clients)"
proof -
  have "running (replicate n W_check) = ({#} :: 'a multiset)" for n
    by (induction n) (simp_all add: running_def)
  then show ?thesis
    by (auto simp: pool_inv_def new_pool_def pool_thread_count_def)
qed

lemma pool_work_inv: "pool_work s s' \<Longrightarrow> pool_inv s \<Longrightarrow> pool_inv s'"
  by (induction rule: pool_work.induct) (auto intro: inv_intros)

interpretation pool: inductive_invariant pool_init pool_step pool_inv
proof (unfold_locales, goal_cases)
  case (1 s)
  then show ?case by (auto simp: pool_init_def new_pool_inv)
next
  case (2 s s')
  from 2(2,1) show ?case
    by (induction rule: pool_step.induct)
      (auto intro: inv_intros pool_work_inv set_worker_inv)
qed

section \<open>Progress\<close>

fun worker_rank :: "'t worker_pc \<Rightarrow> nat" where
  "worker_rank W_asleep = 0"
| "worker_rank W_exit = 0"
| "worker_rank W_enter = 1"
| "worker_rank W_woken = 1"
| "worker_rank W_check = 2"
| "worker_rank (W_run _) = 3"

fun client_rank :: "'t client_pc \<Rightarrow> nat" where
  "client_rank C_idle = 0"
| "client_rank C_notify = 2"
| "client_rank (C_push _) = 7"

fun shutdown_rank :: "nat \<Rightarrow> shutdown_pc \<Rightarrow> nat" where
  "shutdown_rank n S_idle = 0"
| "shutdown_rank n S_set = n + 3"
| "shutdown_rank n S_notify = n + 2"
| "shutdown_rank n S_join = 1"
| "shutdown_rank n S_cleared = 0"

definition pool_rank :: "'t pool \<Rightarrow> nat" where
  "pool_rank s = 4 * length (tp_tasks s) + sum_list (map worker_rank (tp_workers s)) +
     sum_list (map client_rank (tp_clients s)) + shutdown_rank (length (tp_workers s)) (tp_shutdown_pc s)"

lemma rank_update:
  "i < length ws \<Longrightarrow> sum_list (map worker_rank (ws[i := w])) + worker_rank (ws ! i)
     = sum_list (map worker_rank ws) + worker_rank w"
  "c < length cs \<Longrightarrow> sum_list (map client_rank (cs[c := pc])) + client_rank (cs ! c)
     = sum_list (map client_rank cs) + client_rank pc"
  by (rule sum_list_map_update; assumption)+

lemma wake_all_rank:
  "sum_list (map worker_rank (map (\<lambda>w. if w = W_asleep then W_woken else w) ws))
     \<le> sum_list (map worker_rank ws) + length ws"
  by (induction ws) auto

lemma pool_work_rank: "pool_work s s' \<Longrightarrow> pool_rank s' < pool_rank s"
proof (induction rule: pool_work.induct)
  case (check i s)
  then show ?case
    using rank_update(1) [of i "tp_workers s" W_exit] rank_update(1) [of i "tp_workers s" W_enter]
    by (simp add: pool_rank_def worker_check_def set_worker_def)
next
  case (critical i s)
  then have "worker_rank (tp_workers s ! i) = 1" by auto
  with critical rank_update(1) [of i "tp_workers s" W_asleep] rank_update(1) [of i "tp_workers s" W_exit]
    rank_update(1) [of i "tp_workers s" "W_run (hd (tp_tasks s))"]
  show ?case by (auto simp: pool_rank_def worker_section_def set_worker_def split: list.split)
next
  case (finish i s t)
  then show ?case using rank_update(1) [of i "tp_workers s" W_check]
    by (simp add: pool_rank_def worker_finish_def set_worker_def)
next
  case (push c s t)
  then show ?case using rank_update(2) [of c "tp_clients s" C_notify]
    by (simp add: pool_rank_def enqueue_push_def set_client_def)
next
  case (notify_none c s)
  then show ?case using rank_update(2) [of c "tp_clients s" C_idle]
    by (simp add: pool_rank_def enqueue_notify_def set_client_def)
next
  case (notify_one c s i)
  then show ?case
    using rank_update(2) [of c "tp_clients s" C_idle] rank_update(1) [of i "tp_workers s" W_woken]
    by (simp add: pool_rank_def enqueue_notify_def set_client_def set_worker_def)
next
  case (shut_notify s)
  then show ?case using wake_all_rank [of "tp_workers s"]
    by (simp add: pool_rank_def shutdown_notify_def)
qed (simp_all add: pool_rank_def shutdown_set_def shutdown_join_def)


definition settled :: "'t pool \<Rightarrow> bool" where
  "settled s \<longleftrightarrow> (\<nexists>s'. pool_work s s')"

lemma settled_workers:
  assumes "settled s"
  shows "set (tp_workers s) \<subseteq> {W_asleep, W_exit}" "set (tp_clients s) \<subseteq> {C_idle}"
    "tp_shutdown_pc s \<noteq> S_set" "tp_shutdown_pc s \<noteq> S_notify"
proof -
  show "set (tp_workers s) \<subseteq> {W_asleep, W_exit}"
  proof
    fix w assume "w \<in> set (tp_workers s)"
    then obtain i where i: "i < length (tp_workers s)" "tp_workers s ! i = w" by (auto simp: in_set_conv_nth)
    with assms pool_work.check [of i s] pool_work.critical [of i s] pool_work.finish [of i s]
    show "w \<in> {W_asleep, W_exit}" unfolding settled_def by (cases w) auto
  qed
  show "set (tp_clients s) \<subseteq> {C_idle}"
  proof
    fix pc assume "pc \<in> set (tp_clients s)"
    then obtain c where c: "c < length (tp_clients s)" "tp_clients s ! c = pc" by (auto simp: in_set_conv_nth)
    have "pc \<noteq> C_notify"
    proof
      assume pc: "pc = C_notify"
      show False
      proof (cases "W_asleep \<in> set (tp_workers s)")
        case True
        then obtain i where "i < length (tp_workers s)" "tp_workers s ! i = W_asleep"
          by (auto simp: in_set_conv_nth)
        with c pc assms pool_work.notify_one [of c s i] show False unfolding settled_def by blast
      next
        case False
        with c pc assms pool_work.notify_none [of c s] show False unfolding settled_def by blast
      qed
    qed
    with c assms pool_work.push [of c s] show "pc \<in> {C_idle}" unfolding settled_def by (cases pc) auto
  qed
  show "tp_shutdown_pc s \<noteq> S_set" "tp_shutdown_pc s \<noteq> S_notify"
    using assms pool_work.shut_set [of s] pool_work.shut_notify [of s] unfolding settled_def by blast+
qed

lemma running_idle: "set ws \<subseteq> {W_asleep, W_exit} \<Longrightarrow> running ws = {#}"
  by (induction ws) (auto simp: running_def)

lemma no_infinite_work: "\<not> (\<forall>n. pool_work (f n) (f (Suc n)))"
proof
  assume "\<forall>n. pool_work (f n) (f (Suc n))"
  then have dec: "pool_rank (f (Suc n)) < pool_rank (f n)" for n using pool_work_rank by blast
  have "pool_rank (f n) + n \<le> pool_rank (f 0)" for n
  proof (induction n)
    case (Suc n)
    with dec [of n] show ?case by simp
  qed simp
  from this [of "Suc (pool_rank (f 0))"] show False by simp
qed

lemma pool_inv_reachable: "reachable pool_init pool_step s \<Longrightarrow> pool_work\<^sup>*\<^sup>* s s' \<Longrightarrow> pool_inv s'"
proof -
  assume r: "reachable pool_init pool_step s" and w: "pool_work\<^sup>*\<^sup>* s s'"
  have "pool_step\<^sup>*\<^sup>* s s'" using w
    by (induction rule: rtranclp_induct) (auto intro: pool_step.work rtranclp.rtrancl_into_rtrancl)
  from pool.reachable_inv [OF reachable_rtranclp [OF r this]] show "pool_inv s'" .
qed

definition ex_pool :: "nat worker_pc list \<Rightarrow> nat client_pc list \<Rightarrow> nat list \<Rightarrow> nat pool" where
  "ex_pool ws cs q = \<lparr>tp_workers = ws, tp_clients = cs, tp_shutdown_pc = S_idle, tp_tasks = q,
     tp_shutdown = False, tp_pushed = q, tp_started = [], tp_done = []\<rparr>"

lemma ex_pool_start: "reachable pool_init pool_step (ex_pool [W_check] [C_idle] [])"
proof (rule reachable.start)
  have "ex_pool [W_check] [C_idle] [] = new_pool 1 0 1"
    by (simp add: ex_pool_def new_pool_def pool_thread_count_def)
  then show "pool_init (ex_pool [W_check] [C_idle] [])" by (auto simp: pool_init_def)
qed

lemma settled_idle:
  assumes "settled s" and "\<not> tp_shutdown s" and "pool_inv s"
  shows "mset (tp_done s) = mset (tp_pushed s) \<and> tp_tasks s = [] \<and> set (tp_workers s) = {W_asleep} \<and>
    set (tp_clients s) \<subseteq> {C_idle}"
proof -
  note I = pool_invD [OF assms(3)] and W = settled_workers [OF assms(1)]
  have asleep: "set (tp_workers s) = {W_asleep}" using W(1) I(1,8) assms(2) by (cases "tp_workers s") auto
  then have "tp_tasks s = []" using I(4) [OF _ assms(2)] W(2) by auto
  with I(2,3) running_idle [OF W(1)] W(2) asleep show ?thesis by simp
qed

definition ex_down :: "nat pool \<Rightarrow> nat pool" where
  \<comment> \<open>a whole shutdown of a pool with one worker, which is at its loop test\<close>
  "ex_down s = shutdown_join (shutdown_notify (worker_check 0 (shutdown_set (shutdown_begin s))))"

lemmas pool_piece_defs = ex_pool_def enqueue_push_def enqueue_notify_def worker_check_def
  worker_section_def worker_finish_def set_worker_def set_client_def shutdown_begin_def
  shutdown_set_def shutdown_notify_def shutdown_join_def ex_down_def

lemma ex_called: "reachable pool_init pool_step (ex_pool [W_check] [C_push 7] [])"
  by (rule reachable.next_state [OF ex_pool_start], rule pool_step.call [where c = 0 and t = 7])
    (simp_all add: ex_pool_def enqueue_check_def set_client_def)

lemma ex_pushed: "reachable pool_init pool_step (enqueue_push 0 7 (ex_pool [W_check] [C_push 7] []))"
  by (rule reachable.next_state [OF ex_called], intro pool_step.work pool_work.push)
    (simp_all add: pool_piece_defs)

lemma ex_down_reachable:
  assumes "reachable pool_init pool_step s" and "tp_workers s = [W_check]" and "tp_shutdown_pc s = S_idle"
    and "\<not> tp_shutdown s"
  shows "reachable pool_init pool_step (ex_down s)"
proof -
  note facts = pool_piece_defs assms(2-4)
  have "reachable pool_init pool_step (shutdown_begin s)"
    by (rule reachable.next_state [OF assms(1)], rule pool_step.shut) (rule assms(3))
  then have "reachable pool_init pool_step (shutdown_set (shutdown_begin s))"
    by (rule reachable.next_state, intro pool_step.work pool_work.shut_set) (simp add: facts)
  then have "reachable pool_init pool_step (worker_check 0 (shutdown_set (shutdown_begin s)))"
    by (rule reachable.next_state, intro pool_step.work pool_work.check) (simp_all add: facts)
  then have "reachable pool_init pool_step (shutdown_notify (worker_check 0 (shutdown_set (shutdown_begin s))))"
    by (rule reachable.next_state, intro pool_step.work pool_work.shut_notify) (simp add: facts)
  then show ?thesis unfolding ex_down_def
    by (rule reachable.next_state, intro pool_step.work pool_work.shut_join) (simp_all add: facts)
qed

section \<open>Properties\<close>

text \<open>C37: No lost wake-up, no deadlock.  From every reachable state the work at hand runs out (tasks
  returning), and if the pool has not been shut down by then, every task ever accepted has been run
  exactly once and all workers sleep on an empty queue.  So a task is never left in the queue with
  every worker asleep, however checks, pushes, notifications and wake-ups interleave.\<close>

theorem accepted_tasks_run:
  assumes "reachable pool_init pool_step s"
  shows "\<not> (\<exists>f. f 0 = s \<and> (\<forall>n. pool_work (f n) (f (Suc n)))) \<and>
    (\<forall>s'. pool_work\<^sup>*\<^sup>* s s' \<and> settled s' \<and> \<not> tp_shutdown s' \<longrightarrow>
      mset (tp_done s') = mset (tp_pushed s') \<and> tp_tasks s' = [] \<and>
      set (tp_workers s') = {W_asleep} \<and> set (tp_clients s') \<subseteq> {C_idle})"
  using no_infinite_work settled_idle [OF _ _ pool_inv_reachable [OF assms]] by blast

theorem accepted_tasks_run_witness:
  "\<exists>s'. pool_work\<^sup>*\<^sup>* (ex_pool [W_check] [C_push 7] []) s' \<and> settled s' \<and> tp_done s' = [7]"
proof -
  let ?s0 = "ex_pool [W_check] [C_push 7] []"
  let ?s2 = "enqueue_notify 0 None (enqueue_push 0 7 ?s0)"
  let ?s5 = "worker_finish 0 7 (worker_section 0 (worker_check 0 ?s2))"
  let ?s7 = "worker_section 0 (worker_check 0 ?s5)"
  note defs = pool_piece_defs
  have "pool_work ?s0 (enqueue_push 0 7 ?s0)" by (rule pool_work.push) (simp_all add: defs)
  moreover have "pool_work (enqueue_push 0 7 ?s0) ?s2" by (rule pool_work.notify_none) (simp_all add: defs)
  moreover have "pool_work ?s2 (worker_check 0 ?s2)" by (rule pool_work.check) (simp_all add: defs)
  moreover have "pool_work (worker_check 0 ?s2) (worker_section 0 (worker_check 0 ?s2))"
    by (rule pool_work.critical) (simp_all add: defs)
  moreover have "pool_work (worker_section 0 (worker_check 0 ?s2)) ?s5"
    by (rule pool_work.finish) (simp_all add: defs)
  moreover have "pool_work ?s5 (worker_check 0 ?s5)" by (rule pool_work.check) (simp_all add: defs)
  moreover have "pool_work (worker_check 0 ?s5) ?s7" by (rule pool_work.critical) (simp_all add: defs)
  ultimately have run: "pool_work\<^sup>*\<^sup>* ?s0 ?s7" by (meson converse_rtranclp_into_rtranclp rtranclp.rtrancl_refl)
  have s7: "?s7 = (ex_pool [W_asleep] [C_idle] [])\<lparr>tp_pushed := [7], tp_started := [7], tp_done := [7]\<rparr>"
    by (simp add: defs)
  have "settled ?s7" unfolding s7 settled_def by (auto simp: ex_pool_def elim: pool_work.cases)
  with accepted_tasks_run [OF ex_called] run have "mset (tp_done ?s7) = mset (tp_pushed ?s7)"
    by (metis (no_types, lifting) pool.select_convs(5) pool.update_convs(6-8) s7 ex_pool_def)
  with run \<open>settled ?s7\<close> show ?thesis by (intro exI [of _ ?s7]) (simp add: s7)
qed

text \<open>C38: Tasks are taken in the order they were accepted, each at most once: the tasks started are a
  prefix of the tasks accepted, what is finished or running was started, and nothing runs twice.\<close>

theorem tasks_fifo_once:
  assumes "reachable pool_init pool_step s"
  shows "tp_pushed s = tp_started s @ tp_tasks s \<and>
    mset (tp_started s) = mset (tp_done s) + running (tp_workers s)"
  using pool_invD(2,3) [OF pool.reachable_inv [OF assms]] by blast

theorem tasks_fifo_once_witness:
  "tp_pushed (enqueue_push 0 7 (ex_pool [W_check] [C_push 7] [])) = [7] \<and>
   [7] = tp_started (enqueue_push 0 7 (ex_pool [W_check] [C_push 7] [])) @ [7]"
  using tasks_fifo_once [OF ex_pushed] by (simp add: pool_piece_defs)

text \<open>A shutdown ends: once \<open>shutdown\<close> has been called, every way the work at hand runs out ends with
  all workers returned, the joins done and the workers cleared, so that neither \<open>shutdown\<close> nor the
  destructor hangs; what is left in the queue then was accepted and never run.\<close>

theorem shutdown_completes:
  assumes "reachable pool_init pool_step s" and "pool_work\<^sup>*\<^sup>* s s'" and "settled s'"
    and "tp_shutdown_pc s' \<noteq> S_idle"
  shows "tp_shutdown_pc s' = S_cleared \<and> set (tp_workers s') = {W_exit} \<and> get_thread_count s' = 0 \<and>
    mset (tp_pushed s') = mset (tp_done s') + mset (tp_tasks s')"
proof -
  note I = pool_invD [OF pool_inv_reachable [OF assms(1,2)]] and W = settled_workers [OF assms(3)]
  have pc: "tp_shutdown_pc s' \<in> {S_join, S_cleared}" using W(3,4) assms(4) by (cases "tp_shutdown_pc s'") auto
  then have exit: "set (tp_workers s') = {W_exit}" using W(1) I(1,6) by (cases "tp_workers s'") auto
  then have "tp_shutdown_pc s' \<noteq> S_join"
    using assms(3) pool_work.shut_join [of s'] unfolding settled_def by auto
  with pc have "tp_shutdown_pc s' = S_cleared" by simp
  with exit I(2,3) running_idle [OF W(1)] show ?thesis by (simp add: get_thread_count_def)
qed

theorem shutdown_completes_witness:
  "set (tp_workers (ex_down (ex_pool [W_check] [C_idle] []))) = {W_exit} \<and>
   get_thread_count (ex_down (ex_pool [W_check] [C_idle] [])) = 0"
proof -
  let ?s = "ex_down (ex_pool [W_check] [C_idle] [])"
  have "reachable pool_init pool_step ?s"
    by (rule ex_down_reachable [OF ex_pool_start]) (simp_all add: ex_pool_def)
  moreover have "settled ?s" unfolding settled_def by (auto simp: pool_piece_defs elim: pool_work.cases)
  moreover have "tp_shutdown_pc ?s \<noteq> S_idle" by (simp add: pool_piece_defs)
  ultimately show ?thesis using shutdown_completes [of ?s ?s] by blast
qed

text \<open>Shutting down drops the queue: although the critical section only breaks on an empty queue, the
  loop test leaves as soon as the flag is set, so an accepted task can stay in the queue of a pool
  whose threads have all been joined; and a task whose caller passed the test of \<open>shutdown_\<close> in
  time can be accepted after that.\<close>

theorem shutdown_drops_tasks:
  "(\<exists>s. reachable pool_init pool_step s \<and> tp_shutdown_pc s = S_cleared \<and> tp_tasks s = [7 :: nat] \<and> tp_done s = []) \<and>
   (\<exists>s. reachable pool_init pool_step s \<and> tp_shutdown_pc s = S_cleared \<and>
      pool_work s (enqueue_push 0 (7 :: nat) s) \<and> settled (enqueue_notify 0 None (enqueue_push 0 7 s)) \<and>
      tp_tasks (enqueue_notify 0 None (enqueue_push 0 7 s)) = [7])"
proof -
  let ?s1 = "ex_pool [W_check] [C_push 7] []" and ?s2 = "enqueue_push 0 7 (ex_pool [W_check] [C_push 7] [])"
  have "reachable pool_init pool_step (ex_down ?s2)" "reachable pool_init pool_step (ex_down ?s1)"
    by (rule ex_down_reachable [OF ex_pushed] ex_down_reachable [OF ex_called]; simp add: pool_piece_defs)+
  moreover have "tp_shutdown_pc (ex_down ?s2) = S_cleared \<and> tp_tasks (ex_down ?s2) = [7] \<and> tp_done (ex_down ?s2) = []"
    by (simp add: pool_piece_defs)
  moreover have "pool_work (ex_down ?s1) (enqueue_push 0 7 (ex_down ?s1))"
    by (rule pool_work.push) (simp_all add: pool_piece_defs)
  moreover have "settled (enqueue_notify 0 None (enqueue_push 0 7 (ex_down ?s1)))"
    unfolding settled_def by (auto simp: pool_piece_defs elim: pool_work.cases)
  moreover have "tp_shutdown_pc (ex_down ?s1) = S_cleared"
    "tp_tasks (enqueue_notify 0 None (enqueue_push 0 7 (ex_down ?s1))) = [7]"
    by (simp_all add: pool_piece_defs)
  ultimately show ?thesis by blast
qed

end
