(* ===== verification/Epoll_Wrapper.thy ===== *)
theory Epoll_Wrapper
  imports Interfaces
begin

text \<open>
  The event queue: \<open>include/epoll_wrapper.h\<close>, \<open>src/epoll_wrapper.cpp\<close> (class
  \<open>EpollWrapper\<close>).  The kernel is outside: what a system call returns is an argument, an error
  number or a value.  \<open>fd_data_\<close> is an association list with distinct keys, a \<open>void*\<close> a \<open>nat option\<close>
  whose \<open>None\<close> is the null pointer.
\<close>

section \<open>Error numbers and event masks\<close>

datatype errno = EAGAIN | EINTR | EPIPE | ECONNRESET | EBADF | ENOENT | ENOMEM | ENOSPC | EMFILE | Errno nat
  \<comment> \<open>\<open>EWOULDBLOCK\<close> is \<open>EAGAIN\<close> on Linux\<close>

definition EPOLLIN :: u32 where "EPOLLIN = 1"
definition EPOLLOUT :: u32 where "EPOLLOUT = 4"
definition EPOLLERR :: u32 where "EPOLLERR = 8"
definition EPOLLHUP :: u32 where "EPOLLHUP = 16"

definition MAX_EVENTS :: nat where
  "MAX_EVENTS = 1024"

section \<open>State and operations\<close>

record epoll_wrapper =
  ew_epoll_fd :: int
  ew_fd_data :: "(int \<times> nat) list"
  ew_event_handler :: "nat option"

record epoll_report =
  ev_fd :: int
  ev_events :: u32
  ev_data :: "nat option"

definition new_epoll_wrapper :: epoll_wrapper where
  "new_epoll_wrapper = \<lparr>ew_epoll_fd = - 1, ew_fd_data = [], ew_event_handler = None\<rparr>"

definition epoll_destroy :: "epoll_wrapper \<Rightarrow> int option" where
  \<comment> \<open>the descriptor the destructor closes\<close>
  "epoll_destroy ep = (if ew_epoll_fd ep \<noteq> - 1 then Some (ew_epoll_fd ep) else None)"

definition epoll_init :: "errno + int \<Rightarrow> epoll_wrapper \<Rightarrow> bool \<times> epoll_wrapper" where
  \<comment> \<open>the argument is what \<open>epoll_create1\<close> returns\<close>
  "epoll_init created ep =
     (case created of
        Inl _ \<Rightarrow> (False, ep\<lparr>ew_epoll_fd := - 1\<rparr>)
      | Inr fd \<Rightarrow> (True, ep\<lparr>ew_epoll_fd := fd\<rparr>))"

definition store_data :: "int \<Rightarrow> nat option \<Rightarrow> epoll_wrapper \<Rightarrow> epoll_wrapper" where
  "store_data fd data ep =
     (case data of None \<Rightarrow> ep | Some p \<Rightarrow> ep\<lparr>ew_fd_data := AList.update fd p (ew_fd_data ep)\<rparr>)"

definition add_fd :: "errno option \<Rightarrow> int \<Rightarrow> nat option \<Rightarrow> epoll_wrapper \<Rightarrow> bool \<times> epoll_wrapper" where
  \<comment> \<open>the first argument is what \<open>epoll_ctl\<close> returns; the mask goes to the kernel\<close>
  "add_fd ctl fd data ep = (case ctl of Some _ \<Rightarrow> (False, ep) | None \<Rightarrow> (True, store_data fd data ep))"

definition modify_fd :: "errno option \<Rightarrow> int \<Rightarrow> nat option \<Rightarrow> epoll_wrapper \<Rightarrow> bool \<times> epoll_wrapper" where
  "modify_fd ctl fd data ep = (case ctl of Some _ \<Rightarrow> (False, ep) | None \<Rightarrow> (True, store_data fd data ep))"

definition remove_fd :: "errno option \<Rightarrow> int \<Rightarrow> epoll_wrapper \<Rightarrow> bool \<times> epoll_wrapper" where
  \<comment> \<open>the data goes whether or not \<open>epoll_ctl\<close> succeeds\<close>
  "remove_fd ctl fd ep = (ctl = None, ep\<lparr>ew_fd_data := AList.delete fd (ew_fd_data ep)\<rparr>)"

definition wait_for_events ::
    "errno + (int \<times> u32) list \<Rightarrow> epoll_report list \<Rightarrow> epoll_wrapper \<Rightarrow> int \<times> epoll_report list" where
  \<comment> \<open>the result and the caller's vector, which keeps its old content on an error; \<open>epoll_wait\<close>
      reports at most \<open>MAX_EVENTS\<close> events\<close>
  "wait_for_events waited events ep =
     (case waited of
        Inl _ \<Rightarrow> (- 1, events)
      | Inr raw \<Rightarrow>
          (int (length raw),
           map (\<lambda>(fd, mask). \<lparr>ev_fd = fd, ev_events = mask, ev_data = map_of (ew_fd_data ep) fd\<rparr>) raw))"

definition set_non_blocking :: "errno + int \<Rightarrow> errno option \<Rightarrow> bool" where
  \<comment> \<open>what \<open>F_GETFL\<close> and \<open>F_SETFL\<close> return\<close>
  "set_non_blocking getfl setfl = (case getfl of Inl _ \<Rightarrow> False | Inr _ \<Rightarrow> setfl = None)"

definition set_event_handler :: "nat \<Rightarrow> epoll_wrapper \<Rightarrow> epoll_wrapper" where
  "set_event_handler h ep = ep\<lparr>ew_event_handler := Some h\<rparr>"

section \<open>The data that comes with an event\<close>

datatype epoll_call =
    Call_add "errno option" int "nat option"
  | Call_modify "errno option" int "nat option"
  | Call_remove "errno option" int

fun apply_call :: "epoll_call \<Rightarrow> epoll_wrapper \<Rightarrow> epoll_wrapper" where
  "apply_call (Call_add ctl fd d) ep = snd (add_fd ctl fd d ep)"
| "apply_call (Call_modify ctl fd d) ep = snd (modify_fd ctl fd d ep)"
| "apply_call (Call_remove ctl fd) ep = snd (remove_fd ctl fd ep)"

fun current_data :: "int \<Rightarrow> nat option \<Rightarrow> epoll_call \<Rightarrow> nat option" where
  \<comment> \<open>the specification, for one descriptor: a successful add or modify with data sets it, a
      remove clears it, nothing else changes it\<close>
  "current_data j old (Call_add ctl fd d) = (if j = fd \<and> ctl = None \<and> d \<noteq> None then d else old)"
| "current_data j old (Call_modify ctl fd d) = (if j = fd \<and> ctl = None \<and> d \<noteq> None then d else old)"
| "current_data j old (Call_remove ctl fd) = (if j = fd then None else old)"

lemma store_data_lookup:
  "map_of (ew_fd_data (store_data fd d ep)) j = (if j = fd \<and> d \<noteq> None then d else map_of (ew_fd_data ep) j)"
  by (auto simp: store_data_def umap.lookup_insert AList.update_conv' split: option.splits)

lemma apply_call_lookup:
  "map_of (ew_fd_data (apply_call c ep)) j = current_data j (map_of (ew_fd_data ep) j) c"
  by (cases c) (auto simp: add_fd_def modify_fd_def remove_fd_def store_data_lookup AList.delete_conv'
      split: option.split)

lemma apply_calls_lookup:
  "map_of (ew_fd_data (fold apply_call cs ep)) j = foldl (current_data j) (map_of (ew_fd_data ep) j) cs"
  by (induction cs arbitrary: ep) (simp_all add: apply_call_lookup)

text \<open>After any sequence of calls, failed ones included, \<open>wait_for_events\<close> reports exactly the
  events of the kernel in their order, each with the data last registered for its descriptor and not
  removed since; on an error it returns -1 and leaves the caller's vector as it was.\<close>

theorem wait_reports_current_data:
  "wait_for_events (Inr raw) old (fold apply_call cs new_epoll_wrapper) =
     (int (length raw),
      map (\<lambda>(fd, mask). \<lparr>ev_fd = fd, ev_events = mask, ev_data = foldl (current_data fd) None cs\<rparr>) raw) \<and>
   wait_for_events (Inl e) old (fold apply_call cs new_epoll_wrapper) = (- 1, old)"
  by (simp add: wait_for_events_def apply_calls_lookup) (simp add: new_epoll_wrapper_def)

end
