(* ===== verification/Logger.thy ===== *)
theory Logger
  imports Http_Response
begin

text \<open>
  The logger: \<open>include/logger.h\<close>, \<open>src/logger.cpp\<close> (class \<open>Logger\<close>, a singleton).

  A log file is an optional stream: whether it is open, and what was written.  The two mutexes
  are not recursive: a function that takes one is given the set of mutexes its thread holds, and
  taking one of those blocks forever, the result \<open>None\<close>.
\<close>

section \<open>Levels\<close>

datatype log_level = DEBUG | INFO | WARN | ERROR

fun level_number :: "log_level \<Rightarrow> nat" where
  "level_number DEBUG = 0"
| "level_number INFO = 1"
| "level_number WARN = 2"
| "level_number ERROR = 3"

lemma level_number_inject [simp]: "level_number a = level_number b \<longleftrightarrow> a = b"
  by (cases a; cases b) simp_all

instantiation log_level :: linorder
begin

definition less_eq_log_level :: "log_level \<Rightarrow> log_level \<Rightarrow> bool" where
  "less_eq_log_level a b \<longleftrightarrow> level_number a \<le> level_number b"

definition less_log_level :: "log_level \<Rightarrow> log_level \<Rightarrow> bool" where
  "less_log_level a b \<longleftrightarrow> level_number a < level_number b"

instance
  by standard (auto simp: less_eq_log_level_def less_log_level_def)

end

fun get_log_level_string :: "log_level \<Rightarrow> string" where
  "get_log_level_string DEBUG = ''DEBUG''"
| "get_log_level_string INFO = ''INFO''"
| "get_log_level_string WARN = ''WARN''"
| "get_log_level_string ERROR = ''ERROR''"

section \<open>State\<close>

record log_file =
  lf_open :: bool
  lf_text :: string

record logger =
  lg_access_log :: "log_file option"
  lg_error_log :: "log_file option"
  lg_level :: log_level
  lg_console :: bool
  lg_initialized :: bool
  lg_stdout :: string
  lg_stderr :: string

datatype log_mutex = Access_mutex | Error_mutex

definition new_logger :: logger where
  \<comment> \<open>the static instance is zero-initialised\<close>
  "new_logger =
     \<lparr>lg_access_log = None, lg_error_log = None, lg_level = DEBUG, lg_console = False,
      lg_initialized = False, lg_stdout = [], lg_stderr = []\<rparr>"

definition get_timestamp :: "nat \<Rightarrow> string" where
  \<comment> \<open>\<open>put_time(gmtime(&now), "%d/%b/%Y:%H:%M:%S %z")\<close>\<close>
  "get_timestamp now =
     (let days = now div 86400; secs = now mod 86400;
          (year, yday) = split_year 1970 days;
          (mon, mday) = split_month (month_lengths year) yday
      in two_digits (mday + 1) @ ''/'' @ month_names ! mon @ ''/'' @ dec_digits year @ '':'' @
         two_digits (secs div 3600) @ '':'' @ two_digits (secs div 60 mod 60) @ '':'' @
         two_digits (secs mod 60) @ '' +0000'')"

definition write_line :: "log_file option \<Rightarrow> string \<Rightarrow> log_file option" where
  "write_line f entry =
     (case f of
        Some l \<Rightarrow> if lf_open l then Some (l\<lparr>lf_text := lf_text l @ entry @ newline\<rparr>) else f
      | None \<Rightarrow> None)"

definition quoted :: "string \<Rightarrow> string" where
  "quoted s = [CHR 0x22] @ s @ [CHR 0x22]"

definition access_entry :: "nat \<Rightarrow> string \<Rightarrow> string \<Rightarrow> string \<Rightarrow> int \<Rightarrow> nat \<Rightarrow> string \<Rightarrow> string \<Rightarrow> string" where
  \<comment> \<open>a status code is not negative\<close>
  "access_entry now client_ip method path status response_size user_agent referer =
     client_ip @ '' - - ['' @ get_timestamp now @ ''] '' @
     quoted (method @ '' '' @ path @ '' HTTP/1.1'') @ '' '' @
     dec_digits (nat status) @ '' '' @ dec_digits response_size @
     '' '' @ quoted (if referer \<noteq> [] then referer else ''-'') @
     '' '' @ quoted (if user_agent \<noteq> [] then user_agent else ''-'')"

definition log_access :: "log_mutex set \<Rightarrow> nat \<Rightarrow> string \<Rightarrow> string \<Rightarrow> string \<Rightarrow> int \<Rightarrow> nat \<Rightarrow> string \<Rightarrow>
    string \<Rightarrow> logger \<Rightarrow> logger option" where
  "log_access held now client_ip method path status response_size user_agent referer lg =
     (if \<not> lg_initialized lg then Some lg
      else if Access_mutex \<in> held then None
      else let entry = access_entry now client_ip method path status response_size user_agent referer;
               lg1 = lg\<lparr>lg_access_log := write_line (lg_access_log lg) entry\<rparr>
           in Some (if lg_console lg1
                    then lg1\<lparr>lg_stdout := lg_stdout lg1 @ ''[ACCESS] '' @ entry @ newline\<rparr> else lg1))"

definition error_entry :: "nat \<Rightarrow> log_level \<Rightarrow> string \<Rightarrow> string" where
  "error_entry now level message =
     ''['' @ get_timestamp now @ ''] ['' @ get_log_level_string level @ ''] '' @ message"

definition log_error :: "log_mutex set \<Rightarrow> nat \<Rightarrow> string \<Rightarrow> log_level \<Rightarrow> logger \<Rightarrow> logger option" where
  "log_error held now message level lg =
     (if \<not> lg_initialized lg \<or> level < lg_level lg then Some lg
      else if Error_mutex \<in> held then None
      else let entry = error_entry now level message;
               lg1 = lg\<lparr>lg_error_log := write_line (lg_error_log lg) entry\<rparr>
           in Some (if lg_console lg1 \<or> ERROR \<le> level
                    then lg1\<lparr>lg_stderr := lg_stderr lg1 @ entry @ newline\<rparr> else lg1))"

definition log_info :: "log_mutex set \<Rightarrow> nat \<Rightarrow> string \<Rightarrow> logger \<Rightarrow> logger option" where
  "log_info held now message lg = log_error held now message INFO lg"

definition log_warn :: "log_mutex set \<Rightarrow> nat \<Rightarrow> string \<Rightarrow> logger \<Rightarrow> logger option" where
  "log_warn held now message lg = log_error held now message WARN lg"

definition log_debug :: "log_mutex set \<Rightarrow> nat \<Rightarrow> string \<Rightarrow> logger \<Rightarrow> logger option" where
  "log_debug held now message lg = log_error held now message DEBUG lg"

definition set_log_level :: "log_level \<Rightarrow> logger \<Rightarrow> logger" where
  "set_log_level level lg = lg\<lparr>lg_level := level\<rparr>"

definition enable_console_output :: "bool \<Rightarrow> logger \<Rightarrow> logger" where
  "enable_console_output enable lg = lg\<lparr>lg_console := enable\<rparr>"

definition flush_logs :: "log_mutex set \<Rightarrow> logger \<Rightarrow> logger option" where
  \<comment> \<open>every entry is flushed when it is written\<close>
  "flush_logs held lg = (if held = {} then Some lg else None)"

definition write_log :: "log_file \<Rightarrow> string \<Rightarrow> log_file" where
  \<comment> \<open>never called: the callers test the stream and write themselves\<close>
  "write_log f message = (if lf_open f then f\<lparr>lf_text := lf_text f @ message @ newline\<rparr> else f)"

definition get_log_level :: "logger \<Rightarrow> log_level" where
  "get_log_level lg = lg_level lg"

definition logger_destroy :: "logger \<Rightarrow> logger option" where
  "logger_destroy lg = flush_logs {} lg"

definition ensure_log_directories :: "string option \<Rightarrow> logger \<Rightarrow> logger" where
  \<comment> \<open>the text of the exception of \<open>create_directories\<close>, if it throws one\<close>
  "ensure_log_directories thrown lg =
     (case thrown of
        None \<Rightarrow> lg
      | Some what \<Rightarrow> lg\<lparr>lg_stderr := lg_stderr lg @ ''Could not create logs directory: '' @ what @ newline\<rparr>)"

definition open_log :: "string option \<Rightarrow> log_file" where
  \<comment> \<open>\<open>std::ofstream(path, std::ios::app)\<close>: the old text of the file when it can be opened\<close>
  "open_log old = (case old of Some t \<Rightarrow> \<lparr>lf_open = True, lf_text = t\<rparr> | None \<Rightarrow> \<lparr>lf_open = False, lf_text = []\<rparr>)"

definition cannot_open :: "string \<Rightarrow> string \<Rightarrow> string" where
  "cannot_open kind path = ''Warning: Could not open '' @ kind @ '' log file: '' @ path @ newline"

definition init_logger :: "log_mutex set \<Rightarrow> nat \<Rightarrow> string option \<Rightarrow> string option \<Rightarrow> string option \<Rightarrow> string \<Rightarrow> string \<Rightarrow>
    log_level \<Rightarrow> logger \<Rightarrow> logger option" where
  \<comment> \<open>\<open>Logger::init\<close>: both guards are held to the end, across the call of \<open>log_info\<close>\<close>
  "init_logger held now thrown access_file error_file access_log_path error_log_path level lg =
     (if held \<noteq> {} then None
      else let
        lg0 = ensure_log_directories thrown (lg\<lparr>lg_level := level, lg_console := False, lg_initialized := True\<rparr>);
        lg1 = lg0\<lparr>lg_access_log := Some (open_log access_file), lg_error_log := Some (open_log error_file)\<rparr>;
        lg2 = (if access_file = None
               then lg1\<lparr>lg_stderr := lg_stderr lg1 @ cannot_open ''access'' access_log_path, lg_console := True\<rparr>
               else lg1);
        lg3 = (if error_file = None
               then lg2\<lparr>lg_stderr := lg_stderr lg2 @ cannot_open ''error'' error_log_path, lg_console := True\<rparr>
               else lg2)
      in log_info {Access_mutex, Error_mutex} now
           (''Logger initialized - Access: '' @ access_log_path @ '', Error: '' @ error_log_path) lg3)"

lemma ERROR_le [simp]: "ERROR \<le> level \<longleftrightarrow> level = ERROR"
  by (cases level) (simp_all add: less_eq_log_level_def)

section \<open>Properties\<close>

text \<open>Initialising the logger at level INFO, the default, or DEBUG never returns: \<open>init\<close> holds
  \<open>error_mutex_\<close> and calls \<open>log_info\<close>, which takes it again.  At WARN and ERROR it returns, because
  the message is below the threshold.\<close>

theorem init_deadlocks:
  "init_logger {} now thrown access_file error_file apath epath level lg = None \<longleftrightarrow> level \<le> INFO"
  by (cases level) (simp_all add: init_logger_def log_info_def log_error_def Let_def
      less_eq_log_level_def less_log_level_def ensure_log_directories_def split: option.split)

lemma write_line_log: "write_line (Some f) entry = Some (write_log f entry)"
  by (simp add: write_line_def write_log_def)

lemma destroy_returns: "logger_destroy lg = Some lg"
  by (simp add: logger_destroy_def flush_logs_def)

text \<open>An initialised logger writes a message exactly when its level reaches the threshold, once, at
  the end of the open error log; errors also go to the standard error stream.\<close>

theorem log_error_threshold:
  assumes "lg_initialized lg" and "lg_error_log lg = Some \<lparr>lf_open = True, lf_text = t\<rparr>" and "Error_mutex \<notin> held"
  shows "\<exists>lg'. log_error held now message level lg = Some lg' \<and>
    lg_error_log lg' = Some \<lparr>lf_open = True, lf_text =
      (if lg_level lg \<le> level then t @ error_entry now level message @ newline else t)\<rparr> \<and>
    lg_stderr lg' = (if lg_level lg \<le> level \<and> (lg_console lg \<or> level = ERROR)
      then lg_stderr lg @ error_entry now level message @ newline else lg_stderr lg)"
  using assms by (cases "level < lg_level lg") (auto simp: log_error_def write_line_def Let_def)

theorem log_error_threshold_witness:
  "\<exists>lg'. log_error {} 0 ''full'' WARN
     (new_logger\<lparr>lg_initialized := True, lg_error_log := Some \<lparr>lf_open = True, lf_text = []\<rparr>\<rparr>) = Some lg' \<and>
     lg_error_log lg' = Some \<lparr>lf_open = True, lf_text = error_entry 0 WARN ''full'' @ newline\<rparr>"
  using log_error_threshold [of "new_logger\<lparr>lg_initialized := True,
      lg_error_log := Some \<lparr>lf_open = True, lf_text = []\<rparr>\<rparr>" "[]" "{}" 0 "''full''" WARN]
  by (auto simp: new_logger_def less_eq_log_level_def)

end
