(* ===== verification/Main_Args.thy ===== *)
theory Main_Args
  imports Webserver_Prelude
begin

text \<open>
  The command line: \<open>src/main.cpp\<close>.  \<open>args\<close> are \<open>argv[1]\<close>, \<open>argv[2]\<close>, ... as far as given.
\<close>

definition parse_port :: "string list \<Rightarrow> int" where
  "parse_port args =
     (case args of
        [] \<Rightarrow> 8080
      | a # _ \<Rightarrow>
          (case stoi a of
             Inl _ \<Rightarrow> 8080
           | Inr port \<Rightarrow> if port \<le> 0 \<or> 65535 < port then 8080 else port))"

definition parse_thread_count :: "string list \<Rightarrow> u64" where
  "parse_thread_count args =
     (case args of
        _ # a # _ \<Rightarrow>
          (case stoull a of
             Inl _ \<Rightarrow> 0
           | Inr thread_count \<Rightarrow> if 128 < thread_count then 0 else thread_count)
      | _ \<Rightarrow> 0)"

lemma parse_port_range: "1 \<le> parse_port args \<and> parse_port args \<le> 65535"
  by (auto simp: parse_port_def split: list.split sum.split)

text \<open>Whatever the arguments, the server is built with a port between 1 and 65535 and at most 128
  threads, 0 standing for one per core; a proper number in range is taken as it is.\<close>

theorem arguments_in_range:
  "1 \<le> parse_port args \<and> parse_port args \<le> 65535 \<and> parse_thread_count args \<le> 128 \<and>
   (\<forall>p n rest. 0 < p \<and> p \<le> 65535 \<and> n \<le> 128 \<longrightarrow>
      parse_port (dec_digits p # dec_digits n # rest) = int p \<and>
      parse_thread_count (dec_digits p # dec_digits n # rest) = word_of_nat n)"
proof -
  have stoi: "stoi (dec_digits p) = Inr (int p)" if "p \<le> 65535" for p
    using that dec_digits_props [of p] by (simp add: stoi_def scan_number_digits)
  note parse_port_range [of args]
  moreover have "parse_thread_count args \<le> 128"
    by (auto simp: parse_thread_count_def not_less split: list.split sum.split)
  moreover have "parse_thread_count (dec_digits p # dec_digits n # rest) = word_of_nat n"
    if "n \<le> 128" for p n rest
    using that stoull_dec_digits [of n]
    by (simp add: parse_thread_count_def word_less_nat_alt unat_of_nat take_bit_nat_eq_self)
  ultimately show ?thesis by (simp add: parse_port_def stoi)
qed

theorem arguments_in_range_witness:
  "parse_port [''443'', ''16''] = 443 \<and> parse_thread_count [''443'', ''16''] = 16 \<and> parse_port [''-3''] \<le> 65535"
proof -
  have d: "dec_digits 443 = ''443''" "dec_digits 16 = ''16''" by (simp_all add: dec_digits.simps char_eval)
  have "parse_port [dec_digits 443, dec_digits 16] = int 443 \<and>
      parse_thread_count [dec_digits 443, dec_digits 16] = word_of_nat 16"
    using arguments_in_range by fastforce
  then show ?thesis using arguments_in_range [of "[''-3'']"] by (simp add: d)
qed

end
