(* ===== verification/Server_State.thy ===== *)
theory Server_State
  imports File_Handler Http_Framing Epoll_Wrapper Thread_Pool
begin

text \<open>
  What the server keeps: \<open>include/server.h\<close> (struct \<open>Connection\<close>, class \<open>Server\<close>), and the
  pieces of \<open>src/server.cpp\<close> that touch it under one lock.

  A \<open>std::shared_ptr<Connection>\<close> is an index into \<open>sv_heap\<close>, so that a worker can go on using a
  connection the map has forgotten, as the code can; a connection object is never deleted from
  the heap.  \<open>connections_\<close> is an association list with distinct keys.  The kernel is outside:
  what a call returns is an argument, and the calls made are recorded, oldest first, in
  \<open>sv_calls\<close>.  \<open>sv_queue\<close> is the queue of the thread pool, whose tasks are all
  \<open>handle_client_request(conn)\<close>.
\<close>

section \<open>State\<close>

record connection =
  cn_fd :: int
  cn_buffer :: string
  cn_keep_alive :: bool
  cn_last_activity :: clock
  cn_pending_response :: string
  cn_response_offset :: nat
  cn_has_pending_write :: bool
  cn_processing_request :: bool

definition new_connection :: "clock \<Rightarrow> int \<Rightarrow> connection" where
  "new_connection now socket_fd =
     \<lparr>cn_fd = socket_fd, cn_buffer = [], cn_keep_alive = False, cn_last_activity = now,
      cn_pending_response = [], cn_response_offset = 0, cn_has_pending_write = False,
      cn_processing_request = False\<rparr>"

datatype syscall =
    Sys_epoll_add int u32
  | Sys_epoll_mod int u32
  | Sys_epoll_del int
  | Sys_close int
  | Sys_send int string   \<comment> \<open>the bytes the kernel took\<close>

record server =
  sv_server_fd :: int
  sv_port :: int
  sv_host :: string
  sv_running :: bool
  sv_max_connections :: nat
  sv_connections :: "(int \<times> nat) list"
  sv_heap :: "connection list"
  sv_epoll :: epoll_wrapper
  sv_files :: file_handler
  sv_queue :: "nat list"
  sv_pool_shutdown :: bool
  sv_thread_count :: nat
  sv_calls :: "syscall list"

definition BUFFER_SIZE :: nat where "BUFFER_SIZE = 4096"
definition CONNECTION_TIMEOUT_SECONDS :: int where "CONNECTION_TIMEOUT_SECONDS = 30"
definition MAX_REQUEST_SIZE :: nat where "MAX_REQUEST_SIZE = 64 * 1024"

section \<open>Configuration\<close>

definition max_conn_key :: string where
  "max_conn_key = quote @ ''max_connections'' @ quote"

definition match_max_connections :: "string \<Rightarrow> string option" where
  \<comment> \<open>the regular expression \<open>"max_connections"\s*:\s*(\d+)\<close> at the start of a string: the
      group.  Its parts exclude each other, so that the match needs no backtracking.\<close>
  "match_max_connections s =
     (if starts_with max_conn_key s
      then let s1 = dropWhile is_space (drop (length max_conn_key) s)
           in if s1 \<noteq> [] \<and> hd s1 = CHR '':''
              then let ds = takeWhile is_digit (dropWhile is_space (tl s1))
                   in if ds = [] then None else Some ds
              else None
      else None)"

fun search_max_connections :: "string \<Rightarrow> string option" where
  \<comment> \<open>\<open>regex_search\<close>: the leftmost match\<close>
  "search_max_connections [] = None"
| "search_max_connections (c # s) =
     (case match_max_connections (c # s) of Some g \<Rightarrow> Some g | None \<Rightarrow> search_max_connections s)"

fun scan_config_lines :: "string list \<Rightarrow> nat" where
  \<comment> \<open>the first line with a match decides\<close>
  "scan_config_lines [] = 2000"
| "scan_config_lines (line # lines) =
     (case search_max_connections line of
        None \<Rightarrow> scan_config_lines lines
      | Some digits \<Rightarrow>
          (case stoull digits of
             Inl _ \<Rightarrow> 2000
           | Inr n \<Rightarrow> if 0 < n \<and> n \<le> 100000 then unat n else 2000))"

definition load_max_connections_from_config :: "string option \<Rightarrow> nat" where
  \<comment> \<open>the content of \<open>config.json\<close>, \<open>None\<close> if it cannot be opened\<close>
  "load_max_connections_from_config config_file =
     (case config_file of None \<Rightarrow> 2000 | Some text \<Rightarrow> scan_config_lines (getlines (CHR 0x0A) text))"

definition new_server :: "string option \<Rightarrow> nat \<Rightarrow> nat \<Rightarrow> int \<Rightarrow> string \<Rightarrow> server" where
  \<comment> \<open>\<open>hardware\<close>: what \<open>hardware_concurrency\<close> returns\<close>
  "new_server config_file thread_count hardware port host =
     \<lparr>sv_server_fd = - 1, sv_port = port, sv_host = host, sv_running = False,
      sv_max_connections = load_max_connections_from_config config_file,
      sv_connections = [], sv_heap = [], sv_epoll = new_epoll_wrapper,
      sv_files = new_file_handler ''./public'' ''index.html'' True 100,
      sv_queue = [], sv_pool_shutdown = False, sv_thread_count = pool_thread_count thread_count hardware, sv_calls = []\<rparr>"

section \<open>Primitives\<close>

definition find_conn :: "int \<Rightarrow> server \<Rightarrow> nat option" where
  "find_conn fd s = map_of (sv_connections s) fd"

definition get_conn :: "nat \<Rightarrow> server \<Rightarrow> connection" where
  \<comment> \<open>a shared pointer is never null here\<close>
  "get_conn r s = sv_heap s ! r"

definition upd_conn :: "nat \<Rightarrow> (connection \<Rightarrow> connection) \<Rightarrow> server \<Rightarrow> server" where
  "upd_conn r f s = s\<lparr>sv_heap := (sv_heap s)[r := f (sv_heap s ! r)]\<rparr>"

definition do_call :: "syscall \<Rightarrow> server \<Rightarrow> server" where
  "do_call c s = s\<lparr>sv_calls := sv_calls s @ [c]\<rparr>"

definition epoll_del :: "int \<Rightarrow> server \<Rightarrow> server" where
  \<comment> \<open>\<open>remove_fd\<close>, whose result is ignored\<close>
  "epoll_del fd s = do_call (Sys_epoll_del fd) (s\<lparr>sv_epoll := snd (remove_fd None fd (sv_epoll s))\<rparr>)"

definition epoll_mod :: "int \<Rightarrow> u32 \<Rightarrow> server \<Rightarrow> server" where
  \<comment> \<open>\<open>modify_fd\<close> without data, whose result is ignored\<close>
  "epoll_mod fd events s = do_call (Sys_epoll_mod fd events) (s\<lparr>sv_epoll := snd (modify_fd None fd None (sv_epoll s))\<rparr>)"

definition mask_read :: u32 where
  "mask_read = or EPOLLIN (or EPOLLHUP EPOLLERR)"

definition mask_read_write :: u32 where
  "mask_read_write = or EPOLLIN (or EPOLLOUT (or EPOLLHUP EPOLLERR))"

section \<open>Closing\<close>

definition erase_conn :: "int \<Rightarrow> server \<Rightarrow> server" where
  "erase_conn fd s = s\<lparr>sv_connections := AList.delete fd (sv_connections s)\<rparr>"

definition release_fd :: "int \<Rightarrow> server \<Rightarrow> server" where
  \<comment> \<open>\<open>epoll_->remove_fd(fd); close(fd);\<close>\<close>
  "release_fd fd s = do_call (Sys_close fd) (epoll_del fd s)"

definition close_connection :: "int \<Rightarrow> server \<Rightarrow> server" where
  "close_connection client_fd s =
     (if find_conn client_fd s = None then s else release_fd client_fd (erase_conn client_fd s))"

section \<open>Sending\<close>

datatype send_outcome = Sent nat | Send_error errno

definition reset_pending :: "connection \<Rightarrow> connection" where
  "reset_pending c = c\<lparr>cn_has_pending_write := False, cn_pending_response := [], cn_response_offset := 0\<rparr>"

definition abandon_pending :: "connection \<Rightarrow> connection" where
  "abandon_pending c = c\<lparr>cn_keep_alive := False, cn_has_pending_write := False\<rparr>"

definition send_section :: "nat \<Rightarrow> send_outcome \<Rightarrow> server \<Rightarrow> bool \<times> server" where
  \<comment> \<open>the part of \<open>send_response_async\<close> under \<open>conn->mutex_\<close>, and whether
      \<open>close_connection(conn->fd)\<close> follows\<close>
  "send_section r outcome s =
     (let conn = get_conn r s; fd = cn_fd conn;
          remaining = length (cn_pending_response conn) - cn_response_offset conn
      in if \<not> cn_has_pending_write conn then (False, s)
         else if remaining = 0 then
           (\<not> cn_keep_alive conn, epoll_mod fd mask_read (upd_conn r reset_pending s))
         else case outcome of
           Send_error e \<Rightarrow>
             if e = EAGAIN then (False, epoll_mod fd mask_read_write s)
             else (True, upd_conn r abandon_pending s)
         | Sent n \<Rightarrow>
             if n = 0 then (True, upd_conn r abandon_pending s)
             else let
               s1 = do_call (Sys_send fd (take n (drop (cn_response_offset conn) (cn_pending_response conn)))) s;
               s2 = upd_conn r (\<lambda>c. c\<lparr>cn_response_offset := cn_response_offset c + n\<rparr>) s1
             in if length (cn_pending_response conn) \<le> cn_response_offset conn + n
                then (\<not> cn_keep_alive conn, epoll_mod fd mask_read (upd_conn r reset_pending s2))
                else (False, epoll_mod fd mask_read_write s2))"

definition send_response_async :: "nat \<Rightarrow> send_outcome \<Rightarrow> server \<Rightarrow> server" where
  "send_response_async r outcome s =
     (let (closing, s1) = send_section r outcome s
      in if closing then close_connection (cn_fd (get_conn r s1)) s1 else s1)"

definition handle_client_write :: "int \<Rightarrow> send_outcome \<Rightarrow> server \<Rightarrow> server" where
  "handle_client_write client_fd outcome s =
     (case find_conn client_fd s of None \<Rightarrow> s | Some r \<Rightarrow> send_response_async r outcome s)"

section \<open>Accepting\<close>

datatype accept_outcome =
    Accept_failed errno
  | Accepted int "errno + int" "errno option" "errno option" clock
    \<comment> \<open>the descriptor; what \<open>F_GETFL\<close>, \<open>F_SETFL\<close> and \<open>EPOLL_CTL_ADD\<close> return for it; the clock\<close>

definition add_connection :: "clock \<Rightarrow> int \<Rightarrow> server \<Rightarrow> server" where
  "add_connection now fd s =
     s\<lparr>sv_heap := sv_heap s @ [new_connection now fd],
       sv_connections := AList.update fd (length (sv_heap s)) (sv_connections s)\<rparr>"

definition accept_one :: "int \<Rightarrow> errno + int \<Rightarrow> errno option \<Rightarrow> errno option \<Rightarrow> clock \<Rightarrow> server \<Rightarrow> server" where
  \<comment> \<open>one accepted descriptor.  The socket options set in between only print a warning when they
      fail.\<close>
  "accept_one fd getfl setfl ctl now s =
     (if sv_max_connections s \<le> length (sv_connections s) then do_call (Sys_close fd) s
      else if \<not> set_non_blocking getfl setfl then do_call (Sys_close fd) s
      else let (added, ep) = add_fd ctl fd None (sv_epoll s);
               s1 = do_call (Sys_epoll_add fd mask_read) (s\<lparr>sv_epoll := ep\<rparr>)
           in if \<not> added then do_call (Sys_close fd) s1 else add_connection now fd s1)"

fun handle_accept :: "accept_outcome list \<Rightarrow> server \<Rightarrow> server option" where
  \<comment> \<open>the outcomes of \<open>accept\<close>, in order; \<open>None\<close>: with these the loop has not ended\<close>
  "handle_accept [] s = None"
| "handle_accept (Accept_failed e # outcomes) s = (if e = EAGAIN then Some s else handle_accept outcomes s)"
| "handle_accept (Accepted fd getfl setfl ctl now # outcomes) s =
     handle_accept outcomes (accept_one fd getfl setfl ctl now s)"

section \<open>Receiving\<close>

datatype recv_outcome = Received string | Peer_closed | Recv_error errno

datatype append_result = Conn_gone | Too_large | Appended bool

definition append_section :: "int \<Rightarrow> nat \<Rightarrow> string \<Rightarrow> clock \<Rightarrow> server \<Rightarrow> append_result \<times> server" where
  \<comment> \<open>the part of \<open>handle_client_data\<close> under \<open>conn->mutex_\<close>: \<open>Appended should_process\<close>\<close>
  "append_section client_fd r bytes now s =
     (if find_conn client_fd s = None then (Conn_gone, s)
      else if MAX_REQUEST_SIZE < length (cn_buffer (get_conn r s)) + length bytes
      then (Too_large, release_fd client_fd (erase_conn client_fd s))
      else let
        s1 = upd_conn r (\<lambda>c. c\<lparr>cn_buffer := cn_buffer c @ bytes, cn_last_activity := now\<rparr>) s;
        should_process = (\<not> cn_processing_request (get_conn r s1) \<and>
                          is_http_request_complete (cn_buffer (get_conn r s1)))
      in (Appended should_process,
          if should_process then upd_conn r (\<lambda>c. c\<lparr>cn_processing_request := True\<rparr>) s1 else s1))"

definition enqueue_request :: "nat \<Rightarrow> server \<Rightarrow> std_error + server" where
  \<comment> \<open>\<open>thread_pool_->enqueue(&Server::handle_client_request, this, conn)\<close>\<close>
  "enqueue_request r s =
     (if sv_pool_shutdown s then Inl (Runtime_error ''ThreadPool is shutdown'')
      else Inr (s\<lparr>sv_queue := sv_queue s @ [r]\<rparr>))"

definition handle_client_data :: "int \<Rightarrow> recv_outcome \<Rightarrow> clock \<Rightarrow> server \<Rightarrow> std_error + server" where
  \<comment> \<open>\<open>recv\<close> delivers at most \<open>BUFFER_SIZE - 1\<close> bytes, so that the last branch of the code is never
      taken\<close>
  "handle_client_data client_fd received now s =
     (case find_conn client_fd s of
        None \<Rightarrow> Inr s
      | Some r \<Rightarrow>
          (case received of
             Received bytes \<Rightarrow>
               if bytes = [] then Inr (close_connection client_fd s)
               else (case append_section client_fd r bytes now s of
                       (Appended True, s1) \<Rightarrow> enqueue_request r s1
                     | (_, s1) \<Rightarrow> Inr s1)
           | Peer_closed \<Rightarrow> Inr (close_connection client_fd s)
           | Recv_error _ \<Rightarrow> Inr (close_connection client_fd s)))"

section \<open>Idle connections\<close>

definition is_inactive :: "clock \<Rightarrow> connection \<Rightarrow> bool" where
  "is_inactive now c \<longleftrightarrow>
     CONNECTION_TIMEOUT_SECONDS < duration_seconds (now - cn_last_activity c) \<and> \<not> cn_has_pending_write c"

definition inactive_fds :: "clock \<Rightarrow> server \<Rightarrow> int list" where
  "inactive_fds now s = map fst (filter (\<lambda>(_, r). is_inactive now (get_conn r s)) (sv_connections s))"

definition cleanup_inactive_connections :: "clock \<Rightarrow> server \<Rightarrow> server" where
  "cleanup_inactive_connections now s = foldl (\<lambda>s fd. close_connection fd s) s (inactive_fds now s)"


section \<open>Frames\<close>

lemma upd_conn_sel [simp]:
  "sv_connections (upd_conn r f s) = sv_connections s" "sv_max_connections (upd_conn r f s) = sv_max_connections s"
  "sv_calls (upd_conn r f s) = sv_calls s" "sv_queue (upd_conn r f s) = sv_queue s"
  "sv_files (upd_conn r f s) = sv_files s" "sv_pool_shutdown (upd_conn r f s) = sv_pool_shutdown s"
  "sv_server_fd (upd_conn r f s) = sv_server_fd s" "length (sv_heap (upd_conn r f s)) = length (sv_heap s)"
  "find_conn fd (upd_conn r f s) = find_conn fd s"
  by (simp_all add: upd_conn_def find_conn_def)

lemma get_upd_conn:
  "r < length (sv_heap s) \<Longrightarrow> get_conn r' (upd_conn r f s) = (if r' = r then f (get_conn r s) else get_conn r' s)"
  by (simp add: get_conn_def upd_conn_def)

lemma do_call_sel [simp]:
  "sv_connections (do_call c s) = sv_connections s" "sv_max_connections (do_call c s) = sv_max_connections s"
  "sv_heap (do_call c s) = sv_heap s" "sv_queue (do_call c s) = sv_queue s"
  "sv_files (do_call c s) = sv_files s" "sv_pool_shutdown (do_call c s) = sv_pool_shutdown s"
  "sv_server_fd (do_call c s) = sv_server_fd s" "sv_calls (do_call c s) = sv_calls s @ [c]"
  "find_conn fd (do_call c s) = find_conn fd s" "get_conn r (do_call c s) = get_conn r s"
  by (simp_all add: do_call_def find_conn_def get_conn_def)

lemma epoll_sel [simp]:
  "sv_connections (epoll_mod fd ev s) = sv_connections s" "sv_max_connections (epoll_mod fd ev s) = sv_max_connections s"
  "sv_heap (epoll_mod fd ev s) = sv_heap s" "sv_queue (epoll_mod fd ev s) = sv_queue s"
  "sv_files (epoll_mod fd ev s) = sv_files s" "sv_pool_shutdown (epoll_mod fd ev s) = sv_pool_shutdown s"
  "sv_server_fd (epoll_mod fd ev s) = sv_server_fd s"
  "sv_calls (epoll_mod fd ev s) = sv_calls s @ [Sys_epoll_mod fd ev]"
  "find_conn j (epoll_mod fd ev s) = find_conn j s" "get_conn r (epoll_mod fd ev s) = get_conn r s"
  by (simp_all add: epoll_mod_def do_call_def find_conn_def get_conn_def)

lemma release_sel [simp]:
  "sv_connections (release_fd fd s) = sv_connections s" "sv_max_connections (release_fd fd s) = sv_max_connections s"
  "sv_heap (release_fd fd s) = sv_heap s" "sv_queue (release_fd fd s) = sv_queue s"
  "sv_files (release_fd fd s) = sv_files s" "sv_pool_shutdown (release_fd fd s) = sv_pool_shutdown s"
  "sv_server_fd (release_fd fd s) = sv_server_fd s"
  "sv_calls (release_fd fd s) = sv_calls s @ [Sys_epoll_del fd, Sys_close fd]"
  "find_conn j (release_fd fd s) = find_conn j s" "get_conn r (release_fd fd s) = get_conn r s"
  by (simp_all add: release_fd_def epoll_del_def do_call_def find_conn_def get_conn_def)

lemma erase_sel [simp]:
  "sv_max_connections (erase_conn fd s) = sv_max_connections s" "sv_heap (erase_conn fd s) = sv_heap s"
  "sv_queue (erase_conn fd s) = sv_queue s" "sv_files (erase_conn fd s) = sv_files s"
  "sv_pool_shutdown (erase_conn fd s) = sv_pool_shutdown s" "sv_calls (erase_conn fd s) = sv_calls s"
  "sv_server_fd (erase_conn fd s) = sv_server_fd s"
  "find_conn j (erase_conn fd s) = (if j = fd then None else find_conn j s)"
  "get_conn r (erase_conn fd s) = get_conn r s"
  by (simp_all add: erase_conn_def find_conn_def get_conn_def AList.delete_conv')

lemma close_connection_sel [simp]:
  "sv_max_connections (close_connection fd s) = sv_max_connections s"
  "sv_heap (close_connection fd s) = sv_heap s" "sv_queue (close_connection fd s) = sv_queue s"
  "sv_files (close_connection fd s) = sv_files s" "sv_pool_shutdown (close_connection fd s) = sv_pool_shutdown s"
  "find_conn j (close_connection fd s) = (if j = fd then None else find_conn j s)"
  "get_conn r (close_connection fd s) = get_conn r s"
  by (auto simp: close_connection_def)

lemma close_connection_calls:
  "sv_calls (close_connection fd s) =
     sv_calls s @ (if find_conn fd s = None then [] else [Sys_epoll_del fd, Sys_close fd])"
  by (simp add: close_connection_def)

section \<open>Configuration\<close>

lemma scan_config_bounds: "1 \<le> scan_config_lines ls \<and> scan_config_lines ls \<le> 100000"
proof (induction ls)
  case (Cons l ls)
  have "1 \<le> unat n" "unat n \<le> 100000" if "0 < n" "n \<le> 100000" for n :: u64
    using that by (simp_all add: word_less_nat_alt word_le_nat_alt)
  with Cons show ?case by (auto split: option.split sum.split)
qed simp

lemma search_found:
  "match_max_connections s = Some g \<Longrightarrow> s \<noteq> [] \<Longrightarrow>
   (\<And>i. i < length pre \<Longrightarrow> match_max_connections (drop i pre @ s) = None) \<Longrightarrow>
   search_max_connections (pre @ s) = Some g"
proof (induction pre)
  case Nil
  then show ?case by (cases s) simp_all
next
  case (Cons c pre)
  have "match_max_connections (c # pre @ s) = None" using Cons.prems(3) [of 0] by simp
  moreover have "match_max_connections (drop i pre @ s) = None" if "i < length pre" for i
    using Cons.prems(3) [of "Suc i"] that by simp
  ultimately show ?case using Cons by simp
qed

lemma match_blank: "match_max_connections (CHR '' '' # t) = None"
  by (simp add: match_max_connections_def starts_with_def max_conn_key_def quote_def)

text \<open>Whatever the configuration file holds, and without one, the connection limit is between 1 and
  100000; a line of the form the shipped file uses sets it to its number when that is in range.\<close>

theorem max_connections_configured:
  "(1 \<le> load_max_connections_from_config file \<and> load_max_connections_from_config file \<le> 100000) \<and>
   (\<forall>n blanks rest. 1 \<le> n \<and> n \<le> 100000 \<and> (\<forall>c \<in> set blanks. c = CHR '' '') \<and>
      (rest = [] \<or> \<not> is_digit (hd rest)) \<longrightarrow>
      scan_config_lines ((blanks @ max_conn_key @ '': '' @ dec_digits n @ rest) # lines) = n)"
proof -
  have scan: "scan_config_lines ((blanks @ max_conn_key @ '': '' @ dec_digits n @ rest) # lines) = n"
    if n: "1 \<le> n" "n \<le> 100000" and b: "\<forall>c \<in> set blanks. c = CHR '' ''"
      and r: "rest = [] \<or> \<not> is_digit (hd rest)" for n blanks rest
  proof -
    let ?s = "max_conn_key @ '': '' @ dec_digits n @ rest"
    have d: "dec_digits n \<noteq> []" "\<forall>c \<in> set (dec_digits n). is_digit c" using dec_digits_props [of n] by auto
    have "takeWhile is_digit (dec_digits n @ rest) = dec_digits n"
      using d(2) r by (induction "dec_digits n") (cases rest; auto)+
    moreover have "\<not> is_space (hd (dec_digits n))"
      using d digit_not_special by (meson hd_in_set)
    then have "dropWhile is_space (dec_digits n @ rest) = dec_digits n @ rest"
      using d(1) by (cases "dec_digits n") auto
    ultimately have "match_max_connections ?s = Some (dec_digits n)"
      using d(1) by (simp add: match_max_connections_def starts_with_def max_conn_key_def is_space_def quote_def)
    moreover have "match_max_connections (drop i blanks @ ?s) = None" if "i < length blanks" for i
    proof -
      have "drop i blanks = blanks ! i # drop (Suc i) blanks" using that by (rule Cons_nth_drop_Suc [symmetric])
      moreover have "blanks ! i = CHR '' ''" using b that by simp
      ultimately have "drop i blanks @ ?s = CHR '' '' # drop (Suc i) blanks @ ?s" by (simp only: append_Cons)
      then show ?thesis using match_blank by (simp only:)
    qed
    ultimately have "search_max_connections (blanks @ ?s) = Some (dec_digits n)"
      by (intro search_found) (simp_all add: max_conn_key_def)
    moreover have "stoull (dec_digits n) = Inr (word_of_nat n)" using n by (intro stoull_dec_digits) simp
    ultimately show ?thesis
      using n by (simp add: word_less_nat_alt word_le_nat_alt unat_of_nat take_bit_nat_eq_self)
  qed
  then show ?thesis
    using scan_config_bounds by (auto simp: load_max_connections_from_config_def split: option.split)
qed

theorem max_connections_configured_witness:
  "scan_config_lines [''  '' @ max_conn_key @ '': 5000,'', ''}''] = 5000 \<and> load_max_connections_from_config None \<le> 100000"
proof -
  have "dec_digits 5000 = ''5000''" by (simp add: dec_digits.simps char_eval)
  moreover have b: "1 \<le> (5000 :: nat) \<and> (5000 :: nat) \<le> 100000 \<and> (\<forall>c \<in> set ''  ''. c = CHR '' '') \<and>
      ('','' = [] \<or> \<not> is_digit (hd '',''))"
    by (simp add: is_digit_def)
  ultimately have "scan_config_lines [''  '' @ max_conn_key @ '': '' @ ''5000'' @ '','', ''}''] = 5000"
    using max_connections_configured [of None "[''}'']"]
    by (metis (no_types, lifting) b)
  then show ?thesis using max_connections_configured [of None] by simp
qed


section \<open>Partial writes\<close>

fun sent_on :: "int \<Rightarrow> syscall list \<Rightarrow> string" where
  \<comment> \<open>all bytes the kernel has taken for a descriptor\<close>
  "sent_on fd [] = []"
| "sent_on fd (Sys_send f bytes # cs) = (if f = fd then bytes @ sent_on fd cs else sent_on fd cs)"
| "sent_on fd (_ # cs) = sent_on fd cs"

lemma sent_on_append [simp]: "sent_on fd (xs @ ys) = sent_on fd xs @ sent_on fd ys"
proof (induction xs)
  case (Cons c xs)
  then show ?case by (cases c) simp_all
qed simp

fun bytes_taken :: "send_outcome list \<Rightarrow> nat" where
  "bytes_taken [] = 0"
| "bytes_taken (Sent n # os) = n + bytes_taken os"
| "bytes_taken (Send_error _ # os) = bytes_taken os"

fun progressing :: "send_outcome \<Rightarrow> bool" where
  \<comment> \<open>the socket takes something or is full for now\<close>
  "progressing (Sent n) = (0 < n)"
| "progressing (Send_error e) = (e = EAGAIN)"

definition pending_at :: "int \<Rightarrow> nat \<Rightarrow> string \<Rightarrow> nat \<Rightarrow> server \<Rightarrow> bool" where
  \<comment> \<open>the connection has sent the first \<open>k\<close> bytes of the response\<close>
  "pending_at fd r resp k s \<longleftrightarrow> find_conn fd s = Some r \<and> r < length (sv_heap s) \<and> cn_fd (get_conn r s) = fd \<and>
     cn_has_pending_write (get_conn r s) \<and> cn_pending_response (get_conn r s) = resp \<and>
     cn_response_offset (get_conn r s) = k \<and> k < length resp"

definition delivered :: "int \<Rightarrow> nat \<Rightarrow> bool \<Rightarrow> server \<Rightarrow> bool" where
  \<comment> \<open>nothing is pending, and the connection is open exactly if it is kept alive\<close>
  "delivered fd r keep s \<longleftrightarrow> (if keep
     then find_conn fd s = Some r \<and> r < length (sv_heap s) \<and> cn_fd (get_conn r s) = fd \<and>
       \<not> cn_has_pending_write (get_conn r s)
     else find_conn fd s = None)"

lemma write_step:
  assumes "pending_at fd r resp k s" and "keep = cn_keep_alive (get_conn r s)"
  shows "outcome = Send_error EAGAIN \<Longrightarrow> pending_at fd r resp k (handle_client_write fd outcome s) \<and>
      cn_keep_alive (get_conn r (handle_client_write fd outcome s)) = keep \<and>
      sent_on fd (sv_calls (handle_client_write fd outcome s)) = sent_on fd (sv_calls s)"
    and "outcome = Sent n \<Longrightarrow> 0 < n \<Longrightarrow> k + n < length resp \<Longrightarrow>
      pending_at fd r resp (k + n) (handle_client_write fd outcome s) \<and>
      cn_keep_alive (get_conn r (handle_client_write fd outcome s)) = keep \<and>
      sent_on fd (sv_calls (handle_client_write fd outcome s)) = sent_on fd (sv_calls s) @ take n (drop k resp)"
    and "outcome = Sent n \<Longrightarrow> k + n = length resp \<Longrightarrow>
      delivered fd r keep (handle_client_write fd outcome s) \<and>
      sent_on fd (sv_calls (handle_client_write fd outcome s)) = sent_on fd (sv_calls s) @ drop k resp"
  using assms
  by (auto simp: pending_at_def delivered_def handle_client_write_def send_response_async_def send_section_def
      Let_def get_upd_conn reset_pending_def close_connection_calls)

lemma write_delivered:
  "delivered fd r keep s \<Longrightarrow> delivered fd r keep (handle_client_write fd outcome s) \<and>
   sv_calls (handle_client_write fd outcome s) = sv_calls s"
  by (auto simp: delivered_def handle_client_write_def send_response_async_def send_section_def Let_def
      split: if_splits)

lemma writes_delivered:
  "delivered fd r keep s \<Longrightarrow> delivered fd r keep (fold (handle_client_write fd) outcomes s) \<and>
   sv_calls (fold (handle_client_write fd) outcomes s) = sv_calls s"
proof (induction outcomes arbitrary: s)
  case (Cons a outcomes)
  then show ?case using write_delivered [OF Cons.prems, of a] by simp
qed simp

lemma writes_deliver:
  assumes "pending_at fd r resp k s" and "keep = cn_keep_alive (get_conn r s)"
    and "list_all progressing outcomes" and "k + bytes_taken outcomes \<le> length resp"
    and "s' = fold (handle_client_write fd) outcomes s"
  shows "sent_on fd (sv_calls s') = sent_on fd (sv_calls s) @ take (bytes_taken outcomes) (drop k resp) \<and>
    (if k + bytes_taken outcomes = length resp then delivered fd r keep s'
     else pending_at fd r resp (k + bytes_taken outcomes) s' \<and> cn_keep_alive (get_conn r s') = keep)"
  using assms
proof (induction outcomes arbitrary: s k)
  case Nil
  then show ?case by (auto simp: pending_at_def)
next
  case (Cons out outcomes)
  let ?s1 = "handle_client_write fd out s"
  show ?case
  proof (cases out)
    case (Send_error e)
    with Cons.prems(3) have "out = Send_error EAGAIN" by simp
    from write_step(1) [OF Cons.prems(1,2) this] Cons.IH [of k ?s1] Cons.prems Send_error
    show ?thesis by (auto split: if_splits)
  next
    case (Sent n)
    with Cons.prems(3,4) have n: "0 < n" "k + n \<le> length resp" by auto
    show ?thesis
    proof (cases "k + n = length resp")
      case True
      from write_step(3) [OF Cons.prems(1,2) Sent True] have d: "delivered fd r keep ?s1"
        "sent_on fd (sv_calls ?s1) = sent_on fd (sv_calls s) @ drop k resp" by blast+
      from True Cons.prems(4) Sent have "bytes_taken outcomes = 0" by simp
      with writes_delivered [OF d(1), of outcomes] d(2) True Cons.prems(5) Sent show ?thesis by simp
    next
      case False
      with n have "k + n < length resp" by simp
      from write_step(2) [OF Cons.prems(1,2) Sent n(1) this] Cons.IH [of "k + n" ?s1] Cons.prems Sent
      moreover have "drop n (drop k resp) = drop (k + n) resp" by (simp add: add.commute)
      ultimately show ?thesis by (simp add: take_add add.assoc split: if_splits)
    qed
  qed
qed

text \<open>C19: Partial writes.  However the kernel cuts a response into pieces and however often it reports a
  full socket in between, the bytes it has taken after each call are a prefix of the response, in
  order and without gap or repetition; the connection stays open with the rest pending until the
  last byte, and with the last byte it is kept or closed as \<open>keep_alive\<close> says, whatever events follow.\<close>

theorem partial_writes_deliver:
  assumes "find_conn fd s = Some r" and "r < length (sv_heap s)"
    and "get_conn r s = c" and "cn_fd c = fd" and "cn_has_pending_write c"
    and "cn_pending_response c = resp" and "cn_response_offset c = 0" and "resp \<noteq> []"
    and "list_all progressing outcomes" and "bytes_taken outcomes \<le> length resp"
  shows "let s' = fold (handle_client_write fd) outcomes s in
    sent_on fd (sv_calls s') = sent_on fd (sv_calls s) @ take (bytes_taken outcomes) resp \<and>
    (if bytes_taken outcomes = length resp then delivered fd r (cn_keep_alive c) s'
     else pending_at fd r resp (bytes_taken outcomes) s')"
proof -
  have "pending_at fd r resp 0 s" using assms by (simp add: pending_at_def)
  from writes_deliver [OF this refl assms(9) _ refl] assms(3,10) show ?thesis
    by (simp add: Let_def split: if_splits)
qed

theorem partial_writes_deliver_witness:
  "let c = (new_connection 0 7)\<lparr>cn_pending_response := ''hello'', cn_has_pending_write := True\<rparr>;
       s = (new_server None 4 8 8080 [])\<lparr>sv_heap := [c], sv_connections := [(7, 0)]\<rparr>;
       s' = fold (handle_client_write 7) [Sent 2, Send_error EAGAIN, Sent 3] s
   in sent_on 7 (sv_calls s') = ''hello'' \<and> find_conn 7 s' = None"
  using partial_writes_deliver [where fd = 7 and r = 0 and resp = "''hello''"
      and outcomes = "[Sent 2, Send_error EAGAIN, Sent 3]"
      and c = "(new_connection 0 7)\<lparr>cn_pending_response := ''hello'', cn_has_pending_write := True\<rparr>"
      and s = "(new_server None 4 8 8080 [])\<lparr>sv_heap := [(new_connection 0 7)\<lparr>cn_pending_response := ''hello'', cn_has_pending_write := True\<rparr>], sv_connections := [(7, 0)]\<rparr>"]
  by (simp add: find_conn_def get_conn_def new_connection_def new_server_def delivered_def Let_def)

end
