(* ===== verification/Server.thy ===== *)
theory Server
  imports Server_State Double_Arith
begin

text \<open>
  The handlers of \<open>src/server.cpp\<close>, composed of the pieces of \<open>Server_State\<close> in the order the
  code has them.  Each is run to its end here; \<open>Server_Threads\<close> interleaves the same pieces.
\<close>

section \<open>The API\<close>

definition space_padded :: "nat \<Rightarrow> string" where
  "space_padded n = (if n < 10 then '' '' @ dec_digits n else dec_digits n)"

definition ctime :: "nat \<Rightarrow> string" where
  \<comment> \<open>\<open>std::ctime\<close> of a local time, such as \<open>Thu Jan  1 00:00:00 1970\<close> and a line feed\<close>
  "ctime t =
     (let days = t div 86400; secs = t mod 86400;
          (year, yday) = split_year 1970 days;
          (mon, mday) = split_month (month_lengths year) yday
      in day_names ! ((days + 4) mod 7) @ '' '' @ month_names ! mon @ '' '' @ space_padded (mday + 1) @ '' '' @
         two_digits (secs div 3600) @ '':'' @ two_digits (secs div 60 mod 60) @ '':'' @
         two_digits (secs mod 60) @ '' '' @ dec_digits year @ newline)"

definition hit_ratio :: "u64 \<Rightarrow> u64 \<Rightarrow> rat" where
  \<comment> \<open>\<open>static_cast<double>(hits) / (hits + misses) * 100.0\<close>; the sum is a \<open>size_t\<close>\<close>
  "hit_ratio hits misses =
     fl (fl (fl (of_nat (unat hits)) / fl (of_nat (unat (hits + misses)))) * 100)"

definition one_decimal :: "rat \<Rightarrow> string" where
  \<comment> \<open>\<open>std::fixed << std::setprecision(1)\<close> of a number that is not negative\<close>
  "one_decimal x =
     (let tenths = nat (rnd (10 * x)) in dec_digits (tenths div 10) @ ''.'' @ dec_digits (tenths mod 10))"

definition json_field :: "string \<Rightarrow> string" where
  "json_field name = quote @ name @ quote @ '': ''"

definition json_string :: "string \<Rightarrow> string" where
  \<comment> \<open>the code escapes nothing\<close>
  "json_string s = quote @ s @ quote"

definition api_body :: "string \<Rightarrow> server \<Rightarrow> string" where
  "api_body timestamp s =
     (let (hits, misses, entries, memory) = get_cache_stats (sv_files s) (0, 0, 0, 0)
      in ''{'' @ newline @
         ''  '' @ json_field ''server'' @ json_string ''MultithreadedWebServer/1.0'' @ '','' @ newline @
         ''  '' @ json_field ''timestamp'' @ json_string timestamp @ '','' @ newline @
         ''  '' @ json_field ''thread_pool_size'' @ dec_digits (sv_thread_count s) @ '','' @ newline @
         ''  '' @ json_field ''queue_size'' @ dec_digits (length (sv_queue s)) @ '','' @ newline @
         ''  '' @ json_field ''active_connections'' @ dec_digits (length (sv_connections s)) @ '','' @ newline @
         ''  '' @ json_field ''document_root'' @ json_string (fh_document_root (sv_files s)) @ '','' @ newline @
         ''  '' @ json_field ''architecture'' @ json_string ''epoll + thread_pool + lru_cache'' @ '','' @ newline @
         ''  '' @ json_field ''http_version'' @ json_string ''HTTP/1.1'' @ '','' @ newline @
         ''  '' @ json_field ''cache'' @ ''{'' @ newline @
         ''    '' @ json_field ''hits'' @ dec_digits (unat hits) @ '','' @ newline @
         ''    '' @ json_field ''misses'' @ dec_digits (unat misses) @ '','' @ newline @
         ''    '' @ json_field ''entries'' @ dec_digits (unat entries) @ '','' @ newline @
         ''    '' @ json_field ''memory_usage_bytes'' @ dec_digits (unat memory) @
         (if 0 < hits + misses
          then '','' @ newline @ ''    '' @ json_field ''hit_ratio_percent'' @ one_decimal (hit_ratio hits misses)
          else []) @
         newline @ ''  }'' @ newline @
         ''}'' @ newline)"

definition handle_api_request :: "nat \<Rightarrow> nat \<Rightarrow> http_request \<Rightarrow> server \<Rightarrow> http_response" where
  \<comment> \<open>\<open>local_now\<close> is the local time, \<open>now\<close> the one for the Date header\<close>
  "handle_api_request local_now now request s =
     (if rq_path request = ''/api/info'' \<or> rq_path request = ''/api/status''
      then set_content_type ''application/json''
             (set_body (api_body (ctime local_now) s) (new_response now OK))
      else create_error_response now NOT_FOUND ''API endpoint not found'')"

section \<open>Requests\<close>

record request_env =
  re_fs :: filesystem
  re_clocks :: clocks
  re_local_time :: nat
  re_order :: "(string \<times> string) list \<Rightarrow> (string \<times> string) list"
    \<comment> \<open>the iteration order of the header table\<close>
  re_finished :: clock    \<comment> \<open>for \<open>last_activity\<close>\<close>

definition build_response ::
    "request_env \<Rightarrow> http_request \<Rightarrow> server \<Rightarrow> (http_response result \<times> server) option" where
  \<comment> \<open>lines 340 to 369: an exception of the file handler leaves the function\<close>
  "build_response env request s =
     (let now = ck_date (re_clocks env)
      in if \<not> rq_valid request
         then Some (Inr (create_error_response now BAD_REQUEST ''Invalid HTTP request''), s)
         else if rq_method request = GET \<or> rq_method request = HEAD then
           (let path = rq_path request;
                finish = (\<lambda>response. if rq_method request = HEAD then set_body [] response else response)
            in if starts_with ''/api/'' path
               then Some (Inr (finish (handle_api_request (re_local_time env) now request s)), s)
               else (case handle_file_request (re_fs env) (re_clocks env) path (sv_files s) of
                       None \<Rightarrow> None
                     | Some (Inl e, fh) \<Rightarrow> Some (Inl e, s\<lparr>sv_files := fh\<rparr>)
                     | Some (Inr response, fh) \<Rightarrow> Some (Inr (finish response), s\<lparr>sv_files := fh\<rparr>)))
         else Some (Inr (create_error_response now METHOD_NOT_ALLOWED ''Method not supported''), s))"

definition note_keep_alive :: "nat \<Rightarrow> http_request \<Rightarrow> server \<Rightarrow> server" where
  "note_keep_alive r request s =
     (if rq_valid request then upd_conn r (\<lambda>c. c\<lparr>cn_keep_alive := is_keep_alive request\<rparr>) s else s)"

definition post_response :: "nat \<Rightarrow> string \<Rightarrow> server \<Rightarrow> server" where
  "post_response r text s =
     upd_conn r (\<lambda>c. c\<lparr>cn_pending_response := text, cn_response_offset := 0, cn_has_pending_write := True\<rparr>) s"

definition stop_processing :: "nat \<Rightarrow> server \<Rightarrow> server" where
  "stop_processing r s = upd_conn r (\<lambda>c. c\<lparr>cn_processing_request := False\<rparr>) s"

definition finish_request :: "nat \<Rightarrow> clock \<Rightarrow> server \<Rightarrow> server" where
  "finish_request r now s =
     upd_conn r (\<lambda>c. c\<lparr>cn_buffer := [], cn_processing_request := False, cn_last_activity := now\<rparr>) s"

definition handle_client_request ::
    "request_env \<Rightarrow> send_outcome \<Rightarrow> nat \<Rightarrow> server \<Rightarrow> (unit result \<times> server) option" where
  "handle_client_request env outcome r s =
     (let request = parse_request (cn_buffer (get_conn r s));
          s1 = note_keep_alive r request s
      in case build_response env request s1 of
           None \<Rightarrow> None
         | Some (Inl e, s2) \<Rightarrow> Some (Inl e, s2)
         | Some (Inr response, s2) \<Rightarrow>
             (let conn = get_conn r s2;
                  text = response_to_string (re_order env) (set_keep_alive (cn_keep_alive conn) response)
              in if find_conn (cn_fd conn) s2 = None then Some (Inr (), stop_processing r s2)
                 else Some (Inr (), finish_request r (re_finished env)
                        (send_response_async r outcome (post_response r text s2)))))"

section \<open>Events\<close>

record event_outcomes =
  eo_accepts :: "accept_outcome list"
  eo_received :: recv_outcome
  eo_sent :: send_outcome
  eo_now :: clock

definition mask_has :: "u32 \<Rightarrow> u32 \<Rightarrow> bool" where
  "mask_has events wanted \<longleftrightarrow> and events wanted \<noteq> 0"

definition handle_event :: "event_outcomes \<Rightarrow> epoll_report \<Rightarrow> server \<Rightarrow> (std_error + server) option" where
  \<comment> \<open>the body of the loop over the events; an exception ends the event thread\<close>
  "handle_event eo event s =
     (if ev_fd event = sv_server_fd s
      then if mask_has (ev_events event) EPOLLIN then map_option Inr (handle_accept (eo_accepts eo) s)
           else Some (Inr s)
      else case (if mask_has (ev_events event) mask_read
                 then handle_client_data (ev_fd event) (eo_received eo) (eo_now eo) s else Inr s) of
             Inl e \<Rightarrow> Some (Inl e)
           | Inr s1 \<Rightarrow>
               Some (Inr (if mask_has (ev_events event) EPOLLOUT
                          then handle_client_write (ev_fd event) (eo_sent eo) s1 else s1)))"

fun handle_events :: "(event_outcomes \<times> epoll_report) list \<Rightarrow> server \<Rightarrow> (std_error + server) option" where
  "handle_events [] s = Some (Inr s)"
| "handle_events ((eo, event) # events) s =
     (case handle_event eo event s of
        Some (Inr s1) \<Rightarrow> handle_events events s1
      | other \<Rightarrow> other)"

definition event_round ::
    "errno + (event_outcomes \<times> int \<times> u32) list \<Rightarrow> clock \<Rightarrow> server \<Rightarrow> (std_error + server) option" where
  \<comment> \<open>one round of \<open>event_loop\<close>: the events \<open>epoll_wait\<close> reports, each with what the calls made for
      it will return, then the clean-up\<close>
  "event_round waited now s =
     (case wait_for_events (map_sum id (map snd) waited) [] (sv_epoll s) of
        (n, reports) \<Rightarrow>
          if n = - 1 then Some (Inr s)
          else case handle_events (zip (map fst (projr waited)) reports) s of
                 Some (Inr s1) \<Rightarrow> Some (Inr (cleanup_inactive_connections now s1))
               | other \<Rightarrow> other)"

section \<open>Starting and stopping\<close>

record start_outcomes =
  so_socket :: "errno + int"
  so_getfl :: "errno + int"
  so_setfl :: "errno option"
  so_reuseaddr :: "errno option"
  so_bind :: "errno option"
  so_listen :: "errno option"
  so_epoll_create :: "errno + int"
  so_epoll_add :: "errno option"

definition start_server :: "start_outcomes \<Rightarrow> server \<Rightarrow> bool \<times> server" where
  \<comment> \<open>the options whose failure only prints a warning are left out\<close>
  "start_server so s =
     (case so_socket so of
        Inl _ \<Rightarrow> (False, s\<lparr>sv_server_fd := - 1\<rparr>)
      | Inr fd \<Rightarrow>
          (let s = s\<lparr>sv_server_fd := fd\<rparr>
           in if \<not> set_non_blocking (so_getfl so) (so_setfl so) \<or> so_reuseaddr so \<noteq> None \<or>
                 so_bind so \<noteq> None \<or> so_listen so \<noteq> None
              then (False, do_call (Sys_close fd) s)
              else let (created, ep) = epoll_init (so_epoll_create so) (sv_epoll s);
                       s = s\<lparr>sv_epoll := ep\<rparr>
                   in if \<not> created then (False, do_call (Sys_close fd) s)
                      else let (added, ep) = add_fd (so_epoll_add so) fd None (sv_epoll s);
                               s = do_call (Sys_epoll_add fd EPOLLIN) (s\<lparr>sv_epoll := ep\<rparr>)
                           in if \<not> added then (False, do_call (Sys_close fd) s)
                              else (True, s\<lparr>sv_running := True\<rparr>)))"

definition stop_server :: "server \<Rightarrow> server" where
  \<comment> \<open>the pool and the event thread have been joined when the connections are closed; the thread
      count is that of the cleared vector\<close>
  "stop_server s =
     (if sv_running s then
        let s1 = s\<lparr>sv_running := False, sv_pool_shutdown := True, sv_thread_count := 0\<rparr>;
            s2 = foldl (\<lambda>s fd. release_fd fd s) s1 (map fst (sv_connections s1));
            s3 = s2\<lparr>sv_connections := []\<rparr>
        in if sv_server_fd s3 \<noteq> - 1
           then (release_fd (sv_server_fd s3) s3)\<lparr>sv_server_fd := - 1\<rparr> else s3
      else s)"

section \<open>Responses\<close>

lemma api_response_ok: "response_ok (handle_api_request local_now now request s)"
proof -
  let ?r = "set_content_type ''application/json'' (set_body (api_body (ctime local_now) s) (new_response now OK))"
  have v: "good_value ''application/json''" by (simp add: good_value_def good_header_def is_blank_def)
  have "header_wf ?r" by (intro inv_intros v)
  moreover have "framed ?r" by (intro inv_intros)
  moreover have "header_wf (create_error_response now NOT_FOUND m)" "framed (create_error_response now NOT_FOUND m)" for m
    by (intro inv_intros)+
  ultimately show ?thesis unfolding handle_api_request_def response_ok_def by (simp split: if_split)
qed

lemma build_response_ok:
  assumes "handler_inv (re_fs env) (sv_files s)"
  shows "\<exists>response fh. build_response env request s = Some (Inr response, s\<lparr>sv_files := fh\<rparr>) \<and>
    handler_inv (re_fs env) fh \<and> response_ok response"
proof -
  have e: "response_ok (create_error_response now st msg)" for now st msg
    unfolding response_ok_def by (intro conjI inv_intros)
  have f: "response_ok (if h then set_body [] x else x)" if "response_ok x" for h x
    using that unfolding response_ok_def by (auto intro: inv_intros)
  obtain x fh where h: "handle_file_request (re_fs env) (re_clocks env) (rq_path request) (sv_files s) = Some (Inr x, fh)"
    "handler_inv (re_fs env) fh" "response_ok x"
    using handle_file_request_ok [OF assms, of "re_clocks env" "rq_path request"] no_exception_escapes by blast
  have same: "s\<lparr>sv_files := sv_files s\<rparr> = s" by simp
  show ?thesis
  proof (cases "rq_valid request \<and> (rq_method request = GET \<or> rq_method request = HEAD)")
    case False
    then have "\<exists>st msg. build_response env request s =
        Some (Inr (create_error_response (ck_date (re_clocks env)) st msg), s\<lparr>sv_files := sv_files s\<rparr>)"
      by (auto simp: build_response_def Let_def)
    then show ?thesis using assms e by blast
  next
    case True
    show ?thesis
    proof (cases "starts_with ''/api/'' (rq_path request)")
      case api: True
      let ?y = "handle_api_request (re_local_time env) (ck_date (re_clocks env)) request s"
      have "build_response env request s =
          Some (Inr (if rq_method request = HEAD then set_body [] ?y else ?y), s\<lparr>sv_files := sv_files s\<rparr>)"
        using True api by (simp add: build_response_def Let_def)
      then show ?thesis using assms f api_response_ok by blast
    next
      case False
      then have "build_response env request s =
          Some (Inr (if rq_method request = HEAD then set_body [] x else x), s\<lparr>sv_files := fh\<rparr>)"
        using True h(1) by (simp add: build_response_def Let_def)
      then show ?thesis using h(2) f [OF h(3)] by blast
    qed
  qed
qed

lemma response_ok_keep_alive: "response_ok x \<Longrightarrow> response_ok (set_keep_alive k x)"
  unfolding response_ok_def by (auto intro: inv_intros)

lemma response_text_nonempty: "response_to_string order x \<noteq> []"
  by (simp add: response_to_string_def status_line_def)

section \<open>One request\<close>

definition open_conn :: "int \<Rightarrow> nat \<Rightarrow> server \<Rightarrow> bool" where
  \<comment> \<open>the map has the connection \<open>r\<close> under its own descriptor\<close>
  "open_conn fd r s \<longleftrightarrow> find_conn fd s = Some r \<and> r < length (sv_heap s) \<and> cn_fd (get_conn r s) = fd"

lemma files_sel [simp]:
  "find_conn fd (s\<lparr>sv_files := fh\<rparr>) = find_conn fd s" "get_conn r (s\<lparr>sv_files := fh\<rparr>) = get_conn r s"
  by (simp_all add: find_conn_def get_conn_def)

lemma note_keep_alive_sel [simp]:
  "sv_heap (s\<lparr>sv_files := fh\<rparr>) = sv_heap s"
  "find_conn fd (note_keep_alive r request s) = find_conn fd s"
  "length (sv_heap (note_keep_alive r request s)) = length (sv_heap s)"
  "sv_calls (note_keep_alive r request s) = sv_calls s" "sv_files (note_keep_alive r request s) = sv_files s"
  by (simp_all add: note_keep_alive_def)

lemma get_note_keep_alive:
  "r < length (sv_heap s) \<Longrightarrow> get_conn r (note_keep_alive r request s) =
     (if rq_valid request then (get_conn r s)\<lparr>cn_keep_alive := is_keep_alive request\<rparr> else get_conn r s)"
  by (simp add: note_keep_alive_def get_upd_conn)

lemma post_response_pending:
  "open_conn fd r s \<Longrightarrow> resp \<noteq> [] \<Longrightarrow> pending_at fd r resp 0 (post_response r resp s) \<and>
   cn_keep_alive (get_conn r (post_response r resp s)) = cn_keep_alive (get_conn r s) \<and>
   sv_calls (post_response r resp s) = sv_calls s"
  by (simp add: open_conn_def pending_at_def post_response_def get_upd_conn)

lemma finish_request_keeps:
  "pending_at fd r resp k s \<Longrightarrow> pending_at fd r resp k (finish_request r now s) \<and>
     cn_keep_alive (get_conn r (finish_request r now s)) = cn_keep_alive (get_conn r s)"
  "r < length (sv_heap s) \<Longrightarrow> delivered fd r keep s \<Longrightarrow> delivered fd r keep (finish_request r now s)"
  "sv_calls (finish_request r now s) = sv_calls s"
  by (auto simp: pending_at_def delivered_def finish_request_def get_upd_conn)

lemma handle_client_write_length [simp]: "length (sv_heap (handle_client_write fd out s)) = length (sv_heap s)"
  by (simp add: handle_client_write_def send_response_async_def send_section_def Let_def
      split: option.split send_outcome.split)

lemma request_delivered:
  assumes "open_conn fd r s" and "request = parse_request (cn_buffer (get_conn r s))"
    and "keep = (if rq_valid request then is_keep_alive request else cn_keep_alive (get_conn r s))"
    and "build_response env request (note_keep_alive r request s) =
      Some (Inr response, (note_keep_alive r request s)\<lparr>sv_files := fh\<rparr>)"
    and "resp = response_to_string (re_order env) (set_keep_alive keep response)"
    and "list_all progressing (out # outcomes)" and "bytes_taken (out # outcomes) \<le> length resp"
  shows "\<exists>s1. handle_client_request env out r s = Some (Inr (), s1) \<and>
    (let s' = fold (handle_client_write fd) outcomes s1
     in sent_on fd (sv_calls s') = sent_on fd (sv_calls s) @ take (bytes_taken (out # outcomes)) resp \<and>
        (if bytes_taken (out # outcomes) = length resp then delivered fd r keep s'
         else pending_at fd r resp (bytes_taken (out # outcomes)) s'))"
proof -
  let ?s2 = "(note_keep_alive r request s)\<lparr>sv_files := fh\<rparr>"
  let ?s3 = "post_response r resp ?s2"
  let ?s4 = "handle_client_write fd out ?s3"
  let ?s5 = "finish_request r (re_finished env) ?s4"
  have o: "open_conn fd r ?s2" "cn_keep_alive (get_conn r ?s2) = keep"
    using assms(1,3) by (simp_all add: open_conn_def get_note_keep_alive)
  have ne: "resp \<noteq> []" using assms(5) response_text_nonempty by simp
  note p = post_response_pending [OF o(1) ne]
  have h: "handle_client_request env out r s = Some (Inr (), ?s5)"
    using o p assms(2,4,5)
    by (simp add: handle_client_request_def Let_def open_conn_def handle_client_write_def pending_at_def)
  have len: "r < length (sv_heap ?s4)" using p by (simp add: pending_at_def)
  have first: "sent_on fd (sv_calls ?s5) = sent_on fd (sv_calls s) @ take (bytes_taken [out]) resp \<and>
    (if bytes_taken [out] = length resp then delivered fd r keep ?s5
     else pending_at fd r resp (bytes_taken [out]) ?s5 \<and> cn_keep_alive (get_conn r ?s5) = keep)"
  proof -
    have b: "0 + bytes_taken [out] \<le> length resp" and pr: "list_all progressing [out]"
      using assms(6,7) by (cases out; simp)+
    have k: "keep = cn_keep_alive (get_conn r ?s3)" using p o(2) by simp
    from p have "pending_at fd r resp 0 ?s3" by simp
    from writes_deliver [OF this k pr b refl] p
      finish_request_keeps(1) [of fd r resp "bytes_taken [out]" ?s4] finish_request_keeps(2) [OF len, of fd keep]
    show ?thesis by (simp add: finish_request_keeps(3) split: if_splits)
  qed
  show ?thesis
  proof (cases "bytes_taken [out] = length resp")
    case True
    with assms(7) have "bytes_taken outcomes = 0" by (cases out) auto
    with True first writes_delivered [of fd r keep ?s5 outcomes] h show ?thesis
      by (cases out) (auto simp: Let_def)
  next
    case False
    have t: "bytes_taken (out # outcomes) = bytes_taken [out] + bytes_taken outcomes" by (cases out) simp_all
    from False first writes_deliver [of fd r resp "bytes_taken [out]" ?s5 keep outcomes, OF _ _ _ _ refl] assms(6,7) h
    show ?thesis unfolding t by (simp add: take_add Let_def split: if_splits)
  qed
qed

section \<open>Receiving a request\<close>

fun receive_pieces :: "int \<Rightarrow> (string \<times> clock) list \<Rightarrow> server \<Rightarrow> std_error + server" where
  \<comment> \<open>one event for each piece of data\<close>
  "receive_pieces fd [] s = Inr s"
| "receive_pieces fd ((bytes, now) # pieces) s =
     (case handle_client_data fd (Received bytes) now s of
        Inl e \<Rightarrow> Inl e
      | Inr s1 \<Rightarrow> receive_pieces fd pieces s1)"

definition buffering :: "int \<Rightarrow> nat \<Rightarrow> string \<Rightarrow> server \<Rightarrow> bool" where
  \<comment> \<open>an open connection that has received part of a request\<close>
  "buffering fd r part s \<longleftrightarrow> open_conn fd r s \<and> cn_buffer (get_conn r s) = part \<and>
     \<not> cn_processing_request (get_conn r s) \<and> \<not> sv_pool_shutdown s"

definition handed_over :: "int \<Rightarrow> nat \<Rightarrow> string \<Rightarrow> server \<Rightarrow> bool" where
  \<comment> \<open>the request is complete and a task has been made for it\<close>
  "handed_over fd r req s \<longleftrightarrow> open_conn fd r s \<and> cn_buffer (get_conn r s) = req \<and>
     cn_processing_request (get_conn r s)"

lemma receive_piece:
  assumes "buffering fd r part s" and "bytes \<noteq> []" and "length part + length bytes \<le> MAX_REQUEST_SIZE"
  shows "\<exists>s1. handle_client_data fd (Received bytes) now s = Inr s1 \<and>
    (if is_http_request_complete (part @ bytes) then handed_over fd r (part @ bytes) s1
     else buffering fd r (part @ bytes) s1) \<and>
    sv_queue s1 = (if is_http_request_complete (part @ bytes) then sv_queue s @ [r] else sv_queue s) \<and>
    sv_calls s1 = sv_calls s \<and> sv_files s1 = sv_files s"
  using assms
  by (auto simp: buffering_def handed_over_def open_conn_def handle_client_data_def append_section_def Let_def
      get_upd_conn enqueue_request_def find_conn_def get_conn_def upd_conn_def)

lemma receive_all:
  assumes "buffering fd r part s" and "part @ concat (map fst pieces) = req" and "\<forall>p \<in> set pieces. fst p \<noteq> []"
    and "\<And>n. is_http_request_complete (take n req) \<longleftrightarrow> length req \<le> n" and "length req \<le> MAX_REQUEST_SIZE"
    and "pieces \<noteq> []"
  shows "\<exists>s1. receive_pieces fd pieces s = Inr s1 \<and> handed_over fd r req s1 \<and>
    sv_queue s1 = sv_queue s @ [r] \<and> sv_calls s1 = sv_calls s \<and> sv_files s1 = sv_files s"
  using assms(1-3,6)
proof (induction pieces arbitrary: s part)
  case (Cons p pieces)
  obtain bytes now where p: "p = (bytes, now)" by (cases p)
  have req: "req = part @ bytes @ concat (map fst pieces)" and ne: "bytes \<noteq> []" using Cons.prems p by auto
  have "length part + length bytes \<le> MAX_REQUEST_SIZE" using req assms(5) by simp
  from receive_piece [OF Cons.prems(1) ne this, of now] obtain s1 where
    s1: "handle_client_data fd (Received bytes) now s = Inr s1"
    "if is_http_request_complete (part @ bytes) then handed_over fd r (part @ bytes) s1
     else buffering fd r (part @ bytes) s1"
    "sv_queue s1 = (if is_http_request_complete (part @ bytes) then sv_queue s @ [r] else sv_queue s)"
    "sv_calls s1 = sv_calls s" "sv_files s1 = sv_files s" by blast
  have "take (length part + length bytes) req = part @ bytes" by (simp add: req)
  with assms(4) [of "length part + length bytes"]
  have c: "is_http_request_complete (part @ bytes) \<longleftrightarrow> concat (map fst pieces) = []" by (simp add: req)
  show ?case
  proof (cases "pieces = []")
    case True
    with s1 c req show ?thesis by (simp add: p)
  next
    case False
    then have "concat (map fst pieces) \<noteq> []" using Cons.prems(3) by (cases pieces) auto
    with c have "\<not> is_http_request_complete (part @ bytes)" by blast
    with s1(2,3) have s2: "buffering fd r (part @ bytes) s1" "sv_queue s1 = sv_queue s" by simp_all
    have "(part @ bytes) @ concat (map fst pieces) = req" by (simp add: req)
    with Cons.IH [OF s2(1) this _ False] Cons.prems(3) show ?thesis by (simp add: p s1(1,4,5) s2(2))
  qed
qed simp


text \<open>A request of 46 bytes.\<close>

definition ex_request :: string where
  "ex_request = render_request GET (url_encode ''/a.txt'') ''HTTP/1.1'' [(''Connection'', ''close'')] []"

definition ex_conn :: connection where
  "ex_conn = new_connection 0 7"

definition ex_server :: server where
  \<comment> \<open>one connection, on descriptor 7\<close>
  "ex_server = (new_server None 4 8 8080 [])\<lparr>sv_files := ex_handler, sv_connections := [(7, 0)], sv_heap := [ex_conn]\<rparr>"

lemma ex_server_sel [simp]:
  "sv_heap ex_server = [ex_conn]" "sv_files ex_server = ex_handler" "sv_queue ex_server = []"
  "sv_calls ex_server = []" "find_conn 7 ex_server = Some 0" "get_conn 0 ex_server = ex_conn"
  "sv_pool_shutdown ex_server = False" "sv_connections ex_server = [(7, 0)]"
  by (simp_all add: ex_server_def new_server_def find_conn_def get_conn_def)

lemma ex_conn_sel [simp]:
  "cn_fd ex_conn = 7" "cn_buffer ex_conn = []" "cn_processing_request ex_conn = False"
  "cn_has_pending_write ex_conn = False" "cn_keep_alive ex_conn = False"
  by (simp_all add: ex_conn_def new_connection_def)

lemma ex_request_bytes: "ex_request = ''GET /a.txt HTTP/1.1'' @ crlf @ ''Connection: close'' @ crlf @ crlf"
  by code_simp


section \<open>Answering a request\<close>

definition answers :: "request_env \<Rightarrow> int \<Rightarrow> nat \<Rightarrow> bool \<Rightarrow> string \<Rightarrow> server \<Rightarrow> bool" where
  \<comment> \<open>the task sends \<open>resp\<close> on \<open>fd\<close>, in the pieces the socket takes, and forgets the request\<close>
  "answers env fd r keep resp s \<longleftrightarrow>
     (\<forall>out outcomes. list_all progressing (out # outcomes) \<and> bytes_taken (out # outcomes) \<le> length resp \<longrightarrow>
        (\<exists>s1. handle_client_request env out r s = Some (Inr (), s1) \<and>
           cn_buffer (get_conn r s1) = [] \<and> \<not> cn_processing_request (get_conn r s1) \<and> sv_queue s1 = sv_queue s \<and>
           (let s' = fold (handle_client_write fd) outcomes s1
            in sent_on fd (sv_calls s') = sent_on fd (sv_calls s) @ take (bytes_taken (out # outcomes)) resp \<and>
               (if bytes_taken (out # outcomes) = length resp then delivered fd r keep s'
                else pending_at fd r resp (bytes_taken (out # outcomes)) s'))))"

lemma send_frame [simp]:
  "sv_queue (send_response_async r out s) = sv_queue s"
  "length (sv_heap (send_response_async r out s)) = length (sv_heap s)"
  by (simp_all add: send_response_async_def send_section_def Let_def split: send_outcome.split)

lemma finished:
  assumes "build_response env (parse_request (cn_buffer (get_conn r s)))
      (note_keep_alive r (parse_request (cn_buffer (get_conn r s))) s) = Some (Inr response, s2)"
    and "s2 = (note_keep_alive r (parse_request (cn_buffer (get_conn r s))) s)\<lparr>sv_files := fh\<rparr>"
    and "open_conn fd r s" and "handle_client_request env out r s = Some (res, s1)"
  shows "cn_buffer (get_conn r s1) = [] \<and> \<not> cn_processing_request (get_conn r s1) \<and> sv_queue s1 = sv_queue s"
proof -
  have "find_conn (cn_fd (get_conn r s2)) s2 \<noteq> None"
    using assms(2,3) by (simp add: open_conn_def get_note_keep_alive)
  with assms(1,3,4) have "\<exists>resp. s1 = finish_request r (re_finished env)
      (send_response_async r out (post_response r resp s2))"
    by (auto simp: handle_client_request_def Let_def)
  then show ?thesis
    using assms(2,3) by (auto simp: finish_request_def get_upd_conn open_conn_def post_response_def note_keep_alive_def)
qed

lemma request_answered:
  assumes "open_conn fd r s" and "request = parse_request (cn_buffer (get_conn r s))"
    and "keep = (if rq_valid request then is_keep_alive request else cn_keep_alive (get_conn r s))"
    and "build_response env request (note_keep_alive r request s) =
      Some (Inr response, (note_keep_alive r request s)\<lparr>sv_files := fh\<rparr>)"
  shows "answers env fd r keep (response_to_string (re_order env) (set_keep_alive keep response)) s"
  unfolding answers_def
  using request_delivered [OF assms refl] finished [OF assms(4) [unfolded assms(2)] refl assms(1)] by blast

lemma connection_header:
  "map_of (rs_headers (set_keep_alive k x)) ''Connection'' = Some (if k then ''keep-alive'' else ''close'')"
  "rs_status (set_keep_alive k x) = rs_status x" "rs_body (set_keep_alive k x) = rs_body x"
  "status_line (set_keep_alive k x) = status_line x"
  "n \<notin> {''Connection'', ''Keep-Alive''} \<Longrightarrow> map_of (rs_headers (set_keep_alive k x)) n = map_of (rs_headers x) n"
  by (auto simp: set_keep_alive_def set_header_def status_line_def AList.update_conv')

lemma answer_readable:
  assumes "response_ok x" and "length (rs_body x) < 2 ^ 64" and "\<And>xs. mset (order xs) = mset xs"
    and "resp = response_to_string order (set_keep_alive k x)"
  shows "\<exists>hs. client_read resp = Some (status_line x, hs, rs_body x, []) \<and>
    map_of hs ''Connection'' = Some (if k then ''keep-alive'' else ''close'') \<and>
    map_of hs ''Content-Type'' = map_of (rs_headers x) ''Content-Type''"
proof -
  have "header_wf (set_keep_alive k x)" "framed (set_keep_alive k x)"
    using response_ok_keep_alive [OF assms(1)] by (simp_all add: response_ok_def)
  from response_readable [OF this _ assms(3), of "[]"] assms(2,4)
  show ?thesis by (auto simp: to_bytes_def connection_header)
qed

text \<open>C17: The task of a request.  It always comes to an end without an exception, whatever bytes the
  connection holds: there is a response, which a client reads as exactly one message with the right
  Connection header, and which is sent in full however the socket cuts it.  The buffer is then
  empty and nothing is queued: bytes of a second request that came with the first are gone.\<close>

theorem task_answers:
  assumes "open_conn fd r s" and "handler_inv (re_fs env) (sv_files s)"
    and "\<And>xs. mset (re_order env xs) = mset xs"
    and "request = parse_request (cn_buffer (get_conn r s))"
    and "keep = (if rq_valid request then is_keep_alive request else cn_keep_alive (get_conn r s))"
  shows "\<exists>response fh. build_response env request (note_keep_alive r request s) =
      Some (Inr response, (note_keep_alive r request s)\<lparr>sv_files := fh\<rparr>) \<and> handler_inv (re_fs env) fh \<and>
    (length (rs_body response) < 2 ^ 64 \<longrightarrow>
       (\<exists>resp hs. client_read resp = Some (status_line response, hs, rs_body response, []) \<and>
          map_of hs ''Connection'' = Some (if keep then ''keep-alive'' else ''close'') \<and>
          answers env fd r keep resp s))"
proof -
  have "handler_inv (re_fs env) (sv_files (note_keep_alive r request s))" using assms(2) by simp
  from build_response_ok [OF this, of request] obtain response fh where
    b: "build_response env request (note_keep_alive r request s) =
      Some (Inr response, (note_keep_alive r request s)\<lparr>sv_files := fh\<rparr>)" "handler_inv (re_fs env) fh"
      "response_ok response" by blast
  then show ?thesis
    using request_answered [OF assms(1,4,5) b(1)] answer_readable [OF b(3) _ assms(3) refl] by blast
qed

lemma ex_handler_ok: "handler_inv ex_fs ex_handler"
  by (simp add: ex_handler_def new_handler_inv)

definition ex_env :: request_env where
  "ex_env = \<lparr>re_fs = ex_fs, re_clocks = ex_clocks, re_local_time = 0, re_order = rev, re_finished = 9\<rparr>"

definition ex_full :: server where
  \<comment> \<open>\<open>ex_server\<close> when the request has come in\<close>
  "ex_full = ex_server\<lparr>sv_heap := [ex_conn\<lparr>cn_buffer := ex_request, cn_processing_request := True\<rparr>]\<rparr>"

lemma ex_full_sel [simp]:
  "sv_files ex_full = ex_handler" "get_conn 0 ex_full = ex_conn\<lparr>cn_buffer := ex_request, cn_processing_request := True\<rparr>"
  "open_conn 7 0 ex_full" "sv_calls ex_full = []" "re_fs ex_env = ex_fs" "mset (re_order ex_env xs) = mset xs"
  "re_clocks ex_env = ex_clocks"
  by (simp_all add: ex_full_def get_conn_def open_conn_def ex_env_def find_conn_def ex_server_def new_server_def ex_conn_def
      new_connection_def)

definition bad_request :: string where
  "bad_request = ''X'' @ crlf @ crlf"

definition ex_bad :: server where
  "ex_bad = ex_server\<lparr>sv_heap := [ex_conn\<lparr>cn_buffer := bad_request, cn_processing_request := True\<rparr>]\<rparr>"

lemma ex_bad_sel [simp]:
  "sv_files ex_bad = ex_handler" "get_conn 0 ex_bad = ex_conn\<lparr>cn_buffer := bad_request, cn_processing_request := True\<rparr>"
  "open_conn 7 0 ex_bad" "sv_calls ex_bad = []"
  by (simp_all add: ex_bad_def get_conn_def open_conn_def find_conn_def ex_server_def new_server_def ex_conn_def
      new_connection_def)

theorem task_answers_witness:
  "\<exists>resp hs body. client_read resp = Some (''HTTP/1.1 400 Bad Request'', hs, body, []) \<and>
     map_of hs ''Connection'' = Some ''close'' \<and> answers ex_env 7 0 False resp ex_bad"
proof -
  let ?x = "create_error_response 0 BAD_REQUEST ''Invalid HTTP request''"
  have v: "\<not> rq_valid (parse_request bad_request)" by code_simp
  have b: "build_response ex_env (parse_request bad_request) (note_keep_alive 0 (parse_request bad_request) ex_bad) =
      Some (Inr ?x, note_keep_alive 0 (parse_request bad_request) ex_bad)"
    using v by (simp add: build_response_def Let_def) (simp add: ex_clocks_def)
  have "length (error_body BAD_REQUEST ''Invalid HTTP request'') \<le> 1000" by code_simp
  moreover have st: "status_line ?x = ''HTTP/1.1 400 Bad Request''"
    using create_error_response_ok [of 0 BAD_REQUEST "''Invalid HTTP request''"]
    by (simp add: status_line_def header_wf_def dec_digits.simps char_eval)
  ultimately have len: "length (rs_body ?x) < 2 ^ 64" by simp
  from task_answers [of 7 0 ex_bad ex_env "parse_request bad_request" False] ex_handler_ok v obtain response fh where
    t: "build_response ex_env (parse_request bad_request) (note_keep_alive 0 (parse_request bad_request) ex_bad) =
      Some (Inr response, (note_keep_alive 0 (parse_request bad_request) ex_bad)\<lparr>sv_files := fh\<rparr>)"
    "length (rs_body response) < 2 ^ 64 \<longrightarrow>
       (\<exists>resp hs. client_read resp = Some (status_line response, hs, rs_body response, []) \<and>
          map_of hs ''Connection'' = Some ''close'' \<and> answers ex_env 7 0 False resp ex_bad)" by auto
  from t(1) have "response = ?x" unfolding b by simp
  with t(2) len st show ?thesis by metis
qed

text \<open>C1: The whole way of a file.  A connection has received the GET request of a client for a readable
  file below the document root.  However the socket cuts the response, what is sent on the
  connection is one message that the client reads as status 200, with exactly the bytes of the
  file and the type of its extension.\<close>

theorem file_delivered:
  assumes "open_conn fd r s" and "handler_inv (re_fs env) (sv_files s)" and "canonical_laws (re_fs env)"
    and "\<And>xs. mset (re_order env xs) = mset xs"
    and "cn_buffer (get_conn r s) = render_request GET (url_encode path) ''HTTP/1.1'' headers []"
    and "list_all printable path" and "path \<noteq> []" and "hd path = CHR ''/''" and "list_all good_header headers"
    and "\<not> starts_with ''/api/'' path"
    and "resolve_path (sv_files s) path = p" and "fs_exists (re_fs env) p = Inr True"
    and "fs_canonical (re_fs env) (fh_document_root (sv_files s)) = Inr base"
    and "fs_canonical (re_fs env) p = Inr q" and "inside base q"
    and "fs_is_directory (re_fs env) p = Inr False" and "fs_is_regular_file (re_fs env) p = Inr True"
    and "fs_file_size (re_fs env) p = Inr n" and "n \<le> fh_max_file_size (sv_files s)"
    and "read_file (re_fs env) p = Inr (Some d)" and "length d < 2 ^ 64"
  shows "\<exists>resp hs keep. client_read resp = Some (''HTTP/1.1 200 OK'', hs, d, []) \<and>
    map_of hs ''Content-Type'' = Some (get_mime_type (path_extension p)) \<and> answers env fd r keep resp s"
proof -
  let ?rq = "parse_request (cn_buffer (get_conn r s))"
  let ?s = "note_keep_alive r ?rq s"
  have rq: "rq_valid ?rq" "rq_path ?rq = path" "rq_method ?rq = GET"
    using request_accepted [of GET "''HTTP/1.1''" path headers "[]"] assms(5-9)
    by (simp_all add: good_body_def content_length_ok_def)
  from file_request_served [OF assms(2,3,11-20), of "re_clocks env"] obtain x fh where
    h: "handle_file_request (re_fs env) (re_clocks env) path (sv_files s) = Some (Inr x, fh)" and
    x: "rs_status x = OK" "rs_body x = d" "response_ok x"
      "map_of (rs_headers x) ''Content-Type'' = Some (get_mime_type (path_extension p))"
    unfolding response_ok_def by blast
  from h rq assms(10) have b: "build_response env ?rq ?s = Some (Inr x, ?s\<lparr>sv_files := fh\<rparr>)"
    by (simp add: build_response_def Let_def)
  have "status_line x = ''HTTP/1.1 200 OK''"
    using x(1,3) by (simp add: status_line_def response_ok_def header_wf_def dec_digits.simps char_eval)
  with answer_readable [OF x(3) _ assms(4) refl] request_answered [OF assms(1) refl refl b] x(2,4) assms(21)
  show ?thesis by metis
qed

theorem file_delivered_witness:
  "\<exists>resp hs keep. client_read resp = Some (''HTTP/1.1 200 OK'', hs, ''hello'', []) \<and>
    map_of hs ''Content-Type'' = Some ''text/plain; charset=utf-8'' \<and> answers ex_env 7 0 keep resp ex_full"
proof -
  have "resolve_path ex_handler ''/a.txt'' = ''/srv/a.txt''" by (simp add: resolve_path_def)
  moreover have "inside [''srv''] [''srv'', ''a.txt'']" by (simp add: inside_def)
  moreover have "read_file ex_fs ''/srv/a.txt'' = Inr (Some ''hello'')"
    by (simp add: read_file_def ex_fs_def ex_regular_def ex_paths_def ex_bytes_def)
  moreover have "get_mime_type (path_extension ''/srv/a.txt'') = ''text/plain; charset=utf-8''" by code_simp
  moreover have "list_all printable ''/a.txt''" by (simp add: printable_def)
  moreover have "list_all good_header [(''Connection'', ''close'')]" by (simp add: good_header_def is_blank_def)
  moreover have "fs_exists ex_fs ''/srv/a.txt'' = Inr True" "fs_canonical ex_fs ''/srv/'' = Inr [''srv'']"
    "fs_canonical ex_fs ''/srv/a.txt'' = Inr [''srv'', ''a.txt'']" "fs_is_directory ex_fs ''/srv/a.txt'' = Inr False"
    "fs_is_regular_file ex_fs ''/srv/a.txt'' = Inr True" "fs_file_size ex_fs ''/srv/a.txt'' = Inr 5"
    by (simp_all add: ex_fs_def ex_regular_def ex_paths_def ex_bytes_def)
  ultimately show ?thesis
    using file_delivered [of 7 0 ex_full ex_env "''/a.txt''" "[(''Connection'', ''close'')]" "''/srv/a.txt''" "[''srv'']"
        "[''srv'', ''a.txt'']" 5 "''hello''"] ex_canonical_laws ex_handler_ok
    by (simp add: starts_with_def ex_request_def)
qed

section \<open>Requests that overlap\<close>

text \<open>C20: A client that sends its next request before it has read the whole of a response loses the rest of
  that response: the request is accepted, and its answer replaces what is pending, so that the
  stream goes on, in the middle of the first body, with the second message.\<close>

theorem overlapping_response_truncated:
  assumes "pending_at fd r old k s" and "buffering fd r [] s" and "handler_inv (re_fs env) (sv_files s)"
    and "bytes \<noteq> []" and "length bytes \<le> MAX_REQUEST_SIZE" and "is_http_request_complete bytes"
    and "sent_on fd (sv_calls s) = before @ take k old"
  shows "\<exists>s0 x resp. handle_client_data fd (Received bytes) now s = Inr s0 \<and> sv_queue s0 = sv_queue s @ [r] \<and>
    resp = response_to_string (re_order env) x \<and>
    (\<forall>out outcomes. list_all progressing (out # outcomes) \<and> bytes_taken (out # outcomes) = length resp \<longrightarrow>
       (\<exists>s1. handle_client_request env out r s0 = Some (Inr (), s1) \<and>
          sent_on fd (sv_calls (fold (handle_client_write fd) outcomes s1)) = before @ take k old @ resp))"
proof -
  from receive_piece [OF assms(2,4)] assms(5,6) obtain s0 where
    s0: "handle_client_data fd (Received bytes) now s = Inr s0" "handed_over fd r bytes s0" "sv_queue s0 = sv_queue s @ [r]"
      "sv_calls s0 = sv_calls s" "sv_files s0 = sv_files s" by force
  let ?rq = "parse_request (cn_buffer (get_conn r s0))"
  have o: "open_conn fd r s0" using s0(2) by (simp add: handed_over_def)
  have "handler_inv (re_fs env) (sv_files (note_keep_alive r ?rq s0))" using assms(3) s0(5) by simp
  from build_response_ok [OF this, of ?rq] obtain response fh where
    b: "build_response env ?rq (note_keep_alive r ?rq s0) = Some (Inr response, (note_keep_alive r ?rq s0)\<lparr>sv_files := fh\<rparr>)"
    by blast
  define x where "x = set_keep_alive (if rq_valid ?rq then is_keep_alive ?rq else cn_keep_alive (get_conn r s0)) response"
  from request_answered [OF o refl refl b] have a: "\<exists>keep. answers env fd r keep (response_to_string (re_order env) x) s0"
    unfolding x_def by blast
  have "\<exists>s1. handle_client_request env out r s0 = Some (Inr (), s1) \<and>
      sent_on fd (sv_calls (fold (handle_client_write fd) outcomes s1)) =
        before @ take k old @ response_to_string (re_order env) x"
    if "list_all progressing (out # outcomes)" "bytes_taken (out # outcomes) = length (response_to_string (re_order env) x)"
    for out outcomes
    using a that s0(4) assms(7) unfolding answers_def Let_def by fastforce
  then show ?thesis using s0(1,3) by blast
qed

theorem overlapping_response_truncated_witness:
  "let s = ex_server\<lparr>sv_heap := [ex_conn\<lparr>cn_pending_response := ''0123456789'', cn_response_offset := 4,
         cn_has_pending_write := True, cn_keep_alive := True\<rparr>], sv_calls := [Sys_send 7 ''0123'']\<rparr>
   in \<exists>s0 x. handle_client_data 7 (Received bad_request) 0 s = Inr s0 \<and>
        (\<exists>s1. handle_client_request ex_env (Sent (length (response_to_string rev x))) 0 s0 = Some (Inr (), s1) \<and>
           sent_on 7 (sv_calls s1) = ''0123'' @ response_to_string rev x)"
proof -
  let ?c = "ex_conn\<lparr>cn_pending_response := ''0123456789'', cn_response_offset := 4, cn_has_pending_write := True,
    cn_keep_alive := True\<rparr>"
  let ?s = "ex_server\<lparr>sv_heap := [?c], sv_calls := [Sys_send 7 ''0123'']\<rparr>"
  have g: "find_conn 7 ?s = Some 0" "get_conn 0 ?s = ?c"
    by (simp_all add: find_conn_def get_conn_def ex_server_def new_server_def)
  have "pending_at 7 0 ''0123456789'' 4 ?s" "buffering 7 0 [] ?s"
    using g by (simp_all add: pending_at_def buffering_def open_conn_def)
  moreover have "is_http_request_complete bad_request" by code_simp
  moreover have "bad_request \<noteq> []" "length bad_request \<le> MAX_REQUEST_SIZE"
    by (simp_all add: bad_request_def crlf_def MAX_REQUEST_SIZE_def)
  ultimately obtain s0 x resp where r: "handle_client_data 7 (Received bad_request) 0 ?s = Inr s0"
    "resp = response_to_string (re_order ex_env) x"
    "\<forall>out outcomes. list_all progressing (out # outcomes) \<and> bytes_taken (out # outcomes) = length resp \<longrightarrow>
       (\<exists>s1. handle_client_request ex_env out 0 s0 = Some (Inr (), s1) \<and>
          sent_on 7 (sv_calls (fold (handle_client_write 7) outcomes s1)) = [] @ take 4 ''0123456789'' @ resp)"
    using overlapping_response_truncated [of 7 0 "''0123456789''" 4 ?s ex_env bad_request "[]" 0] ex_handler_ok by auto
  have "0 < length resp" using response_text_nonempty r(2) by simp
  with r(3) [rule_format, of "Sent (length resp)" "[]"] r(1,2) show ?thesis
    by (auto simp: Let_def ex_env_def)
qed

section \<open>Idle connections\<close>

lemma foldl_close:
  "distinct fds \<Longrightarrow> \<forall>fd \<in> set fds. find_conn fd s \<noteq> None \<Longrightarrow>
   find_conn fd (foldl (\<lambda>s fd. close_connection fd s) s fds) = (if fd \<in> set fds then None else find_conn fd s) \<and>
   sv_calls (foldl (\<lambda>s fd. close_connection fd s) s fds) =
     sv_calls s @ concat (map (\<lambda>fd. [Sys_epoll_del fd, Sys_close fd]) fds)"
proof (induction fds arbitrary: s)
  case (Cons f fds)
  then have "\<forall>fd \<in> set fds. find_conn fd (close_connection f s) \<noteq> None" by auto
  with Cons show ?case by (auto simp: close_connection_calls)
qed simp

lemma inactive_fds_iff:
  assumes "distinct (map fst (sv_connections s))"
  shows "fd \<in> set (inactive_fds now s) \<longleftrightarrow> (\<exists>r. find_conn fd s = Some r \<and> is_inactive now (get_conn r s))"
    and "distinct (inactive_fds now s)"
proof -
  show "fd \<in> set (inactive_fds now s) \<longleftrightarrow> (\<exists>r. find_conn fd s = Some r \<and> is_inactive now (get_conn r s))"
    using assms by (force simp: inactive_fds_def find_conn_def map_of_eq_Some_iff)
  show "distinct (inactive_fds now s)"
    using assms unfolding inactive_fds_def by (rule distinct_map_filter)
qed

text \<open>C22: The clean-up closes exactly the connections that have been idle for more than 30 seconds and have
  no response pending, each once, and keeps the others: a client that never reads its response is
  never timed out.\<close>

theorem cleanup_exact:
  assumes "distinct (map fst (sv_connections s))"
  shows "let s1 = cleanup_inactive_connections now s in
    (\<forall>fd. find_conn fd s1 = (case find_conn fd s of None \<Rightarrow> None
       | Some r \<Rightarrow> if 30 < duration_seconds (now - cn_last_activity (get_conn r s)) \<and>
           \<not> cn_has_pending_write (get_conn r s) then None else Some r)) \<and>
    distinct (inactive_fds now s) \<and>
    sv_calls s1 = sv_calls s @ concat (map (\<lambda>fd. [Sys_epoll_del fd, Sys_close fd]) (inactive_fds now s))"
proof -
  note i = inactive_fds_iff [OF assms, where now = now]
  have "\<forall>fd \<in> set (inactive_fds now s). find_conn fd s \<noteq> None" using i(1) by auto
  note f = foldl_close [OF i(2) this]
  show ?thesis
    unfolding Let_def cleanup_inactive_connections_def using f i
    by (auto simp: is_inactive_def CONNECTION_TIMEOUT_SECONDS_def split: option.split)
qed

theorem cleanup_exact_witness:
  "let c = (new_connection 0 7)\<lparr>cn_has_pending_write := True\<rparr>;
       s = (new_server None 4 8 8080 [])\<lparr>sv_heap := [c, new_connection 0 8], sv_connections := [(7, 0), (8, 1)]\<rparr>
   in find_conn 7 (cleanup_inactive_connections 31000000000 s) = Some 0 \<and>
      find_conn 8 (cleanup_inactive_connections 31000000000 s) = None"
  using cleanup_exact [where now = 31000000000 and s = "(new_server None 4 8 8080 [])\<lparr>sv_heap :=
      [(new_connection 0 7)\<lparr>cn_has_pending_write := True\<rparr>, new_connection 0 8], sv_connections := [(7, 0), (8, 1)]\<rparr>"]
  by (simp add: Let_def find_conn_def get_conn_def new_connection_def new_server_def duration_seconds_def)

section \<open>Accepting\<close>

text \<open>An error of \<open>accept\<close> that persists keeps the event thread in \<open>handle_accept\<close> for ever: only
  \<open>EAGAIN\<close> leaves the loop, and with \<open>EMFILE\<close>, when the descriptors have run out, the very connections
  whose closing would end it are never looked at.\<close>

theorem accept_error_spins:
  "handle_accept (map Accept_failed es) s = (if EAGAIN \<in> set es then Some s else None)"
  by (induction es) auto

section \<open>Shutting down\<close>

text \<open>\<open>stop\<close> shuts the pool down before it joins the event thread: a request that becomes complete in
  between makes \<open>enqueue\<close> throw, nothing in the event thread catches it, and the exception leaves
  the thread function (\<open>std::terminate\<close>).\<close>

theorem shutdown_race_terminates:
  assumes "open_conn fd r s" and "sv_pool_shutdown s" and "\<not> cn_processing_request (get_conn r s)"
    and "is_http_request_complete (cn_buffer (get_conn r s) @ bytes)" and "bytes \<noteq> []"
    and "length (cn_buffer (get_conn r s)) + length bytes \<le> MAX_REQUEST_SIZE"
    and "fd \<noteq> sv_server_fd s" and "eo_received eo = Received bytes"
  shows "event_round (Inr [(eo, fd, EPOLLIN)]) now s = Some (Inl (Runtime_error ''ThreadPool is shutdown''))"
proof -
  have m: "mask_has EPOLLIN mask_read" by (simp add: mask_has_def mask_read_def EPOLLIN_def EPOLLHUP_def EPOLLERR_def)
  have d: "handle_client_data fd (Received bytes) t s = Inl (Runtime_error ''ThreadPool is shutdown'')" for t
    using assms(1-6) by (simp add: open_conn_def handle_client_data_def append_section_def Let_def get_upd_conn
        enqueue_request_def)
  show ?thesis
    using m d assms(7,8) by (simp add: event_round_def handle_event_def wait_for_events_def)
qed

theorem shutdown_race_terminates_witness:
  "event_round (Inr [(\<lparr>eo_accepts = [], eo_received = Received bad_request, eo_sent = Sent 0, eo_now = 0\<rparr>, 7, EPOLLIN)])
     0 (ex_server\<lparr>sv_pool_shutdown := True\<rparr>) = Some (Inl (Runtime_error ''ThreadPool is shutdown''))"
proof -
  let ?s = "ex_server\<lparr>sv_pool_shutdown := True\<rparr>"
  have "is_http_request_complete bad_request" by code_simp
  moreover have "bad_request \<noteq> []" "length bad_request \<le> MAX_REQUEST_SIZE"
    by (simp_all add: bad_request_def crlf_def MAX_REQUEST_SIZE_def)
  moreover have "open_conn 7 0 ?s" "get_conn 0 ?s = ex_conn" "sv_server_fd ?s = - 1"
    by (simp_all add: open_conn_def find_conn_def get_conn_def) (simp add: ex_server_def new_server_def)
  ultimately show ?thesis
    using shutdown_race_terminates [of 7 0 ?s bad_request
        "\<lparr>eo_accepts = [], eo_received = Received bad_request, eo_sent = Sent 0, eo_now = 0\<rparr>" 0] by simp
qed

section \<open>One connection does not disturb another\<close>

fun call_fd :: "syscall \<Rightarrow> int" where
  "call_fd (Sys_epoll_add fd _) = fd"
| "call_fd (Sys_epoll_mod fd _) = fd"
| "call_fd (Sys_epoll_del fd) = fd"
| "call_fd (Sys_close fd) = fd"
| "call_fd (Sys_send fd _) = fd"

definition touches_only :: "int \<Rightarrow> nat \<Rightarrow> server \<Rightarrow> server \<Rightarrow> bool" where
  \<comment> \<open>nothing but the descriptor \<open>fd\<close> and the connection object \<open>r\<close>\<close>
  "touches_only fd r s s1 \<longleftrightarrow>
     (\<forall>j. j \<noteq> fd \<longrightarrow> find_conn j s1 = find_conn j s) \<and> (\<forall>i. i \<noteq> r \<longrightarrow> get_conn i s1 = get_conn i s) \<and>
     cn_fd (get_conn r s1) = cn_fd (get_conn r s) \<and> length (sv_heap s1) = length (sv_heap s) \<and>
     (find_conn fd s1 = find_conn fd s \<or> find_conn fd s1 = None) \<and>
     (\<exists>cs. sv_calls s1 = sv_calls s @ cs \<and> (\<forall>c \<in> set cs. call_fd c = fd))"

lemma touches_only_refl [simp]: "touches_only fd r s s"
  by (simp add: touches_only_def)

lemma touches_only_trans: "touches_only fd r s s1 \<Longrightarrow> touches_only fd r s1 s2 \<Longrightarrow> touches_only fd r s s2"
  unfolding touches_only_def by (intro conjI; (elim conjE exE)?) (auto simp del: not_None_eq)

lemma touches_upd_conn:
  "r < length (sv_heap s) \<Longrightarrow> cn_fd (f (get_conn r s)) = cn_fd (get_conn r s) \<Longrightarrow> touches_only fd r s (upd_conn r f s)"
  by (simp add: touches_only_def get_upd_conn)

lemma touches_calls:
  "call_fd c = fd \<Longrightarrow> touches_only fd r s (do_call c s)" "touches_only fd r s (epoll_mod fd ev s)"
  "touches_only fd r s (close_connection fd s)" "touches_only fd r s (release_fd fd (erase_conn fd s))"
  by (auto simp: touches_only_def close_connection_calls)

lemma queue_sel [simp]:
  "find_conn fd (s\<lparr>sv_queue := q\<rparr>) = find_conn fd s" "get_conn r (s\<lparr>sv_queue := q\<rparr>) = get_conn r s"
  by (simp_all add: find_conn_def get_conn_def)

lemma touches_data:
  assumes "open_conn fd r s" and "handle_client_data fd received now s = Inr s1"
  shows "touches_only fd r s s1"
  using assms
  by (auto simp: open_conn_def handle_client_data_def append_section_def enqueue_request_def Let_def touches_only_def
      get_upd_conn close_connection_calls
      split: recv_outcome.splits if_splits)

lemma touches_write:
  assumes "open_conn fd r s"
  shows "touches_only fd r s (handle_client_write fd out s)"
  using assms
  by (auto simp: open_conn_def handle_client_write_def send_response_async_def send_section_def Let_def touches_only_def
      get_upd_conn close_connection_calls reset_pending_def abandon_pending_def split: send_outcome.split)

text \<open>C21: An event for one connection leaves every other alone: its entry in the map, its object, and
  its descriptor, for which no system call is made.\<close>

theorem events_isolated:
  assumes "ev_fd event = fd" and "fd \<noteq> sv_server_fd s" and "open_conn fd r s"
    and "handle_event eo event s = Some (Inr s1)"
  shows "touches_only fd r s s1"
proof -
  define wanted where "wanted = mask_has (ev_events event) mask_read"
  obtain s2 where s2: "(if wanted then handle_client_data fd (eo_received eo) (eo_now eo) s else Inr s) = Inr s2"
    "s1 = (if mask_has (ev_events event) EPOLLOUT then handle_client_write fd (eo_sent eo) s2 else s2)"
    using assms(1,2,4) by (auto simp: handle_event_def wanted_def split: sum.splits)
  have t: "touches_only fd r s s2" using s2(1) touches_data [OF assms(3)] by (auto split: if_splits)
  have "touches_only fd r s2 (handle_client_write fd out s2)" for out
  proof (cases "find_conn fd s2")
    case None
    then show ?thesis by (simp add: handle_client_write_def)
  next
    case Some
    with t assms(3) have "open_conn fd r s2" by (auto simp: touches_only_def open_conn_def)
    then show ?thesis by (rule touches_write)
  qed
  with t s2(2) show ?thesis by (auto intro: touches_only_trans)
qed

theorem events_isolated_witness:
  "\<exists>s1. handle_event \<lparr>eo_accepts = [], eo_received = Peer_closed, eo_sent = Sent 0, eo_now = 0\<rparr>
       \<lparr>ev_fd = 7, ev_events = EPOLLIN, ev_data = None\<rparr> ex_server = Some (Inr s1) \<and>
     touches_only 7 0 ex_server s1 \<and> find_conn 7 s1 = None"
proof -
  let ?eo = "\<lparr>eo_accepts = [], eo_received = Peer_closed, eo_sent = Sent 0, eo_now = 0\<rparr>"
  let ?ev = "\<lparr>ev_fd = 7, ev_events = EPOLLIN, ev_data = None\<rparr>"
  have m: "mask_has EPOLLIN mask_read" "\<not> mask_has EPOLLIN EPOLLOUT"
    by (simp_all add: mask_has_def mask_read_def EPOLLIN_def EPOLLHUP_def EPOLLERR_def EPOLLOUT_def)
  have "sv_server_fd ex_server = - 1" by (simp add: ex_server_def new_server_def)
  with m have h: "handle_event ?eo ?ev ex_server = Some (Inr (close_connection 7 ex_server))"
    by (simp add: handle_event_def handle_client_data_def)
  have "open_conn 7 0 ex_server" by (simp add: open_conn_def)
  from events_isolated [OF _ _ this h] h show ?thesis by (simp add: ex_server_def new_server_def)
qed

section \<open>The API answers no JSON\<close>

function control_in_string :: "bool \<Rightarrow> string \<Rightarrow> bool" where
  \<comment> \<open>RFC 8259, section 7: a character below U+0020 must not stand in a string literal.  The flag:
      within one\<close>
  "control_in_string q [] = False"
| "control_in_string False (c # s) = control_in_string (c = CHR 0x22) s"
| "control_in_string True (c # s) =
     (if c = CHR 0x5C then control_in_string True (tl s)
      else if c = CHR 0x22 then control_in_string False s
      else (of_char c :: nat) < 32 \<or> control_in_string True s)"
  by pat_completeness auto
termination by (relation "measure (\<lambda>(_, s). length s)") auto

lemma control_found:
  "\<forall>c \<in> set p. c \<noteq> CHR 0x22 \<and> c \<noteq> CHR 0x5C \<Longrightarrow> control_in_string True (p @ newline @ rest)"
  by (induction p) (simp_all add: newline_def)

lemma ctime_plain: "\<exists>p. ctime t = p @ newline \<and> (\<forall>c \<in> set p. c \<noteq> CHR 0x22 \<and> c \<noteq> CHR 0x5C)"
proof -
  obtain y d where y: "split_year 1970 (t div 86400) = (y, d)" by fastforce
  obtain m e where m: "split_month (month_lengths y) d = (m, e)" by fastforce
  have "m < 12"
    using split_month_bound [OF _ m] split_year_bound [OF y] month_lengths_sum [of y]
    by (simp add: month_lengths_def)
  then have mn: "\<forall>c \<in> set (month_names ! m). c \<noteq> CHR 0x22 \<and> c \<noteq> CHR 0x5C"
    by (auto simp: month_names_def less_Suc_eq numeral_eq_Suc)
  have names: "n < 7 \<Longrightarrow> \<forall>c \<in> set (day_names ! n). c \<noteq> CHR 0x22 \<and> c \<noteq> CHR 0x5C" for n
    by (auto simp: day_names_def less_Suc_eq numeral_eq_Suc)
  have dn: "\<forall>c \<in> set (day_names ! ((t div 86400 + 4) mod 7)). c \<noteq> CHR 0x22 \<and> c \<noteq> CHR 0x5C"
    by (rule names) simp
  have dg: "is_digit c \<Longrightarrow> c \<noteq> CHR 0x22 \<and> c \<noteq> CHR 0x5C" for c by (auto simp: is_digit_def)
  have td: "\<forall>c \<in> set (two_digits n). c \<noteq> CHR 0x22 \<and> c \<noteq> CHR 0x5C"
    "\<forall>c \<in> set (dec_digits n). c \<noteq> CHR 0x22 \<and> c \<noteq> CHR 0x5C" for n
    using dg two_digits_are_digits dec_digits_props by blast+
  then have sp: "\<forall>c \<in> set (space_padded n). c \<noteq> CHR 0x22 \<and> c \<noteq> CHR 0x5C" for n
    by (simp add: space_padded_def)
  let ?secs = "t mod 86400"
  let ?p = "day_names ! ((t div 86400 + 4) mod 7) @ '' '' @ month_names ! m @ '' '' @ space_padded (e + 1) @ '' '' @
    two_digits (?secs div 3600) @ '':'' @ two_digits (?secs div 60 mod 60) @ '':'' @
    two_digits (?secs mod 60) @ '' '' @ dec_digits y"
  have "ctime t = ?p @ newline" unfolding ctime_def Let_def by (simp only: y m case_prod_conv append_assoc)
  moreover have "\<forall>c \<in> set ?p. c \<noteq> CHR 0x22 \<and> c \<noteq> CHR 0x5C"
    unfolding set_append ball_Un using mn dn td sp by simp
  ultimately show ?thesis by blast
qed

text \<open>\<open>/api/info\<close> and \<open>/api/status\<close> are served as \<open>application/json\<close>, but the body is never JSON:
  \<open>ctime\<close> ends with a line feed, which stands within the string of the time stamp.\<close>

theorem api_body_not_json:
  "control_in_string False (rs_body (handle_api_request local_now now (rq\<lparr>rq_path := ''/api/info''\<rparr>) s)) \<and>
   map_of (rs_headers (handle_api_request local_now now (rq\<lparr>rq_path := ''/api/info''\<rparr>) s)) ''Content-Type'' =
     Some ''application/json''"
proof -
  obtain p where p: "ctime local_now = p @ newline" "\<forall>c \<in> set p. c \<noteq> CHR 0x22 \<and> c \<noteq> CHR 0x5C"
    using ctime_plain by blast
  have "control_in_string False (api_body (ctime local_now) s)"
    unfolding api_body_def Let_def p(1) json_field_def json_string_def
    using control_found [OF p(2)] by (simp add: newline_def quote_def split: prod.split)
  then show ?thesis
    by (simp add: handle_api_request_def set_content_type_def set_header_def AList.update_conv)
qed

end
