(* ===== verification/Server_Threads.thy ===== *)
theory Server_Threads
  imports Server
begin

text \<open>
  The event thread and the workers of \<open>src/server.cpp\<close>, interleaved.

  A step is what one thread does under one lock, or between two locks: the sections of
  \<open>Server_State\<close> and \<open>Server\<close> are the steps, and a program counter says which comes next.  The
  kernel is a map from open client descriptors to sockets: \<open>accept\<close> may return any descriptor that
  is not open and is not the listening socket, \<open>close\<close> frees it.  History variables record for which socket a connection object was
  made (\<open>th_owner\<close>), what was received into which object's buffer (\<open>th_received\<close>), and on which
  socket which object's response was sent (\<open>th_sent\<close>).

  The steps are more than the code allows in one respect: events may come in any order.  A response
  is built in one step, although the file handler's cache has a mutex of its own.  The lock order
  is the subject of \<open>Lock_Order\<close>; stopping is the subject of \<open>Program_Threads\<close>, which also puts the
  pool's own steps in the place of the queue.
\<close>

section \<open>State\<close>

datatype event_pc =
    E_idle
  | E_accepted int      \<comment> \<open>before the test of the limit\<close>
  | E_admitted int      \<comment> \<open>past it\<close>
  | E_recv int nat      \<comment> \<open>in \<open>handle_client_data\<close>, the connection found\<close>
  | E_enqueue nat
  | E_write nat         \<comment> \<open>in \<open>handle_client_write\<close>, the connection found\<close>
  | E_close int         \<comment> \<open>at the start of \<open>close_connection\<close>\<close>
  | E_release int       \<comment> \<open>erased from the map, the descriptor still open\<close>

datatype task_pc =
    K_idle
  | K_parse nat
  | K_keep nat http_request
  | K_build nat http_request
  | K_text nat http_response
  | K_check nat string
  | K_gone nat
  | K_post nat string
  | K_send nat
  | K_close nat int
  | K_release nat int
  | K_finish nat

record threads =
  th_server :: server
  th_kernel :: "int \<Rightarrow> nat option"
  th_next :: nat
  th_event :: event_pc
  th_todo :: "int list"      \<comment> \<open>\<open>inactive_fds\<close>, what is left of it\<close>
  th_workers :: "task_pc list"
  th_owner :: "nat list"
  th_received :: "(nat \<times> string) list"       \<comment> \<open>connection object, bytes\<close>
  th_sent :: "(nat \<times> nat \<times> string) list"   \<comment> \<open>socket, connection object, bytes\<close>

definition new_threads :: "start_outcomes \<Rightarrow> string option \<Rightarrow> nat \<Rightarrow> nat \<Rightarrow> int \<Rightarrow> string \<Rightarrow> threads" where
  \<comment> \<open>after \<open>start\<close>\<close>
  "new_threads so config_file thread_count hardware port host =
     \<lparr>th_server = snd (start_server so (new_server config_file thread_count hardware port host)),
      th_kernel = Map.empty, th_next = 0, th_event = E_idle, th_todo = [],
      th_workers = replicate (pool_thread_count thread_count hardware) K_idle, th_owner = [], th_received = [],
      th_sent = []\<rparr>"

section \<open>Steps\<close>

definition at_event :: "event_pc \<Rightarrow> server \<Rightarrow> threads \<Rightarrow> threads" where
  "at_event pc s t = t\<lparr>th_event := pc, th_server := s\<rparr>"

definition at_worker :: "nat \<Rightarrow> task_pc \<Rightarrow> server \<Rightarrow> threads \<Rightarrow> threads" where
  "at_worker i pc s t = t\<lparr>th_workers := (th_workers t)[i := pc], th_server := s\<rparr>"

definition kernel_close :: "int \<Rightarrow> threads \<Rightarrow> threads" where
  "kernel_close fd t = t\<lparr>th_kernel := (th_kernel t)(fd := None)\<rparr>"

definition send_possible :: "nat \<Rightarrow> send_outcome \<Rightarrow> threads \<Rightarrow> bool" where
  \<comment> \<open>\<open>send\<close> on a closed descriptor fails with \<open>EBADF\<close>; it takes at most what is offered\<close>
  "send_possible r outcome t =
     (case outcome of
        Sent n \<Rightarrow> th_kernel t (cn_fd (get_conn r (th_server t))) \<noteq> None \<and>
          n \<le> length (cn_pending_response (get_conn r (th_server t))) - cn_response_offset (get_conn r (th_server t))
      | Send_error e \<Rightarrow> th_kernel t (cn_fd (get_conn r (th_server t))) = None \<longrightarrow> e = EBADF)"

definition record_received :: "nat \<Rightarrow> string \<Rightarrow> threads \<Rightarrow> threads" where
  "record_received r bytes t = t\<lparr>th_received := th_received t @ [(r, bytes)]\<rparr>"

definition record_sent :: "nat \<Rightarrow> send_outcome \<Rightarrow> threads \<Rightarrow> threads" where
  "record_sent r outcome t =
     (let c = get_conn r (th_server t)
      in case (outcome, th_kernel t (cn_fd c)) of
           (Sent n, Some sock) \<Rightarrow>
             if cn_has_pending_write c
             then t\<lparr>th_sent := th_sent t @ [(sock, r, take n (drop (cn_response_offset c) (cn_pending_response c)))]\<rparr>
             else t
         | _ \<Rightarrow> t)"

definition register :: "int \<Rightarrow> server \<Rightarrow> server" where
  \<comment> \<open>\<open>add_fd\<close> with success\<close>
  "register fd s =
     do_call (Sys_epoll_add fd mask_read) (s\<lparr>sv_epoll := snd (add_fd None fd None (sv_epoll s))\<rparr>)"

datatype event_act =
    Ev_accept int
  | Ev_limit
  | Ev_setup_failed
  | Ev_add_failed
  | Ev_insert clock
  | Ev_readable int
  | Ev_recv_failed
  | Ev_recv string clock
  | Ev_enqueue
  | Ev_writable int
  | Ev_write send_outcome
  | Ev_collect clock
  | Ev_next_idle
  | Ev_close
  | Ev_release

definition event_idle :: "threads \<Rightarrow> bool" where
  "event_idle t \<longleftrightarrow> th_event t = E_idle \<and> th_todo t = []"

definition drop_accepted :: "int \<Rightarrow> threads \<Rightarrow> threads" where
  \<comment> \<open>\<open>close(client_fd); continue;\<close>\<close>
  "drop_accepted fd t = kernel_close fd (at_event E_idle (do_call (Sys_close fd) (th_server t)) t)"

fun event_exec :: "event_act \<Rightarrow> threads \<Rightarrow> threads option" where
  "event_exec (Ev_accept fd) t =
     (if event_idle t \<and> th_kernel t fd = None \<and> fd \<noteq> sv_server_fd (th_server t)
      then Some (t\<lparr>th_kernel := (th_kernel t)(fd \<mapsto> th_next t), th_next := Suc (th_next t), th_event := E_accepted fd\<rparr>)
      else None)"
| "event_exec Ev_limit t =
     (case th_event t of
        E_accepted fd \<Rightarrow>
          Some (if sv_max_connections (th_server t) \<le> length (sv_connections (th_server t))
                then drop_accepted fd t else at_event (E_admitted fd) (th_server t) t)
      | _ \<Rightarrow> None)"
| "event_exec Ev_setup_failed t =
     (case th_event t of E_admitted fd \<Rightarrow> Some (drop_accepted fd t) | _ \<Rightarrow> None)"
| "event_exec Ev_add_failed t =
     (case th_event t of
        E_admitted fd \<Rightarrow>
          Some (drop_accepted fd (t\<lparr>th_server := do_call (Sys_epoll_add fd mask_read) (th_server t)\<rparr>))
      | _ \<Rightarrow> None)"
| "event_exec (Ev_insert now) t =
     (case th_event t of
        E_admitted fd \<Rightarrow>
          Some ((at_event E_idle (add_connection now fd (register fd (th_server t))) t)
                  \<lparr>th_owner := th_owner t @ [the (th_kernel t fd)]\<rparr>)
      | _ \<Rightarrow> None)"
| "event_exec (Ev_readable fd) t =
     (if event_idle t then map_option (\<lambda>r. at_event (E_recv fd r) (th_server t) t) (find_conn fd (th_server t)) else None)"
| "event_exec Ev_recv_failed t =
     (case th_event t of E_recv fd r \<Rightarrow> Some (at_event (E_close fd) (th_server t) t) | _ \<Rightarrow> None)"
| "event_exec (Ev_recv bytes now) t =
     (case th_event t of
        E_recv fd r \<Rightarrow>
          if th_kernel t fd \<noteq> None \<and> bytes \<noteq> [] \<and> length bytes < BUFFER_SIZE
          then (case append_section fd r bytes now (th_server t) of
                  (Conn_gone, s) \<Rightarrow> Some (at_event E_idle s t)
                | (Too_large, s) \<Rightarrow> Some (kernel_close fd (at_event E_idle s t))
                | (Appended p, s) \<Rightarrow> Some (at_event (if p then E_enqueue r else E_idle) s (record_received r bytes t)))
          else None
      | _ \<Rightarrow> None)"
| "event_exec Ev_enqueue t =
     (case th_event t of
        E_enqueue r \<Rightarrow> (case enqueue_request r (th_server t) of Inr s \<Rightarrow> Some (at_event E_idle s t) | Inl _ \<Rightarrow> None)
      | _ \<Rightarrow> None)"
| "event_exec (Ev_writable fd) t =
     (if event_idle t then map_option (\<lambda>r. at_event (E_write r) (th_server t) t) (find_conn fd (th_server t)) else None)"
| "event_exec (Ev_write outcome) t =
     (case th_event t of
        E_write r \<Rightarrow>
          if send_possible r outcome t
          then let (closing, s) = send_section r outcome (th_server t)
               in Some (at_event (if closing then E_close (cn_fd (get_conn r s)) else E_idle) s (record_sent r outcome t))
          else None
      | _ \<Rightarrow> None)"
| "event_exec (Ev_collect now) t =
     (if event_idle t then Some (t\<lparr>th_todo := inactive_fds now (th_server t)\<rparr>) else None)"
| "event_exec Ev_next_idle t =
     (case th_todo t of
        fd # fds \<Rightarrow> if th_event t = E_idle then Some (t\<lparr>th_todo := fds, th_event := E_close fd\<rparr>) else None
      | [] \<Rightarrow> None)"
| "event_exec Ev_close t =
     (case th_event t of
        E_close fd \<Rightarrow>
          Some (if find_conn fd (th_server t) = None then at_event E_idle (th_server t) t
                else at_event (E_release fd) (erase_conn fd (th_server t)) t)
      | _ \<Rightarrow> None)"
| "event_exec Ev_release t =
     (case th_event t of
        E_release fd \<Rightarrow> Some (kernel_close fd (at_event E_idle (release_fd fd (th_server t)) t))
      | _ \<Rightarrow> None)"

datatype task_act = Tk_go | Tk_build request_env | Tk_text request_env | Tk_send send_outcome | Tk_finish clock

fun task_exec :: "nat \<Rightarrow> task_act \<Rightarrow> threads \<Rightarrow> threads option" where
  "task_exec i Tk_go t =
     (let s = th_server t
      in case th_workers t ! i of
           K_idle \<Rightarrow>
             (case sv_queue s of [] \<Rightarrow> None | r # q \<Rightarrow> Some (at_worker i (K_parse r) (s\<lparr>sv_queue := q\<rparr>) t))
         | K_parse r \<Rightarrow> Some (at_worker i (K_keep r (parse_request (cn_buffer (get_conn r s)))) s t)
         | K_keep r request \<Rightarrow> Some (at_worker i (K_build r request) (note_keep_alive r request s) t)
         | K_check r text \<Rightarrow>
             Some (at_worker i (if find_conn (cn_fd (get_conn r s)) s = None then K_gone r else K_post r text) s t)
         | K_gone r \<Rightarrow> Some (at_worker i K_idle (stop_processing r s) t)
         | K_post r text \<Rightarrow> Some (at_worker i (K_send r) (post_response r text s) t)
         | K_close r fd \<Rightarrow>
             Some (if find_conn fd s = None then at_worker i (K_finish r) s t
                   else at_worker i (K_release r fd) (erase_conn fd s) t)
         | K_release r fd \<Rightarrow> Some (kernel_close fd (at_worker i (K_finish r) (release_fd fd s) t))
         | _ \<Rightarrow> None)"
| "task_exec i (Tk_build env) t =
     (case th_workers t ! i of
        K_build r request \<Rightarrow>
          (case build_response env request (th_server t) of
             Some (Inr response, s) \<Rightarrow> Some (at_worker i (K_text r response) s t)
           | _ \<Rightarrow> None)
      | _ \<Rightarrow> None)"
| "task_exec i (Tk_text env) t =
     (case th_workers t ! i of
        K_text r response \<Rightarrow>
          Some (at_worker i (K_check r (response_to_string (re_order env)
                   (set_keep_alive (cn_keep_alive (get_conn r (th_server t))) response))) (th_server t) t)
      | _ \<Rightarrow> None)"
| "task_exec i (Tk_send outcome) t =
     (case th_workers t ! i of
        K_send r \<Rightarrow>
          if send_possible r outcome t
          then let (closing, s) = send_section r outcome (th_server t)
               in Some (at_worker i (if closing then K_close r (cn_fd (get_conn r s)) else K_finish r) s
                          (record_sent r outcome t))
          else None
      | _ \<Rightarrow> None)"
| "task_exec i (Tk_finish now) t =
     (case th_workers t ! i of
        K_finish r \<Rightarrow> Some (at_worker i K_idle (finish_request r now (th_server t)) t)
      | _ \<Rightarrow> None)"

inductive th_step :: "threads \<Rightarrow> threads \<Rightarrow> bool" where
  event: "event_exec a t = Some t1 \<Longrightarrow> th_step t t1"
| task: "i < length (th_workers t) \<Longrightarrow> task_exec i a t = Some t1 \<Longrightarrow> th_step t t1"

definition th_init :: "threads \<Rightarrow> bool" where
  "th_init t \<longleftrightarrow> (\<exists>so config_file thread_count hardware port host.
     fst (start_server so (new_server config_file thread_count hardware port host)) \<and>
     t = new_threads so config_file thread_count hardware port host)"

section \<open>Frames\<close>

lemma start_server_sel [simp]:
  "sv_connections (snd (start_server so s)) = sv_connections s" "sv_heap (snd (start_server so s)) = sv_heap s"
  "sv_queue (snd (start_server so s)) = sv_queue s" "sv_pool_shutdown (snd (start_server so s)) = sv_pool_shutdown s"
  "sv_max_connections (snd (start_server so s)) = sv_max_connections s"
  "find_conn fd (snd (start_server so s)) = find_conn fd s" "get_conn r (snd (start_server so s)) = get_conn r s"
  by (simp_all add: start_server_def Let_def do_call_def find_conn_def get_conn_def split: sum.split prod.split)

lemma started:
  "fst (start_server so s) \<Longrightarrow>
   sv_running (snd (start_server so s)) \<and> so_socket so = Inr (sv_server_fd (snd (start_server so s)))"
  by (auto simp: start_server_def Let_def do_call_def split: sum.splits prod.splits if_splits)

lemma at_sel [simp]:
  "th_server (at_event pc s t) = s" "th_event (at_event pc s t) = pc" "th_kernel (at_event pc s t) = th_kernel t"
  "th_workers (at_event pc s t) = th_workers t" "th_owner (at_event pc s t) = th_owner t"
  "th_sent (at_event pc s t) = th_sent t" "th_todo (at_event pc s t) = th_todo t" "th_next (at_event pc s t) = th_next t"
  "th_received (at_event pc s t) = th_received t" "th_received (at_worker i wpc s t) = th_received t"
  "th_server (at_worker i wpc s t) = s" "th_event (at_worker i wpc s t) = th_event t"
  "th_kernel (at_worker i wpc s t) = th_kernel t" "th_workers (at_worker i wpc s t) = (th_workers t)[i := wpc]"
  "th_owner (at_worker i wpc s t) = th_owner t" "th_sent (at_worker i wpc s t) = th_sent t"
  "th_todo (at_worker i wpc s t) = th_todo t" "th_next (at_worker i wpc s t) = th_next t"
  by (simp_all add: at_event_def at_worker_def)

lemma kernel_close_sel [simp]:
  "th_server (kernel_close fd t) = th_server t" "th_event (kernel_close fd t) = th_event t"
  "th_workers (kernel_close fd t) = th_workers t" "th_owner (kernel_close fd t) = th_owner t"
  "th_kernel (kernel_close fd t) = (th_kernel t)(fd := None)" "th_sent (kernel_close fd t) = th_sent t"
  "th_todo (kernel_close fd t) = th_todo t" "th_next (kernel_close fd t) = th_next t"
  "th_received (kernel_close fd t) = th_received t"
  by (simp_all add: kernel_close_def)

lemma record_received_sel [simp]:
  "th_server (record_received r bytes t) = th_server t" "th_event (record_received r bytes t) = th_event t"
  "th_workers (record_received r bytes t) = th_workers t" "th_owner (record_received r bytes t) = th_owner t"
  "th_kernel (record_received r bytes t) = th_kernel t" "th_todo (record_received r bytes t) = th_todo t"
  "th_sent (record_received r bytes t) = th_sent t" "th_next (record_received r bytes t) = th_next t"
  "th_received (record_received r bytes t) = th_received t @ [(r, bytes)]"
  by (simp_all add: record_received_def)

lemma record_sent_sel [simp]:
  "th_server (record_sent r out t) = th_server t" "th_event (record_sent r out t) = th_event t"
  "th_workers (record_sent r out t) = th_workers t" "th_owner (record_sent r out t) = th_owner t"
  "th_kernel (record_sent r out t) = th_kernel t" "th_todo (record_sent r out t) = th_todo t"
  "th_received (record_sent r out t) = th_received t"
  by (simp_all add: record_sent_def Let_def split: send_outcome.split option.split)

lemma register_sel [simp]:
  "sv_connections (register fd s) = sv_connections s" "sv_heap (register fd s) = sv_heap s"
  "sv_max_connections (register fd s) = sv_max_connections s" "sv_queue (register fd s) = sv_queue s"
  "find_conn j (register fd s) = find_conn j s" "get_conn r (register fd s) = get_conn r s"
  by (simp_all add: register_def find_conn_def get_conn_def do_call_def)

lemma add_connection_sel [simp]:
  "sv_heap (add_connection now fd s) = sv_heap s @ [new_connection now fd]"
  "sv_max_connections (add_connection now fd s) = sv_max_connections s" "sv_queue (add_connection now fd s) = sv_queue s"
  "sv_connections (add_connection now fd s) = AList.update fd (length (sv_heap s)) (sv_connections s)"
  "find_conn j (add_connection now fd s) = (if j = fd then Some (length (sv_heap s)) else find_conn j s)"
  by (simp_all add: add_connection_def find_conn_def AList.update_conv')

lemma get_add_connection [simp]:
  "get_conn (length (sv_heap s)) (add_connection now fd s) = new_connection now fd"
  "r < length (sv_heap s) \<Longrightarrow> get_conn r (add_connection now fd s) = get_conn r s"
  by (simp_all add: get_conn_def add_connection_def nth_append)

lemma erase_connections [simp]: "sv_connections (erase_conn fd s) = AList.delete fd (sv_connections s)"
  by (simp add: erase_conn_def)

lemma note_keep_alive_conns [simp]:
  "sv_connections (note_keep_alive r request s) = sv_connections s"
  "sv_max_connections (note_keep_alive r request s) = sv_max_connections s"
  "sv_queue (note_keep_alive r request s) = sv_queue s"
  by (simp_all add: note_keep_alive_def)

lemma task_section_sel [simp]:
  "sv_connections (post_response r resp s) = sv_connections s" "sv_connections (stop_processing r s) = sv_connections s"
  "sv_connections (finish_request r now s) = sv_connections s"
  "sv_max_connections (post_response r resp s) = sv_max_connections s"
  "sv_max_connections (stop_processing r s) = sv_max_connections s"
  "sv_max_connections (finish_request r now s) = sv_max_connections s"
  "sv_queue (post_response r resp s) = sv_queue s" "sv_queue (stop_processing r s) = sv_queue s"
  "sv_queue (finish_request r now s) = sv_queue s"
  "find_conn fd (post_response r resp s) = find_conn fd s" "find_conn fd (stop_processing r s) = find_conn fd s"
  "find_conn fd (finish_request r now s) = find_conn fd s"
  "length (sv_heap (post_response r resp s)) = length (sv_heap s)"
  "length (sv_heap (stop_processing r s)) = length (sv_heap s)"
  "length (sv_heap (finish_request r now s)) = length (sv_heap s)"
  by (simp_all add: post_response_def stop_processing_def finish_request_def)

lemma send_section_sel:
  assumes "send_section r out s = (closing, s1)"
  shows "sv_connections s1 = sv_connections s" "sv_max_connections s1 = sv_max_connections s"
    "sv_queue s1 = sv_queue s" "length (sv_heap s1) = length (sv_heap s)" "find_conn fd s1 = find_conn fd s"
    "r < length (sv_heap s) \<Longrightarrow> cn_fd (get_conn i s1) = cn_fd (get_conn i s)"
    "r < length (sv_heap s) \<Longrightarrow> cn_buffer (get_conn i s1) = cn_buffer (get_conn i s)"
    "r < length (sv_heap s) \<Longrightarrow> cn_processing_request (get_conn i s1) = cn_processing_request (get_conn i s)"
  using assms
  by (auto simp: send_section_def Let_def get_upd_conn reset_pending_def abandon_pending_def
      split: if_splits send_outcome.splits)

lemma append_section_sel:
  assumes "append_section fd r bytes now s = (res, s1)"
  shows "sv_connections s1 = (if res = Too_large then AList.delete fd (sv_connections s) else sv_connections s)"
    "sv_max_connections s1 = sv_max_connections s" "sv_queue s1 = sv_queue s"
    "length (sv_heap s1) = length (sv_heap s)" "res = Too_large \<Longrightarrow> find_conn fd s \<noteq> None"
    "find_conn j s1 = (if res = Too_large \<and> j = fd then None else find_conn j s)"
    "r < length (sv_heap s) \<Longrightarrow> cn_fd (get_conn i s1) = cn_fd (get_conn i s)"
    "r < length (sv_heap s) \<Longrightarrow> cn_buffer (get_conn i s1) =
       (if i = r \<and> res \<notin> {Conn_gone, Too_large} then cn_buffer (get_conn r s) @ bytes else cn_buffer (get_conn i s))"
    "r < length (sv_heap s) \<Longrightarrow> cn_processing_request (get_conn i s1) =
       (cn_processing_request (get_conn i s) \<or> i = r \<and> res = Appended True)"
    "r < length (sv_heap s) \<Longrightarrow> res = Appended True \<Longrightarrow> \<not> cn_processing_request (get_conn r s)"
    "res \<notin> {Conn_gone, Too_large} \<Longrightarrow> length (cn_buffer (get_conn r s)) + length bytes \<le> MAX_REQUEST_SIZE"
  using assms
  by (auto simp: append_section_def Let_def get_upd_conn split: if_splits)

lemma build_response_sel:
  assumes "build_response env request s = Some (res, s1)"
  shows "sv_connections s1 = sv_connections s" "sv_max_connections s1 = sv_max_connections s"
    "sv_queue s1 = sv_queue s" "sv_heap s1 = sv_heap s" "find_conn fd s1 = find_conn fd s" "get_conn i s1 = get_conn i s"
  using assms
  by (auto simp: build_response_def Let_def split: if_splits option.splits prod.splits sum.splits)

lemma enqueue_sel:
  "enqueue_request r s = Inr s1 \<Longrightarrow> s1 = s\<lparr>sv_queue := sv_queue s @ [r]\<rparr>"
  by (auto simp: enqueue_request_def split: if_splits)

section \<open>Descriptors\<close>

fun event_holds :: "event_pc \<Rightarrow> int \<Rightarrow> bool" where
  "event_holds (E_accepted fd) j = (j = fd)"
| "event_holds (E_admitted fd) j = (j = fd)"
| "event_holds (E_release fd) j = (j = fd)"
| "event_holds _ j = False"

fun task_holds :: "task_pc \<Rightarrow> int \<Rightarrow> bool" where
  "task_holds (K_release r fd) j = (j = fd)"
| "task_holds _ j = False"

definition fd_holders :: "int \<Rightarrow> threads \<Rightarrow> nat" where
  \<comment> \<open>how many places are responsible for closing the descriptor\<close>
  "fd_holders j t = count_list (map fst (sv_connections (th_server t))) j + of_bool (event_holds (th_event t) j) +
     length (filter (\<lambda>w. task_holds w j) (th_workers t))"

definition fds_held :: "threads \<Rightarrow> bool" where
  "fds_held t \<longleftrightarrow> (\<forall>j. fd_holders j t = of_bool (th_kernel t j \<noteq> None))"

lemma filter_update:
  "i < length ws \<Longrightarrow> length (filter P (ws[i := w])) + of_bool (P (ws ! i)) = length (filter P ws) + of_bool (P w)"
proof (induction ws arbitrary: i)
  case (Cons a ws)
  then show ?case by (cases i) auto
qed simp

lemma count_delete: "count_list (map fst (AList.delete k m)) j = (if j = k then 0 else count_list (map fst m) j)"
  by (induction m) (auto simp: AList.delete_eq)

lemma count_update:
  "k \<notin> fst ` set m \<Longrightarrow> count_list (map fst (AList.update k v m)) j = count_list (map fst m) j + of_bool (j = k)"
  by (simp add: update_keys)

lemma find_conn_count: "find_conn fd s \<noteq> None \<longleftrightarrow> 0 < count_list (map fst (sv_connections s)) fd"
  by (simp add: find_conn_def map_of_eq_None_iff count_list_0_iff neq0_conv [symmetric] del: neq0_conv)

lemma fds_heldI:
  assumes "fds_held t"
    and "\<And>j. fd_holders j t1 + of_bool (th_kernel t j \<noteq> None) = fd_holders j t + of_bool (th_kernel t1 j \<noteq> None)"
  shows "fds_held t1"
proof -
  have "fd_holders j t1 = of_bool (th_kernel t1 j \<noteq> None)" for j
    using assms(1) assms(2) [of j] unfolding fds_held_def by (metis add.commute add_left_cancel)
  then show ?thesis by (simp add: fds_held_def)
qed

lemma held_open:
  assumes "fds_held t"
  shows "event_holds (th_event t) j \<Longrightarrow> th_kernel t j \<noteq> None \<and> find_conn j (th_server t) = None"
    and "find_conn j (th_server t) \<noteq> None \<Longrightarrow>
      th_kernel t j \<noteq> None \<and> count_list (map fst (sv_connections (th_server t))) j = 1"
    and "i < length (th_workers t) \<Longrightarrow> task_holds (th_workers t ! i) j \<Longrightarrow>
      th_kernel t j \<noteq> None \<and> find_conn j (th_server t) = None"
proof -
  have h: "fd_holders j t \<le> 1" "th_kernel t j = None \<Longrightarrow> fd_holders j t = 0"
    using assms by (simp_all add: fds_held_def)
  note c = find_conn_count [of j "th_server t"]
  show "event_holds (th_event t) j \<Longrightarrow> th_kernel t j \<noteq> None \<and> find_conn j (th_server t) = None"
    using h c by (auto simp: fd_holders_def)
  show "find_conn j (th_server t) \<noteq> None \<Longrightarrow>
      th_kernel t j \<noteq> None \<and> count_list (map fst (sv_connections (th_server t))) j = 1"
    using h c by (auto simp: fd_holders_def)
  assume "i < length (th_workers t)" "task_holds (th_workers t ! i) j"
  then have p: "0 < length (filter (\<lambda>w. task_holds w j) (th_workers t))"
    by (auto simp: filter_empty_conv)
  with h(1) have "count_list (map fst (sv_connections (th_server t))) j = 0" unfolding fd_holders_def by linarith
  moreover have "fd_holders j t \<noteq> 0" using p unfolding fd_holders_def by linarith
  ultimately show "th_kernel t j \<noteq> None \<and> find_conn j (th_server t) = None" using h(2) c by auto
qed

lemma not_in_map: "find_conn fd s = None \<Longrightarrow> fd \<notin> fst ` set (sv_connections s)"
  by (simp add: find_conn_def map_of_eq_None_iff)

lemma fds_held_event:
  assumes h: "fds_held t" and e: "event_exec a t = Some t1"
  shows "fds_held t1"
proof (rule fds_heldI [OF h])
  fix j
  note o = held_open [OF h, of _]
  show "fd_holders j t1 + of_bool (th_kernel t j \<noteq> None) = fd_holders j t + of_bool (th_kernel t1 j \<noteq> None)"
  proof (cases a)
    case (Ev_accept fd)
    with e show ?thesis by (auto simp: fd_holders_def event_idle_def split: if_splits)
  next
    case Ev_limit
    with e o(1) show ?thesis by (cases "th_event t") (auto simp: fd_holders_def drop_accepted_def split: if_splits)
  next
    case Ev_setup_failed
    with e o(1) show ?thesis by (cases "th_event t") (auto simp: fd_holders_def drop_accepted_def)
  next
    case Ev_add_failed
    with e o(1) show ?thesis by (cases "th_event t") (auto simp: fd_holders_def drop_accepted_def)
  next
    case (Ev_insert now)
    with e o(1) show ?thesis by (cases "th_event t") (auto simp: fd_holders_def count_update [OF not_in_map])
  next
    case (Ev_readable fd)
    with e show ?thesis by (auto simp: fd_holders_def event_idle_def split: if_splits)
  next
    case Ev_recv_failed
    with e show ?thesis by (cases "th_event t") (auto simp: fd_holders_def)
  next
    case (Ev_recv bytes now)
    with e obtain fd r where pc: "th_event t = E_recv fd r" by (cases "th_event t") auto
    obtain res s1 where ap: "append_section fd r bytes now (th_server t) = (res, s1)" by fastforce
    from append_section_sel(1,5) [OF ap] pc ap Ev_recv e o(2) [of fd] show ?thesis
      by (cases res) (auto simp: fd_holders_def count_delete split: if_splits)
  next
    case Ev_enqueue
    with e show ?thesis
      by (cases "th_event t") (auto simp: fd_holders_def dest!: enqueue_sel split: sum.splits)
  next
    case (Ev_writable fd)
    with e show ?thesis by (auto simp: fd_holders_def event_idle_def split: if_splits)
  next
    case (Ev_write out)
    with e obtain r where pc: "th_event t = E_write r" by (cases "th_event t") auto
    obtain cl s1 where se: "send_section r out (th_server t) = (cl, s1)" by fastforce
    from send_section_sel(1) [OF se] pc se Ev_write e show ?thesis
      by (auto simp: fd_holders_def split: if_splits)
  next
    case (Ev_collect now)
    with e show ?thesis by (auto simp: fd_holders_def split: if_splits)
  next
    case Ev_next_idle
    with e show ?thesis by (auto simp: fd_holders_def split: list.splits if_splits)
  next
    case Ev_close
    with e o(2) show ?thesis
      by (cases "th_event t") (auto simp: fd_holders_def count_delete split: if_splits)
  next
    case Ev_release
    with e o(1) show ?thesis by (cases "th_event t") (auto simp: fd_holders_def)
  qed
qed

lemma holders_sel [simp]:
  "fd_holders j (kernel_close fd t) = fd_holders j t" "fd_holders j (record_sent r out t) = fd_holders j t"
  "fd_holders j (at_worker i pc s (record_sent r out t)) = fd_holders j (at_worker i pc s t)"
  by (simp_all add: fd_holders_def)

lemma holders_at_worker:
  assumes "i < length (th_workers t)"
  shows "fd_holders j (at_worker i pc s t) + of_bool (task_holds (th_workers t ! i) j) +
      count_list (map fst (sv_connections (th_server t))) j =
    fd_holders j t + of_bool (task_holds pc j) + count_list (map fst (sv_connections s)) j"
  using filter_update [OF assms, of "\<lambda>w. task_holds w j" pc] by (simp add: fd_holders_def)

lemma fds_held_task:
  assumes h: "fds_held t" and i: "i < length (th_workers t)" and e: "task_exec i a t = Some t1"
  shows "fds_held t1"
proof (rule fds_heldI [OF h])
  fix j
  note w = holders_at_worker [OF i, of j]
  note o = held_open(2,3) [OF h]
  show "fd_holders j t1 + of_bool (th_kernel t j \<noteq> None) = fd_holders j t + of_bool (th_kernel t1 j \<noteq> None)"
  proof (cases a)
    case Tk_go
    show ?thesis
    proof (cases "th_workers t ! i")
      case K_idle
      with Tk_go e obtain r q where "t1 = at_worker i (K_parse r) ((th_server t)\<lparr>sv_queue := q\<rparr>) t"
        by (cases "sv_queue (th_server t)") (auto simp: Let_def)
      with K_idle w [of "K_parse r" "(th_server t)\<lparr>sv_queue := q\<rparr>"] show ?thesis by simp
    next
      case (K_close r fd)
      with Tk_go e w [of "K_finish r" "th_server t"] w [of "K_release r fd" "erase_conn fd (th_server t)"] o(1) [of fd]
      show ?thesis by (auto simp: Let_def count_delete split: if_splits)
    next
      case (K_release r fd)
      with o(2) [OF i, of fd] have "th_kernel t fd \<noteq> None" by simp
      with K_release Tk_go e w [of "K_finish r" "release_fd fd (th_server t)"] show ?thesis
        by (cases "j = fd") (auto simp: Let_def)
    next
      case (K_parse r)
      with Tk_go e w [of _ "th_server t"] show ?thesis by (auto simp: Let_def)
    next
      case (K_keep r request)
      with Tk_go e w [of _ "note_keep_alive r request (th_server t)"] show ?thesis by (auto simp: Let_def)
    next
      case (K_check r resp)
      with Tk_go e w [of "K_gone r" "th_server t"] w [of "K_post r resp" "th_server t"] show ?thesis
        by (auto simp: Let_def split: if_splits)
    next
      case (K_gone r)
      with Tk_go e w [of _ "stop_processing r (th_server t)"] show ?thesis by (auto simp: Let_def)
    next
      case (K_post r resp)
      with Tk_go e w [of _ "post_response r resp (th_server t)"] show ?thesis by (auto simp: Let_def)
    qed (use Tk_go e in \<open>simp_all add: Let_def\<close>)
  next
    case (Tk_build env)
    with e obtain r request response s1 where pc: "th_workers t ! i = K_build r request"
      and b: "build_response env request (th_server t) = Some (Inr response, s1)"
      and t1: "t1 = at_worker i (K_text r response) s1 t"
      by (auto split: task_pc.splits option.splits sum.splits prod.splits)
    from w [of "K_text r response" s1] build_response_sel(1) [OF b] show ?thesis by (simp add: pc t1)
  next
    case (Tk_text env)
    with e w [of _ "th_server t"] show ?thesis by (cases "th_workers t ! i") auto
  next
    case (Tk_send out)
    with e obtain r where pc: "th_workers t ! i = K_send r" by (cases "th_workers t ! i") auto
    obtain cl s1 where se: "send_section r out (th_server t) = (cl, s1)" by fastforce
    from send_section_sel(1) [OF se] pc se Tk_send e w [of _ s1] show ?thesis by (auto split: if_splits)
  next
    case (Tk_finish now)
    with e obtain r where pc: "th_workers t ! i = K_finish r" by (cases "th_workers t ! i") auto
    with Tk_finish e w [of K_idle "finish_request r now (th_server t)"] show ?thesis by auto
  qed
qed

end
