(* ===== verification/Server_Safety.thy ===== *)
theory Server_Safety
  imports Server_Threads
begin

text \<open>
  What holds in every interleaving of the event thread and the workers: the invariants of
  \<open>Server_Threads\<close>, and a run that goes wrong.
\<close>

section \<open>References\<close>

fun event_ref :: "event_pc \<Rightarrow> nat option" where
  "event_ref (E_recv fd r) = Some r"
| "event_ref (E_enqueue r) = Some r"
| "event_ref (E_write r) = Some r"
| "event_ref _ = None"

fun task_ref :: "task_pc \<Rightarrow> nat option" where
  "task_ref K_idle = None"
| "task_ref (K_parse r) = Some r"
| "task_ref (K_keep r _) = Some r"
| "task_ref (K_build r _) = Some r"
| "task_ref (K_text r _) = Some r"
| "task_ref (K_check r _) = Some r"
| "task_ref (K_gone r) = Some r"
| "task_ref (K_post r _) = Some r"
| "task_ref (K_send r) = Some r"
| "task_ref (K_close r _) = Some r"
| "task_ref (K_release r _) = Some r"
| "task_ref (K_finish r) = Some r"

definition refs_ok :: "threads \<Rightarrow> bool" where
  \<comment> \<open>every shared pointer held anywhere points to an object\<close>
  "refs_ok t \<longleftrightarrow> length (th_owner t) = length (sv_heap (th_server t)) \<and>
     (\<forall>fd r. find_conn fd (th_server t) = Some r \<longrightarrow> r < length (sv_heap (th_server t))) \<and>
     (\<forall>r \<in> set (sv_queue (th_server t)). r < length (sv_heap (th_server t))) \<and>
     (\<forall>r. event_ref (th_event t) = Some r \<longrightarrow> r < length (sv_heap (th_server t))) \<and>
     (\<forall>w \<in> set (th_workers t). \<forall>r. task_ref w = Some r \<longrightarrow> r < length (sv_heap (th_server t)))"

definition server_frame :: "server \<Rightarrow> server \<Rightarrow> bool" where
  \<comment> \<open>what no section changes, but the insertion of a connection\<close>
  "server_frame s s1 \<longleftrightarrow> length (sv_heap s1) = length (sv_heap s) \<and> sv_max_connections s1 = sv_max_connections s \<and>
     (\<forall>i. cn_fd (get_conn i s1) = cn_fd (get_conn i s)) \<and>
     (\<forall>fd. find_conn fd s1 = find_conn fd s \<or> find_conn fd s1 = None) \<and>
     length (sv_connections s1) \<le> length (sv_connections s)"

lemma server_frame_refl [simp]: "server_frame s s" "server_frame s (s\<lparr>sv_queue := q\<rparr>)" "server_frame s (s\<lparr>sv_files := fh\<rparr>)"
  by (simp_all add: server_frame_def)

lemma length_delete: "length (AList.delete k m) \<le> length m"
  by (simp add: AList.delete_eq)

lemma server_frame_sections:
  "server_frame s (erase_conn fd s)" "server_frame s (release_fd fd s)" "server_frame s (do_call c s)"
  "server_frame s (do_call c (do_call d s))"
  "r < length (sv_heap s) \<Longrightarrow> server_frame s (note_keep_alive r request s)"
  "r < length (sv_heap s) \<Longrightarrow> server_frame s (post_response r resp s)"
  "r < length (sv_heap s) \<Longrightarrow> server_frame s (stop_processing r s)"
  "r < length (sv_heap s) \<Longrightarrow> server_frame s (finish_request r now s)"
  "r < length (sv_heap s) \<Longrightarrow> send_section r out s = (cl, s1) \<Longrightarrow> server_frame s s1"
  "r < length (sv_heap s) \<Longrightarrow> append_section fd r bytes now s = (res, s1) \<Longrightarrow> server_frame s s1"
  "build_response env request s = Some (x, s1) \<Longrightarrow> server_frame s s1"
  by (auto simp: server_frame_def length_delete note_keep_alive_def post_response_def stop_processing_def finish_request_def
      get_upd_conn send_section_sel append_section_sel build_response_sel)

lemma event_frame:
  assumes r: "refs_ok t" and e: "event_exec a t = Some t1" and n: "\<forall>now. a \<noteq> Ev_insert now"
  shows "server_frame (th_server t) (th_server t1) \<and> th_owner t1 = th_owner t"
proof (cases a)
  case (Ev_recv bytes now)
  with e obtain fd rr where pc: "th_event t = E_recv fd rr" by (cases "th_event t") auto
  obtain res s1 where ap: "append_section fd rr bytes now (th_server t) = (res, s1)" by fastforce
  have "rr < length (sv_heap (th_server t))" using r pc by (simp add: refs_ok_def)
  from server_frame_sections(10) [OF this ap] pc ap Ev_recv e show ?thesis by (cases res) (auto split: if_splits)
next
  case (Ev_write out)
  with e obtain rr where pc: "th_event t = E_write rr" by (cases "th_event t") auto
  obtain cl s1 where se: "send_section rr out (th_server t) = (cl, s1)" by fastforce
  have "rr < length (sv_heap (th_server t))" using r pc by (simp add: refs_ok_def)
  from server_frame_sections(9) [OF this se] pc se Ev_write e show ?thesis by (auto split: if_splits)
next
  case Ev_enqueue
  with e show ?thesis by (cases "th_event t") (auto dest!: enqueue_sel split: sum.splits)
qed (use e n in \<open>auto simp: event_idle_def drop_accepted_def server_frame_sections
    split: if_splits event_pc.splits list.splits\<close>)

lemma task_frame:
  assumes r: "refs_ok t" and i: "i < length (th_workers t)" and e: "task_exec i a t = Some t1"
  shows "server_frame (th_server t) (th_server t1) \<and> th_owner t1 = th_owner t \<and> th_event t1 = th_event t"
proof -
  have ref: "rr < length (sv_heap (th_server t))" if "task_ref (th_workers t ! i) = Some rr" for rr
    using r i that by (auto simp: refs_ok_def)
  show ?thesis
  proof (cases a)
    case Tk_go
    with e ref show ?thesis
      by (cases "th_workers t ! i") (auto simp: Let_def server_frame_sections split: list.splits if_splits)
  next
    case (Tk_build env)
    with e show ?thesis
      by (auto split: task_pc.splits option.splits sum.splits prod.splits dest: server_frame_sections(11))
  next
    case (Tk_send out)
    with e obtain rr where pc: "th_workers t ! i = K_send rr" by (cases "th_workers t ! i") auto
    obtain cl s1 where se: "send_section rr out (th_server t) = (cl, s1)" by fastforce
    from server_frame_sections(9) [OF _ se] ref pc se Tk_send e show ?thesis by (auto split: if_splits)
  qed (use e ref in \<open>auto simp: server_frame_sections split: task_pc.splits\<close>)
qed

lemma event_refs:
  assumes e: "event_exec a t = Some t1"
  shows "set (sv_queue (th_server t1)) \<subseteq> set (sv_queue (th_server t)) \<union> set_option (event_ref (th_event t)) \<and>
    (\<forall>r. event_ref (th_event t1) = Some r \<longrightarrow>
       event_ref (th_event t) = Some r \<or> (\<exists>fd. find_conn fd (th_server t) = Some r)) \<and>
    th_workers t1 = th_workers t"
proof (cases a)
  case (Ev_recv bytes now)
  with e obtain fd r where pc: "th_event t = E_recv fd r" by (cases "th_event t") auto
  obtain res s1 where ap: "append_section fd r bytes now (th_server t) = (res, s1)" by fastforce
  from append_section_sel(3) [OF ap] pc ap Ev_recv e show ?thesis by (cases res) (auto split: if_splits)
next
  case (Ev_write out)
  with e obtain r where pc: "th_event t = E_write r" by (cases "th_event t") auto
  obtain cl s1 where se: "send_section r out (th_server t) = (cl, s1)" by fastforce
  from send_section_sel(3) [OF se] pc se Ev_write e show ?thesis by (auto split: if_splits)
next
  case Ev_enqueue
  with e show ?thesis by (cases "th_event t") (auto dest!: enqueue_sel split: sum.splits)
qed (use e in \<open>auto simp: event_idle_def drop_accepted_def split: if_splits event_pc.splits list.splits\<close>)

lemma task_refs:
  assumes e: "task_exec i a t = Some t1"
  shows "set (sv_queue (th_server t1)) \<subseteq> set (sv_queue (th_server t)) \<and>
    (\<exists>w. th_workers t1 = (th_workers t)[i := w] \<and>
       (\<forall>r. task_ref w = Some r \<longrightarrow> task_ref (th_workers t ! i) = Some r \<or> r \<in> set (sv_queue (th_server t))))"
proof (cases a)
  case Tk_go
  with e show ?thesis
    by (cases "th_workers t ! i") (auto simp: Let_def split: list.splits if_splits)
next
  case (Tk_build env)
  with e show ?thesis
    by (auto split: task_pc.splits option.splits sum.splits prod.splits dest: build_response_sel(3))
next
  case (Tk_send out)
  with e obtain r where pc: "th_workers t ! i = K_send r" by (cases "th_workers t ! i") auto
  obtain cl s1 where se: "send_section r out (th_server t) = (cl, s1)" by fastforce
  from send_section_sel(3) [OF se] pc se Tk_send e show ?thesis by (auto split: if_splits)
qed (use e in \<open>auto split: task_pc.splits\<close>)

lemma refs_okD:
  assumes "refs_ok t"
  shows "find_conn fd (th_server t) = Some r \<Longrightarrow> r < length (sv_heap (th_server t))"
    and "r \<in> set (sv_queue (th_server t)) \<Longrightarrow> r < length (sv_heap (th_server t))"
    and "event_ref (th_event t) = Some r \<Longrightarrow> r < length (sv_heap (th_server t))"
    and "w \<in> set (th_workers t) \<Longrightarrow> task_ref w = Some r \<Longrightarrow> r < length (sv_heap (th_server t))"
    and "length (th_owner t) = length (sv_heap (th_server t))"
  using assms by (auto simp: refs_ok_def)

lemma refs_ok_frame:
  assumes "refs_ok t" and f: "server_frame (th_server t) (th_server t1)" and "th_owner t1 = th_owner t"
    and "\<And>r. r \<in> set (sv_queue (th_server t1)) \<Longrightarrow> r < length (sv_heap (th_server t))"
    and "\<And>r. event_ref (th_event t1) = Some r \<Longrightarrow> r < length (sv_heap (th_server t))"
    and "\<And>w r. w \<in> set (th_workers t1) \<Longrightarrow> task_ref w = Some r \<Longrightarrow> r < length (sv_heap (th_server t))"
  shows "refs_ok t1"
proof -
  have "r < length (sv_heap (th_server t))" if "find_conn fd (th_server t1) = Some r" for fd r
    using f refs_okD(1) [OF assms(1)] that unfolding server_frame_def by (metis option.distinct(1))
  moreover have "length (sv_heap (th_server t1)) = length (sv_heap (th_server t))" using f by (simp add: server_frame_def)
  ultimately show ?thesis using assms(3-) refs_okD(5) [OF assms(1)] unfolding refs_ok_def by simp
qed

lemma refs_ok_insert:
  assumes "refs_ok t" and "event_exec (Ev_insert now) t = Some t1"
  shows "refs_ok t1"
  using assms by (cases "th_event t") (auto simp: refs_ok_def less_Suc_eq split: if_splits)

lemma refs_ok_event:
  assumes r: "refs_ok t" and e: "event_exec a t = Some t1"
  shows "refs_ok t1"
proof (cases "\<exists>now. a = Ev_insert now")
  case True
  with r e show ?thesis using refs_ok_insert by blast
next
  case False
  then have n: "\<forall>now. a \<noteq> Ev_insert now" by simp
  note f = event_frame [OF r e n] and g = event_refs [OF e] and d = refs_okD [OF r]
  show ?thesis
  proof (rule refs_ok_frame [OF r])
    fix x
    show "x < length (sv_heap (th_server t))" if "x \<in> set (sv_queue (th_server t1))"
      using that g d(2,3) by (auto dest!: subsetD simp: elem_set)
    show "x < length (sv_heap (th_server t))" if "event_ref (th_event t1) = Some x"
      using that g d(1,3) by blast
    fix w assume "w \<in> set (th_workers t1)"
    with g have "w \<in> set (th_workers t)" by simp
    then show "task_ref w = Some x \<Longrightarrow> x < length (sv_heap (th_server t))" by (rule d(4))
  qed (use f in auto)
qed

lemma refs_ok_task:
  assumes r: "refs_ok t" and i: "i < length (th_workers t)" and e: "task_exec i a t = Some t1"
  shows "refs_ok t1"
proof -
  obtain w where w: "th_workers t1 = (th_workers t)[i := w]"
    "\<And>r. task_ref w = Some r \<Longrightarrow> task_ref (th_workers t ! i) = Some r \<or> r \<in> set (sv_queue (th_server t))"
    and q: "set (sv_queue (th_server t1)) \<subseteq> set (sv_queue (th_server t))"
    using task_refs [OF e] by blast
  note f = task_frame [OF r i e] and d = refs_okD [OF r]
  show ?thesis
  proof (rule refs_ok_frame [OF r])
    fix x
    show "x < length (sv_heap (th_server t))" if "x \<in> set (sv_queue (th_server t1))"
      using that q d(2) by blast
    show "x < length (sv_heap (th_server t))" if "event_ref (th_event t1) = Some x"
      using that f d(3) by simp
    fix w' assume "w' \<in> set (th_workers t1)" and x: "task_ref w' = Some x"
    then have "w' = w \<or> w' \<in> set (th_workers t)"
      using set_update_subset_insert [of "th_workers t" i w] by (auto simp: w(1))
    then show "x < length (sv_heap (th_server t))"
      using x w(2) d(2,4) nth_mem [OF i] by blast
  qed (use f in auto)
qed

section \<open>Descriptors and the connections they belong to\<close>

definition routes_ok :: "threads \<Rightarrow> bool" where
  \<comment> \<open>the map leads from a descriptor to the object made for the socket behind it, and so does what
      the event thread has found there, unless the descriptor has been closed since\<close>
  "routes_ok t \<longleftrightarrow>
     (\<forall>fd r. find_conn fd (th_server t) = Some r \<longrightarrow>
        cn_fd (get_conn r (th_server t)) = fd \<and> th_kernel t fd = Some (th_owner t ! r)) \<and>
     (\<forall>fd r. th_event t = E_recv fd r \<longrightarrow> cn_fd (get_conn r (th_server t)) = fd) \<and>
     (\<forall>r. event_ref (th_event t) = Some r \<longrightarrow>
        th_kernel t (cn_fd (get_conn r (th_server t))) \<in> {None, Some (th_owner t ! r)})"

lemma routes_okD:
  assumes "routes_ok t"
  shows "find_conn fd (th_server t) = Some r \<Longrightarrow> cn_fd (get_conn r (th_server t)) = fd"
    and "find_conn fd (th_server t) = Some r \<Longrightarrow> th_kernel t fd = Some (th_owner t ! r)"
    and "th_event t = E_recv fd r \<Longrightarrow> cn_fd (get_conn r (th_server t)) = fd"
    and "event_ref (th_event t) = Some r \<Longrightarrow>
      th_kernel t (cn_fd (get_conn r (th_server t))) \<in> {None, Some (th_owner t ! r)}"
  using assms unfolding routes_ok_def by blast+

lemma event_kernel:
  "event_exec a t = Some t1 \<Longrightarrow> \<forall>fd. a \<noteq> Ev_accept fd \<Longrightarrow> th_kernel t1 j = th_kernel t j \<or> th_kernel t1 j = None"
  by (cases a) (auto simp: drop_accepted_def Let_def
      split: if_splits event_pc.splits prod.splits append_result.splits sum.splits list.splits)

lemma task_kernel: "task_exec i a t = Some t1 \<Longrightarrow> th_kernel t1 j = th_kernel t j \<or> th_kernel t1 j = None"
  by (cases a) (auto simp: Let_def split: if_splits task_pc.splits prod.splits sum.splits list.splits option.splits)

lemma routes_ok_frame:
  assumes r: "routes_ok t" and f: "server_frame (th_server t) (th_server t1)" and o: "th_owner t1 = th_owner t"
    and k: "\<And>j. th_kernel t1 j = th_kernel t j \<or> th_kernel t1 j = None" and h: "fds_held t1"
    and ev: "\<And>r. event_ref (th_event t1) = Some r \<Longrightarrow>
      event_ref (th_event t) = Some r \<or> (\<exists>fd. find_conn fd (th_server t) = Some r)"
    and re: "\<And>fd r. th_event t1 = E_recv fd r \<Longrightarrow> th_event t = E_recv fd r \<or> find_conn fd (th_server t) = Some r"
  shows "routes_ok t1"
proof -
  have c: "cn_fd (get_conn i (th_server t1)) = cn_fd (get_conn i (th_server t))" for i
    using f by (simp add: server_frame_def)
  have m: "cn_fd (get_conn x (th_server t1)) = fd \<and> th_kernel t1 fd = Some (th_owner t1 ! x)"
    if "find_conn fd (th_server t1) = Some x" for fd x
  proof -
    have "find_conn fd (th_server t) = Some x" using f that unfolding server_frame_def by (metis option.distinct(1))
    moreover have "th_kernel t1 fd \<noteq> None" using held_open(2) [OF h] that by simp
    ultimately show ?thesis using routes_okD(1,2) [OF r] k [of fd] c o by auto
  qed
  have e: "th_kernel t1 (cn_fd (get_conn x (th_server t1))) \<in> {None, Some (th_owner t1 ! x)}"
    if "event_ref (th_event t1) = Some x" for x
    using ev [OF that] routes_okD(1,2,4) [OF r] k [of "cn_fd (get_conn x (th_server t))"] c [of x] o by auto
  have "cn_fd (get_conn x (th_server t1)) = fd" if "th_event t1 = E_recv fd x" for fd x
    using re [OF that] routes_okD(1,3) [OF r] c [of x] by auto
  with m e show ?thesis unfolding routes_ok_def by blast
qed

lemma event_recv_found:
  "event_exec a t = Some t1 \<Longrightarrow> th_event t1 = E_recv fd r \<Longrightarrow>
   th_event t = E_recv fd r \<or> find_conn fd (th_server t) = Some r"
  by (cases a) (auto simp: drop_accepted_def Let_def event_idle_def
      split: if_splits event_pc.splits prod.splits append_result.splits sum.splits list.splits)

lemma routes_ok_event:
  assumes r: "routes_ok t" and h: "fds_held t" and f: "refs_ok t" and e: "event_exec a t = Some t1"
  shows "routes_ok t1"
proof (cases "\<exists>fd now. a = Ev_accept fd \<or> a = Ev_insert now")
  case False
  then have n: "\<forall>fd. a \<noteq> Ev_accept fd" "\<forall>now. a \<noteq> Ev_insert now" by auto
  from event_frame [OF f e n(2)] event_kernel [OF e n(1)] event_refs [OF e] event_recv_found [OF e]
  show ?thesis by (intro routes_ok_frame [OF r _ _ _ fds_held_event [OF h e]]) auto
next
  case True
  then consider fd where "a = Ev_accept fd" | now where "a = Ev_insert now" by blast
  then show ?thesis
  proof cases
    case 1
    with e r held_open(2) [OF h] show ?thesis by (auto simp: routes_ok_def split: if_splits)
  next
    case 2
    with e obtain fd where pc: "th_event t = E_admitted fd" by (cases "th_event t") auto
    then obtain k where k: "th_kernel t fd = Some k" using held_open(1) [OF h, of fd] by auto
    have "x < length (sv_heap (th_server t))" if "find_conn j (th_server t) = Some x" for j x
      using refs_okD(1) [OF f that] .
    moreover have "cn_fd (get_conn (length (th_owner t)) (add_connection now fd (register fd (th_server t)))) = fd"
      using get_add_connection(1) [of "register fd (th_server t)" now fd] refs_okD(5) [OF f]
      by (simp add: new_connection_def)
    ultimately show ?thesis
      using 2 e pc k routes_okD(1,2) [OF r] refs_okD(5) [OF f]
      by (auto simp: routes_ok_def nth_append split: if_splits)
  qed
qed

lemma routes_ok_task:
  assumes "routes_ok t" and "fds_held t" and "refs_ok t" and "i < length (th_workers t)" and "task_exec i a t = Some t1"
  shows "routes_ok t1"
  using task_frame [OF assms(3-5)] task_kernel [OF assms(5)]
  by (intro routes_ok_frame [OF assms(1) _ _ _ fds_held_task [OF assms(2,4,5)]]) auto

section \<open>The limit\<close>

definition limit_ok :: "threads \<Rightarrow> bool" where
  \<comment> \<open>one accepted connection may be on its way into the map\<close>
  "limit_ok t \<longleftrightarrow> length (sv_connections (th_server t)) + of_bool (\<exists>fd. th_event t = E_admitted fd)
     \<le> sv_max_connections (th_server t)"

lemma event_admitted:
  "event_exec a t = Some t1 \<Longrightarrow> a \<noteq> Ev_limit \<Longrightarrow> th_event t1 = E_admitted fd \<Longrightarrow> th_event t = E_admitted fd"
  by (cases a) (auto simp: drop_accepted_def Let_def event_idle_def
      split: if_splits event_pc.splits prod.splits append_result.splits sum.splits list.splits)

lemma limit_ok_event:
  assumes l: "limit_ok t" and f: "refs_ok t" and h: "fds_held t" and e: "event_exec a t = Some t1"
  shows "limit_ok t1"
proof (cases "a = Ev_limit \<or> (\<exists>now. a = Ev_insert now)")
  case True
  then consider "a = Ev_limit" | now where "a = Ev_insert now" by blast
  then show ?thesis
  proof cases
    case 1
    with l e show ?thesis by (cases "th_event t") (auto simp: limit_ok_def drop_accepted_def split: if_splits)
  next
    case 2
    with e obtain fd where pc: "th_event t = E_admitted fd" by (cases "th_event t") auto
    then have "find_conn fd (th_server t) = None" using held_open(1) [OF h, of fd] by simp
    then have "length (AList.update fd v (sv_connections (th_server t))) = Suc (length (sv_connections (th_server t)))" for v
      using update_keys [of fd v "sv_connections (th_server t)"] not_in_map [of fd "th_server t"]
      by (metis length_append_singleton length_map image_set)
    with 2 e pc l show ?thesis by (auto simp: limit_ok_def)
  qed
next
  case False
  then have n: "\<forall>now. a \<noteq> Ev_insert now" "a \<noteq> Ev_limit" by auto
  have "(of_bool (\<exists>fd. th_event t1 = E_admitted fd) :: nat) \<le> of_bool (\<exists>fd. th_event t = E_admitted fd)"
    using event_admitted [OF e n(2)] by auto
  with event_frame [OF f e n(1)] l show ?thesis unfolding limit_ok_def server_frame_def by linarith
qed

lemma limit_ok_task:
  assumes "limit_ok t" and "refs_ok t" and "i < length (th_workers t)" and "task_exec i a t = Some t1"
  shows "limit_ok t1"
proof -
  have "th_event t1 = th_event t" "server_frame (th_server t) (th_server t1)" using task_frame [OF assms(2-4)] by auto
  with assms(1) show ?thesis unfolding limit_ok_def server_frame_def by simp
qed

section \<open>Buffers\<close>

definition buffers_ok :: "threads \<Rightarrow> bool" where
  "buffers_ok t \<longleftrightarrow> (\<forall>i < length (sv_heap (th_server t)). length (cn_buffer (get_conn i (th_server t))) \<le> MAX_REQUEST_SIZE)"

lemma note_keep_alive_conn:
  "r < length (sv_heap s) \<Longrightarrow> cn_buffer (get_conn i (note_keep_alive r request s)) = cn_buffer (get_conn i s)"
  "r < length (sv_heap s) \<Longrightarrow>
     cn_processing_request (get_conn i (note_keep_alive r request s)) = cn_processing_request (get_conn i s)"
  by (auto simp: note_keep_alive_def get_upd_conn)

lemma task_section_conn:
  assumes "r < length (sv_heap s)"
  shows "cn_buffer (get_conn i (post_response r resp s)) = cn_buffer (get_conn i s)"
    "cn_buffer (get_conn i (stop_processing r s)) = cn_buffer (get_conn i s)"
    "cn_buffer (get_conn i (finish_request r now s)) = (if i = r then [] else cn_buffer (get_conn i s))"
    "cn_processing_request (get_conn i (post_response r resp s)) = cn_processing_request (get_conn i s)"
    "cn_processing_request (get_conn i (stop_processing r s)) = (i \<noteq> r \<and> cn_processing_request (get_conn i s))"
    "cn_processing_request (get_conn i (finish_request r now s)) = (i \<noteq> r \<and> cn_processing_request (get_conn i s))"
  using assms by (auto simp: post_response_def stop_processing_def finish_request_def get_upd_conn)

lemma event_conns:
  assumes f: "refs_ok t" and e: "event_exec a t = Some t1" and i: "i < length (sv_heap (th_server t))"
  shows "(cn_buffer (get_conn i (th_server t1)) = cn_buffer (get_conn i (th_server t)) \<or>
      length (cn_buffer (get_conn i (th_server t1))) \<le> MAX_REQUEST_SIZE) \<and>
    (if th_event t1 = E_enqueue i
     then \<not> cn_processing_request (get_conn i (th_server t)) \<and> cn_processing_request (get_conn i (th_server t1))
     else cn_processing_request (get_conn i (th_server t1)) = cn_processing_request (get_conn i (th_server t)))"
proof (cases a)
  case (Ev_recv bytes now)
  with e obtain fd r where pc: "th_event t = E_recv fd r" by (cases "th_event t") auto
  obtain res s1 where ap: "append_section fd r bytes now (th_server t) = (res, s1)" by fastforce
  have r: "r < length (sv_heap (th_server t))" using refs_okD(3) [OF f, of r] pc by simp
  note sel = append_section_sel(8,9,10) [OF ap r] append_section_sel(11) [OF ap]
  show ?thesis
  proof (cases res)
    case (Appended p)
    with sel pc ap Ev_recv e show ?thesis by (cases p) (auto split: if_splits)
  qed (use sel pc ap Ev_recv e in \<open>auto split: if_splits\<close>)
next
  case (Ev_write out)
  with e obtain r where pc: "th_event t = E_write r" by (cases "th_event t") auto
  obtain cl s1 where se: "send_section r out (th_server t) = (cl, s1)" by fastforce
  have r: "r < length (sv_heap (th_server t))" using refs_okD(3) [OF f, of r] pc by simp
  from send_section_sel(7,8) [OF se r] pc se Ev_write e show ?thesis by (auto split: if_splits)
next
  case Ev_enqueue
  with e show ?thesis by (cases "th_event t") (auto dest!: enqueue_sel split: sum.splits)
next
  case (Ev_insert now)
  with e i show ?thesis by (cases "th_event t") auto
qed (use e in \<open>auto simp: event_idle_def drop_accepted_def split: if_splits event_pc.splits list.splits\<close>)

definition ends_task :: "task_pc \<Rightarrow> nat \<Rightarrow> bool" where
  "ends_task w r \<longleftrightarrow> w = K_gone r \<or> w = K_finish r"

lemma task_conns:
  assumes f: "refs_ok t" and i: "i < length (th_workers t)" and e: "task_exec i a t = Some t1"
  shows "(cn_buffer (get_conn j (th_server t1)) = cn_buffer (get_conn j (th_server t)) \<or>
      cn_buffer (get_conn j (th_server t1)) = []) \<and>
    cn_processing_request (get_conn j (th_server t1)) =
      (cn_processing_request (get_conn j (th_server t)) \<and> \<not> (ends_task (th_workers t ! i) j \<and> th_workers t1 ! i = K_idle))"
proof -
  have ref: "rr < length (sv_heap (th_server t))" if "task_ref (th_workers t ! i) = Some rr" for rr
    using refs_okD(4) [OF f _ that] i by simp
  show ?thesis
  proof (cases a)
    case Tk_go
    with e ref i show ?thesis
      by (cases "th_workers t ! i")
        (auto simp: Let_def ends_task_def note_keep_alive_conn task_section_conn split: list.splits if_splits)
  next
    case (Tk_build env)
    with e obtain r request response s1 where pc: "th_workers t ! i = K_build r request"
      and b: "build_response env request (th_server t) = Some (Inr response, s1)"
      and t1: "t1 = at_worker i (K_text r response) s1 t"
      by (auto split: task_pc.splits option.splits sum.splits prod.splits)
    from build_response_sel(6) [OF b] show ?thesis by (simp add: pc t1 ends_task_def)
  next
    case (Tk_send out)
    with e obtain rr where pc: "th_workers t ! i = K_send rr" by (cases "th_workers t ! i") auto
    obtain cl s1 where se: "send_section rr out (th_server t) = (cl, s1)" by fastforce
    from send_section_sel(7,8) [OF se] ref pc se Tk_send e i show ?thesis by (auto simp: ends_task_def split: if_splits)
  next
    case (Tk_text env)
    with e i show ?thesis by (auto simp: ends_task_def split: task_pc.splits)
  next
    case (Tk_finish now)
    with e ref i show ?thesis by (auto simp: ends_task_def task_section_conn split: task_pc.splits)
  qed
qed

lemma buffers_ok_event:
  assumes b: "buffers_ok t" and f: "refs_ok t" and e: "event_exec a t = Some t1"
  shows "buffers_ok t1"
proof (cases "\<exists>now. a = Ev_insert now")
  case True
  with e obtain now fd where "t1 = (at_event E_idle (add_connection now fd (register fd (th_server t))) t)
      \<lparr>th_owner := th_owner t @ [the (th_kernel t fd)]\<rparr>" by (cases "th_event t") auto
  moreover have "cn_buffer (get_conn (length (sv_heap (th_server t))) (add_connection now fd (register fd (th_server t)))) = []"
    using get_add_connection(1) [of "register fd (th_server t)" now fd] by (simp add: new_connection_def)
  ultimately show ?thesis using b by (auto simp: buffers_ok_def less_Suc_eq)
next
  case False
  then have "length (sv_heap (th_server t1)) = length (sv_heap (th_server t))"
    using event_frame [OF f e] by (auto simp: server_frame_def)
  with event_conns [OF f e] b show ?thesis unfolding buffers_ok_def by metis
qed

lemma buffers_ok_task:
  assumes b: "buffers_ok t" and f: "refs_ok t" and i: "i < length (th_workers t)" and e: "task_exec i a t = Some t1"
  shows "buffers_ok t1"
proof -
  have "length (sv_heap (th_server t1)) = length (sv_heap (th_server t))"
    using task_frame [OF f i e] by (simp add: server_frame_def)
  with task_conns [OF f i e] b show ?thesis unfolding buffers_ok_def by (metis le0 list.size(3))
qed

section \<open>Tasks\<close>

definition task_count :: "nat \<Rightarrow> threads \<Rightarrow> nat" where
  \<comment> \<open>the tasks for a connection object: about to be queued, queued, or being worked on\<close>
  "task_count r t = count_list (sv_queue (th_server t)) r + of_bool (th_event t = E_enqueue r) +
     length (filter (\<lambda>w. task_ref w = Some r) (th_workers t))"

definition tasks_ok :: "threads \<Rightarrow> bool" where
  "tasks_ok t \<longleftrightarrow> (\<forall>r. task_count r t =
     of_bool (r < length (sv_heap (th_server t)) \<and> cn_processing_request (get_conn r (th_server t))))"

lemma event_count:
  assumes e: "event_exec a t = Some t1"
  shows "task_count r t1 = task_count r t + of_bool (th_event t1 = E_enqueue r)"
proof (cases a)
  case (Ev_recv bytes now)
  with e obtain fd x where pc: "th_event t = E_recv fd x" by (cases "th_event t") auto
  obtain res s1 where ap: "append_section fd x bytes now (th_server t) = (res, s1)" by fastforce
  from append_section_sel(3) [OF ap] pc ap Ev_recv e show ?thesis
    by (cases res) (auto simp: task_count_def split: if_splits)
next
  case (Ev_write out)
  with e obtain x where pc: "th_event t = E_write x" by (cases "th_event t") auto
  obtain cl s1 where se: "send_section x out (th_server t) = (cl, s1)" by fastforce
  from send_section_sel(3) [OF se] pc se Ev_write e show ?thesis by (auto simp: task_count_def split: if_splits)
next
  case Ev_enqueue
  with e show ?thesis
    by (cases "th_event t") (auto simp: task_count_def dest!: enqueue_sel split: sum.splits)
qed (use e in \<open>auto simp: task_count_def event_idle_def drop_accepted_def
    split: if_splits event_pc.splits list.splits\<close>)

lemma count_at_worker:
  assumes "i < length (th_workers t)"
  shows "task_count r (at_worker i w s t) + of_bool (task_ref (th_workers t ! i) = Some r) + count_list (sv_queue (th_server t)) r =
    task_count r t + of_bool (task_ref w = Some r) + count_list (sv_queue s) r"
  using filter_update [OF assms, of "\<lambda>w. task_ref w = Some r" w] by (simp add: task_count_def)

lemma count_sel [simp]:
  "task_count r (kernel_close fd t) = task_count r t"
  "task_count r (at_worker i w s (record_sent x out t)) = task_count r (at_worker i w s t)"
  by (simp_all add: task_count_def)

lemma count_same:
  "i < length (th_workers t) \<Longrightarrow> task_ref w = task_ref (th_workers t ! i) \<Longrightarrow> sv_queue s = sv_queue (th_server t) \<Longrightarrow>
   task_count r (at_worker i w s t) = task_count r t"
  using count_at_worker [of i t r w s] by simp

lemma task_count_step:
  assumes i: "i < length (th_workers t)" and e: "task_exec i a t = Some t1"
  shows "task_count r t1 + of_bool (ends_task (th_workers t ! i) r \<and> th_workers t1 ! i = K_idle) = task_count r t"
proof (cases a)
  case Tk_go
  show ?thesis
  proof (cases "th_workers t ! i = K_idle \<or> (\<exists>x. th_workers t ! i = K_gone x)")
    case True
    then consider "th_workers t ! i = K_idle" | x where "th_workers t ! i = K_gone x" by blast
    then show ?thesis
    proof cases
      case 1
      with Tk_go e obtain x q where "sv_queue (th_server t) = x # q"
          "t1 = at_worker i (K_parse x) ((th_server t)\<lparr>sv_queue := q\<rparr>) t"
        by (cases "sv_queue (th_server t)") (auto simp: Let_def)
      with 1 i count_at_worker [OF i, of r "K_parse x" "(th_server t)\<lparr>sv_queue := q\<rparr>"] show ?thesis
        by (auto simp: ends_task_def split: if_splits)
    next
      case 2
      with Tk_go e i count_at_worker [OF i, of r K_idle "stop_processing x (th_server t)"] show ?thesis
        by (auto simp: Let_def ends_task_def)
    qed
  qed (use Tk_go e i in \<open>cases "th_workers t ! i"; auto simp: Let_def ends_task_def count_same\<close>)
next
  case (Tk_build env)
  with e obtain x request response s1 where pc: "th_workers t ! i = K_build x request"
    and b: "build_response env request (th_server t) = Some (Inr response, s1)"
    and t1: "t1 = at_worker i (K_text x response) s1 t"
    by (auto split: task_pc.splits option.splits sum.splits prod.splits)
  from i build_response_sel(3) [OF b] show ?thesis by (simp add: pc t1 ends_task_def count_same)
next
  case (Tk_text env)
  with e i show ?thesis by (cases "th_workers t ! i") (auto simp: ends_task_def count_same)
next
  case (Tk_send out)
  with e obtain x where pc: "th_workers t ! i = K_send x" by (cases "th_workers t ! i") auto
  obtain cl s1 where se: "send_section x out (th_server t) = (cl, s1)" by fastforce
  from send_section_sel(3) [OF se] pc se Tk_send e i show ?thesis
    by (auto simp: ends_task_def count_same split: if_splits)
next
  case (Tk_finish now)
  with e obtain x where pc: "th_workers t ! i = K_finish x" by (cases "th_workers t ! i") auto
  with Tk_finish e i count_at_worker [OF i, of r K_idle "finish_request x now (th_server t)"] show ?thesis
    by (auto simp: ends_task_def)
qed

lemma new_not_processing:
  assumes "event_exec a t = Some t1" and "refs_ok t" and "\<not> r < length (sv_heap (th_server t))"
    and "r < length (sv_heap (th_server t1))"
  shows "\<not> cn_processing_request (get_conn r (th_server t1))"
proof (cases "\<exists>now. a = Ev_insert now")
  case True
  then obtain now fd where "th_server t1 = add_connection now fd (register fd (th_server t))"
    using assms(1) by (cases "th_event t") auto
  moreover from this assms(3,4) have "r = length (sv_heap (register fd (th_server t)))" by simp
  ultimately show ?thesis by (simp only: get_add_connection) (simp add: new_connection_def)
next
  case False
  with event_frame [OF assms(2,1)] assms(3,4) show ?thesis by (auto simp: server_frame_def)
qed

lemma tasks_ok_event:
  assumes o: "tasks_ok t" and f: "refs_ok t" and e: "event_exec a t = Some t1"
  shows "tasks_ok t1"
  unfolding tasks_ok_def
proof
  fix r
  note c = event_count [OF e, of r]
  have old: "task_count r t = of_bool (r < length (sv_heap (th_server t)) \<and> cn_processing_request (get_conn r (th_server t)))"
    using o by (simp add: tasks_ok_def)
  have len: "length (sv_heap (th_server t)) \<le> length (sv_heap (th_server t1))"
  proof (cases "\<exists>now. a = Ev_insert now")
    case True
    with e show ?thesis by (cases "th_event t") auto
  next
    case False
    with event_frame [OF f e] show ?thesis by (auto simp: server_frame_def)
  qed
  show "task_count r t1 = of_bool (r < length (sv_heap (th_server t1)) \<and> cn_processing_request (get_conn r (th_server t1)))"
  proof (cases "r < length (sv_heap (th_server t))")
    case True
    with event_conns [OF f e True] c old len show ?thesis by (auto split: if_splits)
  next
    case False
    have "th_event t1 \<noteq> E_enqueue r"
      using event_refs [OF e] refs_okD(1,3) [OF f] False by fastforce
    with c old False new_not_processing [OF e f False] show ?thesis by simp
  qed
qed

lemma tasks_ok_task:
  assumes o: "tasks_ok t" and f: "refs_ok t" and i: "i < length (th_workers t)" and e: "task_exec i a t = Some t1"
  shows "tasks_ok t1"
  unfolding tasks_ok_def
proof
  fix r
  have old: "task_count r t = of_bool (r < length (sv_heap (th_server t)) \<and> cn_processing_request (get_conn r (th_server t)))"
    using o by (simp add: tasks_ok_def)
  moreover have "length (sv_heap (th_server t1)) = length (sv_heap (th_server t))"
    using task_frame [OF f i e] by (simp add: server_frame_def)
  ultimately show "task_count r t1 = of_bool (r < length (sv_heap (th_server t1)) \<and> cn_processing_request (get_conn r (th_server t1)))"
    using task_count_step [OF i e, of r] task_conns [OF f i e, of r]
    by (cases "r < length (sv_heap (th_server t)) \<and> cn_processing_request (get_conn r (th_server t))")
      (auto split: if_splits)
qed

section \<open>All interleavings\<close>

definition threads_inv :: "threads \<Rightarrow> bool" where
  "threads_inv t \<longleftrightarrow> fds_held t \<and> refs_ok t \<and> routes_ok t \<and> limit_ok t \<and> buffers_ok t \<and> tasks_ok t"

lemma threads_inv_init: "th_init t \<Longrightarrow> threads_inv t"
  by (auto simp: th_init_def threads_inv_def new_threads_def new_server_def fds_held_def fd_holders_def refs_ok_def
      routes_ok_def limit_ok_def buffers_ok_def tasks_ok_def task_count_def find_conn_def)

lemma threads_inv_step:
  assumes "threads_inv t" and "th_step t t1"
  shows "threads_inv t1"
proof -
  have i: "fds_held t" "refs_ok t" "routes_ok t" "limit_ok t" "buffers_ok t" "tasks_ok t"
    using assms(1) by (simp_all add: threads_inv_def)
  from assms(2) show ?thesis
  proof (cases rule: th_step.cases)
    case (event a)
    note e = event(1)
    show ?thesis
      unfolding threads_inv_def
      by (intro conjI fds_held_event [OF i(1) e] refs_ok_event [OF i(2) e] routes_ok_event [OF i(3,1,2) e]
          limit_ok_event [OF i(4,2,1) e] buffers_ok_event [OF i(5,2) e] tasks_ok_event [OF i(6,2) e])
  next
    case (task k a)
    note e = task
    show ?thesis
      unfolding threads_inv_def
      by (intro conjI fds_held_task [OF i(1) e] refs_ok_task [OF i(2) e] routes_ok_task [OF i(3,1,2) e]
          limit_ok_task [OF i(4,2) e] buffers_ok_task [OF i(5,2) e] tasks_ok_task [OF i(6,2) e])
  qed
qed

interpretation server: inductive_invariant th_init th_step threads_inv
  by unfold_locales (fact threads_inv_init threads_inv_step)+

lemmas reachable_threads = server.reachable_inv [unfolded threads_inv_def]

section \<open>A run to the wrong client\<close>

fun run_trace :: "(event_act + nat \<times> task_act) list \<Rightarrow> threads \<Rightarrow> threads option" where
  "run_trace [] t = Some t"
| "run_trace (Inl a # acts) t = (case event_exec a t of None \<Rightarrow> None | Some t1 \<Rightarrow> run_trace acts t1)"
| "run_trace (Inr (i, a) # acts) t =
     (if i < length (th_workers t)
      then (case task_exec i a t of None \<Rightarrow> None | Some t1 \<Rightarrow> run_trace acts t1) else None)"

lemma run_reachable:
  "reachable th_init th_step t \<Longrightarrow> run_trace acts t = Some t1 \<Longrightarrow> reachable th_init th_step t1"
proof (induction acts t rule: run_trace.induct)
  case (2 a acts t)
  then show ?case by (auto split: option.splits intro: reachable.next_state th_step.event)
next
  case (3 i a acts t)
  then show ?case by (auto split: option.splits if_splits intro: reachable.next_state th_step.task)
qed simp

lemma bad_request_facts:
  "is_http_request_complete bad_request" "\<not> rq_valid (parse_request bad_request)" "bad_request \<noteq> []"
  "length bad_request = 5"
  by (code_simp, code_simp, simp_all add: bad_request_def crlf_def)

definition bad_answer :: string where
  "bad_answer = response_to_string rev (set_keep_alive False (create_error_response 0 BAD_REQUEST ''Invalid HTTP request''))"

definition ex_started :: start_outcomes where
  "ex_started = \<lparr>so_socket = Inr 3, so_getfl = Inr 2, so_setfl = None, so_reuseaddr = None, so_bind = None,
     so_listen = None, so_epoll_create = Inr 4, so_epoll_add = None\<rparr>"

lemma start_ex [simp]:
  "start_server ex_started s =
     (True, s\<lparr>sv_server_fd := 3, sv_epoll := (sv_epoll s)\<lparr>ew_epoll_fd := 4\<rparr>,
              sv_calls := sv_calls s @ [Sys_epoll_add 3 EPOLLIN], sv_running := True\<rparr>)"
  by (simp add: start_server_def ex_started_def set_non_blocking_def epoll_init_def add_fd_def store_data_def do_call_def)

definition ex_threads :: threads where
  "ex_threads = new_threads ex_started None 1 8 8080 []"

lemma ex_threads_init: "th_init ex_threads"
proof -
  have "fst (start_server ex_started (new_server None 1 8 8080 []))" by simp
  then show ?thesis unfolding ex_threads_def th_init_def by blast
qed

lemma ex_threads_reachable: "reachable th_init th_step ex_threads"
  by (rule reachable.start) (rule ex_threads_init)

definition first_half :: "(event_act + nat \<times> task_act) list" where
  \<comment> \<open>a client sends a request; while a worker has it, the client closes; the next client gets the
      same descriptor\<close>
  "first_half = [Inl (Ev_accept 7), Inl Ev_limit, Inl (Ev_insert 0), Inl (Ev_readable 7), Inl (Ev_recv bad_request 0),
     Inl Ev_enqueue, Inr (0, Tk_go), Inr (0, Tk_go), Inr (0, Tk_go),
     Inl (Ev_readable 7), Inl Ev_recv_failed, Inl Ev_close, Inl Ev_release,
     Inl (Ev_accept 7), Inl Ev_limit, Inl (Ev_insert 0)]"

definition second_half :: "(event_act + nat \<times> task_act) list" where
  \<comment> \<open>the worker answers\<close>
  "second_half = [Inr (0, Tk_build ex_env), Inr (0, Tk_text ex_env), Inr (0, Tk_go), Inr (0, Tk_go),
     Inr (0, Tk_send (Sent (length bad_answer))), Inr (0, Tk_go), Inr (0, Tk_go)]"

lemma first_half_run:
  "\<exists>t. run_trace first_half ex_threads = Some t \<and>
     th_owner t = [0, 1] \<and> th_kernel t = [7 \<mapsto> 1] \<and> th_event t = E_idle \<and> th_sent t = [] \<and>
     th_workers t = [K_build 0 (parse_request bad_request)] \<and> find_conn 7 (th_server t) = Some 1 \<and>
     sv_heap (th_server t) = [(new_connection 0 7)\<lparr>cn_buffer := bad_request, cn_processing_request := True\<rparr>, new_connection 0 7]"
  using bad_request_facts
  by (simp add: first_half_def ex_threads_def new_threads_def new_server_def pool_thread_count_def event_idle_def
      at_event_def at_worker_def kernel_close_def register_def do_call_def add_fd_def add_connection_def
      load_max_connections_from_config_def find_conn_def get_conn_def upd_conn_def append_section_def Let_def
      MAX_REQUEST_SIZE_def BUFFER_SIZE_def new_connection_def enqueue_request_def note_keep_alive_def erase_conn_def
      release_fd_def epoll_del_def remove_fd_def store_data_def)

lemma second_half_run:
  assumes "th_owner t = [0, 1]" and "th_kernel t = [7 \<mapsto> 1]" and "th_event t = E_idle" and "th_sent t = []"
    and "th_workers t = [K_build 0 (parse_request bad_request)]" and "find_conn 7 (th_server t) = Some 1"
    and "sv_heap (th_server t) = [(new_connection 0 7)\<lparr>cn_buffer := bad_request, cn_processing_request := True\<rparr>, new_connection 0 7]"
  shows "\<exists>t1. run_trace second_half t = Some t1 \<and> th_sent t1 = [(1, 0, bad_answer)] \<and> th_owner t1 = [0, 1] \<and>
    th_kernel t1 = Map.empty \<and> find_conn 7 (th_server t1) = None"
proof -
  let ?x = "create_error_response 0 BAD_REQUEST ''Invalid HTTP request''"
  let ?s = "th_server t"
  have b: "build_response ex_env (parse_request bad_request) ?s = Some (Inr ?x, ?s)"
    using bad_request_facts(2) by (simp add: build_response_def Let_def ex_env_def ex_clocks_def)
  have c: "get_conn 0 ?s = (new_connection 0 7)\<lparr>cn_buffer := bad_request, cn_processing_request := True\<rparr>"
    using assms(7) by (simp add: get_conn_def)
  have r: "response_to_string (re_order ex_env) (set_keep_alive False ?x) = bad_answer"
    by (simp add: bad_answer_def ex_env_def)
  have n: "bad_answer \<noteq> []" unfolding bad_answer_def by (rule response_text_nonempty)
  show ?thesis
    unfolding second_half_def
    using assms c n
    by (simp add: b r new_connection_def at_worker_def Let_def post_response_def send_possible_def send_section_def
        record_sent_def get_upd_conn reset_pending_def kernel_close_def fun_upd_def)
      (simp add: fun_eq_iff)
qed

text \<open>C16: A response can reach the wrong client.  A task keeps only the descriptor of its connection:
  when the client goes away while its request is being worked on, the event thread closes the
  descriptor, the next client can get the same number, and the worker, whose only test is that the
  map has some connection under that number, sends the first client's response to the second.
  It then closes the second client's connection.\<close>

theorem response_to_wrong_client:
  "\<exists>t sock r. reachable th_init th_step t \<and> (sock, r, bad_answer) \<in> set (th_sent t) \<and> th_owner t ! r \<noteq> sock \<and>
     th_kernel t = Map.empty"
proof -
  obtain t where t: "run_trace first_half ex_threads = Some t" "th_owner t = [0, 1]" "th_kernel t = [7 \<mapsto> 1]"
      "th_event t = E_idle" "th_sent t = []" "th_workers t = [K_build 0 (parse_request bad_request)]"
      "find_conn 7 (th_server t) = Some 1"
      "sv_heap (th_server t) = [(new_connection 0 7)\<lparr>cn_buffer := bad_request, cn_processing_request := True\<rparr>, new_connection 0 7]"
    using first_half_run by blast
  obtain t1 where t1: "run_trace second_half t = Some t1" "th_sent t1 = [(1, 0, bad_answer)]"
      "th_owner t1 = [0, 1]" "th_kernel t1 = Map.empty"
    using second_half_run [OF t(2-)] by blast
  have "reachable th_init th_step t1"
    by (rule run_reachable [OF run_reachable [OF ex_threads_reachable t(1)] t1(1)])
  then show ?thesis using t1 by fastforce
qed

section \<open>What the invariants say\<close>

text \<open>C3: No descriptor is leaked or closed twice, in any interleaving: an open client descriptor has exactly
  one place responsible for closing it (the map, the event thread, or a worker), a closed one none,
  and whoever is about to call \<open>close\<close> finds it open.\<close>

theorem descriptors_accounted:
  assumes "reachable th_init th_step t"
  shows "fd_holders fd t = (if th_kernel t fd = None then 0 else 1) \<and>
    (th_event t = E_release fd \<longrightarrow> th_kernel t fd \<noteq> None) \<and>
    (K_release r fd \<in> set (th_workers t) \<longrightarrow> th_kernel t fd \<noteq> None)"
proof -
  have h: "fds_held t" using reachable_threads [OF assms] by blast
  moreover have "K_release r fd \<in> set (th_workers t) \<Longrightarrow> th_kernel t fd \<noteq> None"
    using held_open(3) [OF h, of _ fd] by (fastforce simp: in_set_conv_nth)
  ultimately show ?thesis using held_open(1) [OF h, of fd] by (auto simp: fds_held_def)
qed

lemma ex_mid:
  obtains t where "reachable th_init th_step t" and "th_kernel t = [7 \<mapsto> 1]" and "find_conn 7 (th_server t) = Some 1"
    and "th_workers t = [K_build 0 (parse_request bad_request)]" and "th_owner t = [0, 1]" and "th_event t = E_idle"
  using first_half_run run_reachable [OF ex_threads_reachable] by blast

theorem descriptors_accounted_witness:
  "\<exists>t. reachable th_init th_step t \<and> fd_holders 7 t = 1 \<and> fd_holders 8 t = 0"
proof -
  obtain t where t: "reachable th_init th_step t" "th_kernel t = [7 \<mapsto> 1]" by (rule ex_mid)
  with descriptors_accounted [OF t(1), of 7] descriptors_accounted [OF t(1), of 8] show ?thesis by auto
qed

text \<open>C4: In every interleaving a connection is marked as being processed exactly while one task for it
  exists, about to be queued, queued or being worked on, and never two: no request is worked on
  twice at a time, and no connection stays marked without a task that will end it.\<close>

theorem one_task_per_connection:
  assumes "reachable th_init th_step t" and "r < length (sv_heap (th_server t))"
  shows "task_count r t = (if cn_processing_request (get_conn r (th_server t)) then 1 else 0)"
proof -
  have "tasks_ok t" using reachable_threads [OF assms(1)] by blast
  with assms(2) show ?thesis by (simp add: tasks_ok_def)
qed

theorem one_task_per_connection_witness:
  "\<exists>t. reachable th_init th_step t \<and> task_count 0 t = 1 \<and> cn_processing_request (get_conn 0 (th_server t)) \<and>
     task_count 1 t = 0"
proof -
  obtain t where t: "run_trace first_half ex_threads = Some t"
      "sv_heap (th_server t) = [(new_connection 0 7)\<lparr>cn_buffer := bad_request, cn_processing_request := True\<rparr>, new_connection 0 7]"
    using first_half_run by blast
  have r: "reachable th_init th_step t" by (rule run_reachable [OF ex_threads_reachable t(1)])
  have "cn_processing_request (get_conn 0 (th_server t))" "\<not> cn_processing_request (get_conn 1 (th_server t))"
    using t(2) by (simp_all add: get_conn_def new_connection_def)
  with one_task_per_connection [OF r, of 0] one_task_per_connection [OF r, of 1] t(2) r show ?thesis by auto
qed

lemma held_fds:
  assumes "fds_held t"
  shows "{fd. th_kernel t fd \<noteq> None} \<subseteq> fst ` set (sv_connections (th_server t)) \<union> {fd. event_holds (th_event t) fd} \<union>
    (\<Union>w \<in> set (th_workers t). {fd. task_holds w fd})"
proof
  fix fd assume "fd \<in> {fd. th_kernel t fd \<noteq> None}"
  with assms have "fd_holders fd t \<noteq> 0" by (simp add: fds_held_def)
  then have "find_conn fd (th_server t) \<noteq> None \<or> event_holds (th_event t) fd \<or>
      filter (\<lambda>w. task_holds w fd) (th_workers t) \<noteq> []"
    using find_conn_count [of fd "th_server t"] unfolding fd_holders_def by auto
  then show "fd \<in> fst ` set (sv_connections (th_server t)) \<union> {fd. event_holds (th_event t) fd} \<union>
    (\<Union>w \<in> set (th_workers t). {fd. task_holds w fd})"
    by (auto simp: find_conn_def filter_empty_conv map_of_eq_None_iff dest!: map_of_SomeD intro: rev_image_eqI)
qed

lemma one_descriptor:
  "finite {fd. event_holds pc fd} \<and> card {fd. event_holds pc fd} \<le> 1"
  "finite {fd. task_holds w fd} \<and> card {fd. task_holds w fd} \<le> 1"
  by (cases pc; simp) (cases w; simp)

lemma card_UN_le:
  "(\<And>w. w \<in> set ws \<Longrightarrow> finite (f w) \<and> card (f w) \<le> 1) \<Longrightarrow>
   finite (\<Union>w \<in> set ws. f w) \<and> card (\<Union>w \<in> set ws. f w) \<le> length ws"
proof (induction ws)
  case (Cons w ws)
  have "card (f w \<union> (\<Union>w \<in> set ws. f w)) \<le> card (f w) + card (\<Union>w \<in> set ws. f w)" by (rule card_Un_le)
  with Cons show ?case by fastforce
qed simp

text \<open>C11: The resources clients can make the server hold are bounded in every interleaving: the map never has
  more connections than the configured limit, no receive buffer grows beyond 64 KB, and no more
  client descriptors are open than the limit, one for the event thread and one for each worker.\<close>

theorem resources_bounded:
  assumes "reachable th_init th_step t"
  shows "length (sv_connections (th_server t)) \<le> sv_max_connections (th_server t) \<and>
    (\<forall>fd r. find_conn fd (th_server t) = Some r \<longrightarrow> length (cn_buffer (get_conn r (th_server t))) \<le> 65536) \<and>
    finite {fd. th_kernel t fd \<noteq> None} \<and>
    card {fd. th_kernel t fd \<noteq> None} \<le> sv_max_connections (th_server t) + length (th_workers t) + 1"
proof -
  have i: "fds_held t" "refs_ok t" "limit_ok t" "buffers_ok t" using reachable_threads [OF assms] by auto
  let ?A = "fst ` set (sv_connections (th_server t))" and ?B = "{fd. event_holds (th_event t) fd}"
    and ?C = "\<Union>w \<in> set (th_workers t). {fd. task_holds w fd}"
  have c: "finite ?C \<and> card ?C \<le> length (th_workers t)" by (rule card_UN_le) (rule one_descriptor)
  have l: "length (sv_connections (th_server t)) \<le> sv_max_connections (th_server t)" using i(3) by (simp add: limit_ok_def)
  have "card ?A \<le> length (sv_connections (th_server t))" by (metis card_length length_map set_map)
  then have "card (?A \<union> ?B \<union> ?C) \<le> sv_max_connections (th_server t) + length (th_workers t) + 1"
    using card_Un_le [of "?A \<union> ?B" ?C] card_Un_le [of ?A ?B] one_descriptor(1) [of "th_event t"] c l by linarith
  moreover have "finite (?A \<union> ?B \<union> ?C)" using one_descriptor(1) [of "th_event t"] c by simp
  ultimately have "finite {fd. th_kernel t fd \<noteq> None}"
    "card {fd. th_kernel t fd \<noteq> None} \<le> sv_max_connections (th_server t) + length (th_workers t) + 1"
    using held_fds [OF i(1)] finite_subset card_mono le_trans by meson+
  moreover have "length (cn_buffer (get_conn r (th_server t))) \<le> 65536" if "find_conn fd (th_server t) = Some r" for fd r
    using i(4) refs_okD(1) [OF i(2) that] by (simp add: buffers_ok_def MAX_REQUEST_SIZE_def)
  ultimately show ?thesis using l by blast
qed

theorem resources_bounded_witness:
  "\<exists>t. reachable th_init th_step t \<and> find_conn 7 (th_server t) = Some 1 \<and>
     length (sv_connections (th_server t)) \<le> sv_max_connections (th_server t) \<and>
     card {fd. th_kernel t fd \<noteq> None} \<le> sv_max_connections (th_server t) + 2"
proof -
  obtain t where t: "reachable th_init th_step t" "find_conn 7 (th_server t) = Some 1"
    "th_workers t = [K_build 0 (parse_request bad_request)]" by (rule ex_mid)
  from resources_bounded [OF t(1)] t show ?thesis by auto
qed

text \<open>C12: Where a response goes: what the event thread sends it sends to the client the connection was made
  for, or to nobody; a worker does so as long as the map still has its connection.\<close>

theorem sends_reach_their_client:
  assumes "reachable th_init th_step t" and "th_kernel t (cn_fd (get_conn r (th_server t))) = Some sock"
    and "th_event t = E_write r \<or> find_conn (cn_fd (get_conn r (th_server t))) (th_server t) = Some r"
  shows "sock = th_owner t ! r"
proof -
  have "routes_ok t" using reachable_threads [OF assms(1)] by blast
  with assms(2,3) routes_okD(2,4) [of t] show ?thesis by fastforce
qed

theorem sends_reach_their_client_witness:
  "\<exists>t. reachable th_init th_step t \<and> th_kernel t (cn_fd (get_conn 1 (th_server t))) = Some (th_owner t ! 1)"
proof -
  obtain t where t: "run_trace first_half ex_threads = Some t" "th_kernel t = [7 \<mapsto> 1]" "find_conn 7 (th_server t) = Some 1"
      "sv_heap (th_server t) = [(new_connection 0 7)\<lparr>cn_buffer := bad_request, cn_processing_request := True\<rparr>, new_connection 0 7]"
    using first_half_run by blast
  have "reachable th_init th_step t" by (rule run_reachable [OF ex_threads_reachable t(1)])
  moreover have "cn_fd (get_conn 1 (th_server t)) = 7" using t(4) by (simp add: get_conn_def new_connection_def)
  ultimately show ?thesis using sends_reach_their_client [of t 1 1] t(2,3) by auto
qed

end
