(* ===== verification/Server_Types.thy ===== *)
theory Server_Types
  imports Server_Safety
begin

text \<open>
  Well-typed states of the interleaved server of \<open>Server_Threads\<close>: what the code relies on when it
  follows a pointer, subtracts two sizes, or compares a descriptor with that of the listening
  socket.  Also the parts of the server's state that no step of a thread changes.
\<close>

section \<open>What no thread changes\<close>

definition settings :: "server \<Rightarrow> int \<times> bool \<times> bool \<times> nat" where
  "settings s = (sv_server_fd s, sv_running s, sv_pool_shutdown s, sv_max_connections s)"

lemma settings_sections [simp]:
  "settings (upd_conn r f s) = settings s" "settings (do_call c s) = settings s" "settings (epoll_mod fd ev s) = settings s"
  "settings (erase_conn fd s) = settings s" "settings (release_fd fd s) = settings s"
  "settings (register fd s) = settings s" "settings (add_connection now fd s) = settings s"
  "settings (note_keep_alive r request s) = settings s" "settings (post_response r resp s) = settings s"
  "settings (stop_processing r s) = settings s" "settings (finish_request r now s) = settings s"
  "settings (s\<lparr>sv_queue := q\<rparr>) = settings s"
  by (simp_all add: settings_def upd_conn_def do_call_def epoll_mod_def erase_conn_def release_fd_def epoll_del_def
      register_def add_connection_def note_keep_alive_def post_response_def stop_processing_def finish_request_def)

lemma settings_send: "send_section r out s = (cl, s1) \<Longrightarrow> settings s1 = settings s"
  by (auto simp: send_section_def Let_def split: if_splits send_outcome.splits)

lemma settings_append: "append_section fd r bytes now s = (res, s1) \<Longrightarrow> settings s1 = settings s"
  by (auto simp: append_section_def Let_def split: if_splits)

lemma settings_build: "build_response env request s = Some (res, s1) \<Longrightarrow> settings s1 = settings s"
  by (auto simp: build_response_def Let_def settings_def split: if_splits option.splits prod.splits sum.splits)

lemma settings_event: "event_exec a t = Some t1 \<Longrightarrow> settings (th_server t1) = settings (th_server t)"
  by (cases a) (auto simp: drop_accepted_def Let_def dest!: enqueue_sel dest: settings_send settings_append
      split: if_splits event_pc.splits prod.splits append_result.splits sum.splits list.splits)

lemma settings_task: "task_exec i a t = Some t1 \<Longrightarrow> settings (th_server t1) = settings (th_server t)"
  by (cases a) (auto simp: Let_def dest: settings_send settings_build
      split: if_splits task_pc.splits prod.splits sum.splits list.splits option.splits)

section \<open>Responses under way\<close>

definition offset_ok :: "connection \<Rightarrow> bool" where
  \<comment> \<open>\<open>response.length() - conn->response_offset\<close> is positive while something is pending\<close>
  "offset_ok c \<longleftrightarrow> (cn_has_pending_write c \<longrightarrow> cn_response_offset c < length (cn_pending_response c))"

definition offsets_ok :: "server \<Rightarrow> bool" where
  "offsets_ok s \<longleftrightarrow> (\<forall>r < length (sv_heap s). offset_ok (get_conn r s))"

lemma offsets_okD: "offsets_ok s \<Longrightarrow> r < length (sv_heap s) \<Longrightarrow> offset_ok (get_conn r s)"
  by (simp add: offsets_ok_def)

lemma offsets_same: "sv_heap s1 = sv_heap s \<Longrightarrow> offsets_ok s1 = offsets_ok s"
  by (simp add: offsets_ok_def get_conn_def)

lemma offsets_frame [simp]:
  "offsets_ok (do_call c s) = offsets_ok s" "offsets_ok (epoll_mod fd ev s) = offsets_ok s"
  "offsets_ok (erase_conn fd s) = offsets_ok s" "offsets_ok (release_fd fd s) = offsets_ok s"
  "offsets_ok (s\<lparr>sv_queue := q\<rparr>) = offsets_ok s"
  by (rule offsets_same, simp)+

lemma offsets_upd:
  "offsets_ok s \<Longrightarrow> r < length (sv_heap s) \<Longrightarrow> offset_ok (f (get_conn r s)) \<Longrightarrow> offsets_ok (upd_conn r f s)"
  by (auto simp: offsets_ok_def get_upd_conn)

lemma upd_upd: "upd_conn r f (upd_conn r g s) = upd_conn r (\<lambda>c. f (g c)) s"
  by (cases "r < length (sv_heap s)") (simp_all add: upd_conn_def list_update_beyond)

lemma offsets_sections:
  assumes "offsets_ok s" and "r < length (sv_heap s)"
  shows "offsets_ok (note_keep_alive r request s)" "offsets_ok (stop_processing r s)" "offsets_ok (finish_request r now s)"
    "resp \<noteq> [] \<Longrightarrow> offsets_ok (post_response r resp s)"
  using assms offsets_okD [OF assms]
  by (auto simp: note_keep_alive_def stop_processing_def finish_request_def post_response_def offset_ok_def
      intro!: offsets_upd)

lemma offsets_append:
  assumes "offsets_ok s" and "r < length (sv_heap s)" and "append_section fd r bytes now s = (res, s1)"
  shows "offsets_ok s1"
  using assms offsets_okD [OF assms(1,2)]
  by (auto simp: append_section_def Let_def offset_ok_def upd_upd split: if_splits intro!: offsets_upd)

lemma offsets_send:
  assumes "offsets_ok s" and "r < length (sv_heap s)" and "send_section r out s = (cl, s1)"
  shows "offsets_ok s1"
  using assms offsets_okD [OF assms(1,2)]
  by (auto simp: send_section_def Let_def offset_ok_def upd_upd reset_pending_def abandon_pending_def
      split: if_splits send_outcome.splits intro!: offsets_upd)

fun pc_text :: "task_pc \<Rightarrow> string option" where
  "pc_text (K_check r resp) = Some resp"
| "pc_text (K_post r resp) = Some resp"
| "pc_text _ = None"

definition writes_ok :: "threads \<Rightarrow> bool" where
  \<comment> \<open>no empty response is sent, and none beyond its end\<close>
  "writes_ok t \<longleftrightarrow> offsets_ok (th_server t) \<and> (\<forall>w \<in> set (th_workers t). pc_text w \<noteq> Some [])"

lemma writes_ok_event:
  assumes w: "writes_ok t" and f: "refs_ok t" and e: "event_exec a t = Some t1"
  shows "writes_ok t1"
proof -
  have o: "offsets_ok (th_server t)" using w by (simp add: writes_ok_def)
  note ref = refs_okD(3) [OF f]
  have "offsets_ok (th_server t1)"
  proof (cases a)
    case (Ev_insert now)
    with e obtain fd where "th_server t1 = add_connection now fd (register fd (th_server t))"
      by (cases "th_event t") auto
    moreover have "offset_ok (get_conn (length (sv_heap (th_server t))) (add_connection now fd (register fd (th_server t))))"
      using get_add_connection(1) [of "register fd (th_server t)" now fd] by (simp add: new_connection_def offset_ok_def)
    ultimately show ?thesis using o by (auto simp: offsets_ok_def less_Suc_eq)
  next
    case (Ev_recv bytes now)
    with e obtain fd r where pc: "th_event t = E_recv fd r" by (cases "th_event t") auto
    obtain res s1 where ap: "append_section fd r bytes now (th_server t) = (res, s1)" by fastforce
    from offsets_append [OF o _ ap] ref pc ap Ev_recv e show ?thesis by (cases res) (auto split: if_splits)
  next
    case (Ev_write out)
    with e obtain r where pc: "th_event t = E_write r" by (cases "th_event t") auto
    obtain cl s1 where se: "send_section r out (th_server t) = (cl, s1)" by fastforce
    from offsets_send [OF o _ se] ref pc se Ev_write e show ?thesis by (auto split: if_splits)
  next
    case Ev_enqueue
    with e o show ?thesis by (cases "th_event t") (auto dest!: enqueue_sel split: sum.splits)
  qed (use e o in \<open>auto simp: drop_accepted_def
      split: if_splits event_pc.splits list.splits\<close>)
  moreover have "th_workers t1 = th_workers t" using event_refs [OF e] by blast
  ultimately show ?thesis using w by (simp add: writes_ok_def)
qed

lemma writes_ok_frame [simp]:
  "writes_ok (kernel_close fd t) = writes_ok t"
  "writes_ok (at_worker i pc s (record_sent r out t)) = writes_ok (at_worker i pc s t)"
  by (simp_all add: writes_ok_def)

lemma writes_ok_at:
  "writes_ok t \<Longrightarrow> offsets_ok s \<Longrightarrow> pc_text pc \<noteq> Some [] \<Longrightarrow> writes_ok (at_worker i pc s t)"
  using set_update_subset_insert [of "th_workers t" i pc] by (auto simp: writes_ok_def)

lemma writes_ok_task:
  assumes w: "writes_ok t" and f: "refs_ok t" and i: "i < length (th_workers t)" and e: "task_exec i a t = Some t1"
  shows "writes_ok t1"
proof -
  have o: "offsets_ok (th_server t)" and p: "pc_text (th_workers t ! i) \<noteq> Some []"
    using w i by (simp_all add: writes_ok_def)
  have ref: "task_ref (th_workers t ! i) = Some r \<Longrightarrow> r < length (sv_heap (th_server t))" for r
    using refs_okD(4) [OF f nth_mem [OF i]] by simp
  note at = writes_ok_at [OF w]
  show ?thesis
  proof (cases a)
    case Tk_go
    with e ref o p show ?thesis
      by (cases "th_workers t ! i")
        (auto simp: Let_def offsets_sections split: list.splits if_splits intro!: at)
  next
    case (Tk_build env)
    with e obtain r request response s1 where b: "build_response env request (th_server t) = Some (Inr response, s1)"
      and t1: "t1 = at_worker i (K_text r response) s1 t"
      by (auto split: task_pc.splits option.splits sum.splits prod.splits)
    from offsets_same [OF build_response_sel(4) [OF b]] o show ?thesis
      by (auto simp: t1 intro!: at)
  next
    case (Tk_text env)
    with e o show ?thesis
      by (auto simp: response_text_nonempty split: task_pc.splits intro!: at)
  next
    case (Tk_send out)
    with e obtain r where pc: "th_workers t ! i = K_send r" by (cases "th_workers t ! i") auto
    obtain cl s1 where se: "send_section r out (th_server t) = (cl, s1)" by fastforce
    from offsets_send [OF o _ se] ref pc se Tk_send e show ?thesis
      by (auto split: if_splits intro!: at)
  next
    case (Tk_finish now)
    with e ref o show ?thesis
      by (cases "th_workers t ! i") (auto simp: offsets_sections intro!: at)
  qed
qed

section \<open>The listening socket\<close>

definition listening_apart :: "threads \<Rightarrow> bool" where
  "listening_apart t \<longleftrightarrow> th_kernel t (sv_server_fd (th_server t)) = None"

lemma listening_apart_event:
  assumes "listening_apart t" and "event_exec a t = Some t1"
  shows "listening_apart t1"
proof (cases "\<exists>fd. a = Ev_accept fd")
  case True
  with assms show ?thesis by (auto simp: listening_apart_def split: if_splits)
next
  case False
  with event_kernel [OF assms(2), of "sv_server_fd (th_server t)"] settings_event [OF assms(2)] assms(1) show ?thesis
    by (simp add: listening_apart_def settings_def)
qed

lemma listening_apart_task: "listening_apart t \<Longrightarrow> task_exec i a t = Some t1 \<Longrightarrow> listening_apart t1"
  using task_kernel [of i a t t1 "sv_server_fd (th_server t)"] settings_task [of i a t t1]
  by (simp add: listening_apart_def settings_def)

section \<open>All interleavings\<close>

definition typed_inv :: "threads \<Rightarrow> bool" where
  "typed_inv t \<longleftrightarrow> threads_inv t \<and> writes_ok t \<and> listening_apart t"

interpretation typed: inductive_invariant th_init th_step typed_inv
proof (unfold_locales, goal_cases)
  case (1 t)
  then have "threads_inv t" by (rule threads_inv_init)
  with 1 show ?case
    by (auto simp: th_init_def typed_inv_def writes_ok_def offsets_ok_def listening_apart_def new_threads_def new_server_def)
next
  case (2 t t1)
  then have inv: "threads_inv t" "threads_inv t1" using threads_inv_step by (auto simp: typed_inv_def)
  then have f: "refs_ok t" by (simp add: threads_inv_def)
  from 2(2) show ?case
  proof (cases rule: th_step.cases)
    case (event a)
    with 2(1) inv f show ?thesis
      using writes_ok_event [OF _ f event(1)] listening_apart_event [OF _ event(1)] by (auto simp: typed_inv_def)
  next
    case (task i a)
    with 2(1) inv f show ?thesis
      using writes_ok_task [OF _ f task] listening_apart_task [OF _ task(2)] by (auto simp: typed_inv_def)
  qed
qed

lemma settings_reachable:
  assumes "reachable th_init th_step t"
  shows "sv_running (th_server t) \<and> \<not> sv_pool_shutdown (th_server t)"
  using assms
proof (induction rule: reachable.induct)
  case (start t)
  then obtain so config_file thread_count hardware port host where
    "fst (start_server so (new_server config_file thread_count hardware port host))"
    "t = new_threads so config_file thread_count hardware port host" by (auto simp: th_init_def)
  with started show ?case by (simp add: new_threads_def new_server_def)
next
  case (next_state t t1)
  from next_state(2) have "settings (th_server t1) = settings (th_server t)"
    by (cases rule: th_step.cases) (auto dest: settings_event settings_task)
  with next_state(3) show ?case by (simp add: settings_def)
qed

section \<open>Properties\<close>

definition well_typed :: "threads \<Rightarrow> bool" where
  \<comment> \<open>pointers: what the map, the queue, the event thread and the workers hold are objects, and the
      map holds each object under its own descriptor, once; sizes: while a response is pending,
      something of it is left; descriptors: no client has that of the listening socket\<close>
  "well_typed t \<longleftrightarrow>
     (let s = th_server t; objects = {..<length (sv_heap s)}
      in distinct (map fst (sv_connections s)) \<and>
         (\<forall>(fd, r) \<in> set (sv_connections s). r \<in> objects \<and> cn_fd (get_conn r s) = fd \<and> fd \<noteq> sv_server_fd s) \<and>
         set (sv_queue s) \<subseteq> objects \<and> set_option (event_ref (th_event t)) \<subseteq> objects \<and>
         (\<forall>w \<in> set (th_workers t). set_option (task_ref w) \<subseteq> objects) \<and>
         (\<forall>r \<in> objects. cn_has_pending_write (get_conn r s) \<longrightarrow>
            cn_response_offset (get_conn r s) < length (cn_pending_response (get_conn r s))))"

lemma distinct_count_list: "(\<And>x. count_list xs x \<le> 1) \<Longrightarrow> distinct xs"
proof (induction xs)
  case (Cons a xs)
  have "count_list xs a = 0" using Cons.prems [of a] by simp
  moreover have "count_list xs x \<le> 1" for x using Cons.prems [of x] by (simp split: if_splits)
  ultimately show ?case using Cons.IH by (simp add: count_list_0_iff)
qed simp

lemma held_distinct:
  assumes "fds_held t"
  shows "distinct (map fst (sv_connections (th_server t)))"
proof -
  have "count_list (map fst (sv_connections (th_server t))) fd \<le> 1" for fd
    using spec [OF assms [unfolded fds_held_def], of fd]
    by (cases "th_kernel t fd = None") (simp_all add: fd_holders_def)
  then show ?thesis by (rule distinct_count_list)
qed

text \<open>C13: Type safety: in every interleaving the server is well typed.  Every shared pointer in the map, in
  the queue and in the hands of a thread points to a connection object; the map has each object
  under its own descriptor, which is never that of the listening socket, so that the event loop
  tells the two apart; and the subtraction of the offset from the length of a pending response,
  on unsigned numbers, never wraps nor gives 0.\<close>

theorem reachable_well_typed:
  assumes "reachable th_init th_step t"
  shows "well_typed t"
proof -
  have i: "fds_held t" "refs_ok t" "routes_ok t" "offsets_ok (th_server t)" "listening_apart t"
    using typed.reachable_inv [OF assms] by (simp_all add: typed_inv_def threads_inv_def writes_ok_def)
  note d = held_distinct [OF i(1)]
  have m: "find_conn fd (th_server t) = Some r" if "(fd, r) \<in> set (sv_connections (th_server t))" for fd r
    using d that by (simp add: find_conn_def)
  have "fd \<noteq> sv_server_fd (th_server t)" if "(fd, r) \<in> set (sv_connections (th_server t))" for fd r
    using routes_okD(2) [OF i(3) m [OF that]] i(5) by (auto simp: listening_apart_def)
  then show ?thesis
    using d refs_okD [OF i(2)] routes_okD(1) [OF i(3)] i(4) m
    by (fastforce simp: well_typed_def Let_def offsets_ok_def offset_ok_def)
qed

theorem reachable_well_typed_witness:
  "\<exists>t. reachable th_init th_step t \<and> sv_connections (th_server t) \<noteq> [] \<and> well_typed t"
proof -
  obtain t where t: "reachable th_init th_step t" "find_conn 7 (th_server t) = Some 1" by (rule ex_mid)
  then have "sv_connections (th_server t) \<noteq> []" by (auto simp: find_conn_def)
  with t reachable_well_typed show ?thesis by blast
qed

end
