(* ===== verification/Server_Runs.thy ===== *)
theory Server_Runs
  imports Server_Types
begin

text \<open>
  The two readings of \<open>src/server.cpp\<close> agree: a handler of \<open>Server\<close>, run to its end, is a run of
  \<open>Server_Threads\<close> in which no other thread moves.  So what \<open>Server\<close> says of a whole handler and
  what \<open>Server_Safety\<close> says of all interleavings are about the same code.
\<close>

section \<open>Runs of one thread\<close>

lemma run_trace_append:
  "run_trace (xs @ ys) t = (case run_trace xs t of None \<Rightarrow> None | Some t1 \<Rightarrow> run_trace ys t1)"
  by (induction xs t rule: run_trace.induct) (auto split: option.splits)

definition event_runs_to :: "threads \<Rightarrow> server \<Rightarrow> bool" where
  \<comment> \<open>the event thread alone gets from one idle point to the next, leaving this server\<close>
  "event_runs_to t s \<longleftrightarrow> (\<exists>acts t1. run_trace (map Inl acts) t = Some t1 \<and> event_idle t1 \<and> th_server t1 = s \<and>
     th_workers t1 = th_workers t)"

definition task_runs_to :: "nat \<Rightarrow> threads \<Rightarrow> server \<Rightarrow> bool" where
  \<comment> \<open>the worker alone ends its task\<close>
  "task_runs_to i t s \<longleftrightarrow> (\<exists>acts t1. run_trace (map (\<lambda>a. Inr (i, a)) acts) t = Some t1 \<and> th_server t1 = s \<and>
     th_workers t1 = (th_workers t)[i := K_idle] \<and> th_event t1 = th_event t)"

lemma event_runs_refl: "event_idle t \<Longrightarrow> event_runs_to t (th_server t)"
  unfolding event_runs_to_def by (intro exI [of _ "[]"] exI [of _ t]) simp

lemma event_runs_step:
  "event_exec a t = Some t1 \<Longrightarrow> th_workers t1 = th_workers t \<Longrightarrow> event_runs_to t1 s \<Longrightarrow> event_runs_to t s"
  unfolding event_runs_to_def by clarsimp (metis (no_types, lifting) list.simps(9) option.simps(5) run_trace.simps(2))

lemma task_runs_step:
  assumes "i < length (th_workers t)" and "task_exec i a t = Some t1" and "th_workers t1 = (th_workers t)[i := w]"
    and "th_event t1 = th_event t" and "task_runs_to i t1 s"
  shows "task_runs_to i t s"
proof -
  obtain acts t2 where t2: "run_trace (map (\<lambda>a. Inr (i, a)) acts) t1 = Some t2" "th_server t2 = s"
    "th_workers t2 = (th_workers t1)[i := K_idle]" "th_event t2 = th_event t1"
    using assms(5) by (auto simp: task_runs_to_def)
  have "run_trace (map (\<lambda>a. Inr (i, a)) (a # acts)) t = Some t2" using t2(1) assms(1,2) by simp
  with t2 assms(3,4) show ?thesis unfolding task_runs_to_def by (metis list_update_overwrite)
qed

lemma event_runs_trans:
  assumes "run_trace (map Inl acts) t = Some t1" and "th_workers t1 = th_workers t" and "event_runs_to t1 s"
  shows "event_runs_to t s"
proof -
  obtain acts2 t2 where "run_trace (map Inl acts2) t1 = Some t2" "event_idle t2" "th_server t2 = s"
    "th_workers t2 = th_workers t1" using assms(3) by (auto simp: event_runs_to_def)
  with assms(1,2) have "run_trace (map Inl (acts @ acts2)) t = Some t2" by (simp add: run_trace_append)
  with \<open>event_idle t2\<close> \<open>th_server t2 = s\<close> \<open>th_workers t2 = th_workers t1\<close> assms(2) show ?thesis
    unfolding event_runs_to_def by metis
qed

section \<open>The event thread\<close>

lemma close_runs:
  assumes "th_event t = E_close fd"
  shows "\<exists>acts t1. run_trace (map Inl acts) t = Some t1 \<and> th_event t1 = E_idle \<and> th_todo t1 = th_todo t \<and>
    th_server t1 = close_connection fd (th_server t) \<and> th_workers t1 = th_workers t"
proof (cases "find_conn fd (th_server t) = None")
  case True
  then show ?thesis
    using assms by (intro exI [of _ "[Ev_close]"] exI [of _ "at_event E_idle (th_server t) t"]) (simp add: close_connection_def)
next
  case False
  let ?s = "erase_conn fd (th_server t)"
  let ?t1 = "kernel_close fd (at_event E_idle (release_fd fd ?s) (at_event (E_release fd) ?s t))"
  from False assms show ?thesis
    by (intro exI [of _ "[Ev_close, Ev_release]"] exI [of _ ?t1]) (simp add: close_connection_def)
qed

lemma close_runs_to:
  "th_event t = E_close fd \<Longrightarrow> th_todo t = [] \<Longrightarrow> event_runs_to t (close_connection fd (th_server t))"
  using close_runs [of t fd] unfolding event_runs_to_def event_idle_def by metis

lemma write_runs_to:
  assumes "event_idle t" and "find_conn fd (th_server t) = Some r" and "send_possible r out t"
  shows "event_runs_to t (handle_client_write fd out (th_server t))"
proof -
  obtain cl s1 where se: "send_section r out (th_server t) = (cl, s1)" by fastforce
  let ?t1 = "at_event (E_write r) (th_server t) t"
  let ?t2 = "at_event (if cl then E_close (cn_fd (get_conn r s1)) else E_idle) s1 (record_sent r out ?t1)"
  have todo: "th_todo t = []" using assms(1) by (simp add: event_idle_def)
  have sp: "send_possible r out ?t1" using assms(3) by (simp add: send_possible_def split: send_outcome.splits)
  have "event_runs_to ?t2 (handle_client_write fd out (th_server t))"
    using close_runs_to [of ?t2] event_runs_refl [of ?t2] todo se assms(2)
    by (auto simp: handle_client_write_def send_response_async_def event_idle_def)
  then have "event_runs_to ?t1 (handle_client_write fd out (th_server t))"
    by (rule event_runs_step [of "Ev_write out", rotated 2]) (use se sp in simp_all)
  then show ?thesis
    by (rule event_runs_step [of "Ev_writable fd", rotated 2]) (use assms in simp_all)
qed

definition bytes_possible :: "recv_outcome \<Rightarrow> bool" where
  "bytes_possible received = (case received of Received bytes \<Rightarrow> length bytes < BUFFER_SIZE | _ \<Rightarrow> True)"

lemma data_runs_to:
  assumes idle: "event_idle t" and kernel: "find_conn fd (th_server t) \<noteq> None \<Longrightarrow> th_kernel t fd \<noteq> None"
    and bytes: "bytes_possible received"
    and h: "handle_client_data fd received now (th_server t) = Inr s1"
  shows "event_runs_to t s1"
proof (cases "find_conn fd (th_server t)")
  case None
  with h event_runs_refl [OF idle] show ?thesis by (simp add: handle_client_data_def)
next
  case (Some r)
  let ?t1 = "at_event (E_recv fd r) (th_server t) t"
  have todo: "th_todo t = []" using idle by (simp add: event_idle_def)
  have close: "event_runs_to ?t1 (close_connection fd (th_server t))"
    using close_runs_to [of "at_event (E_close fd) (th_server t) ?t1"] todo
    by (intro event_runs_step [of Ev_recv_failed ?t1]) simp_all
  have "event_runs_to ?t1 s1"
  proof (cases "\<exists>b bs. received = Received (b # bs)")
    case False
    with h Some close show ?thesis
      by (cases received) (auto simp: handle_client_data_def neq_Nil_conv split: if_splits)
  next
    case True
    then obtain bs where rec: "received = Received bs" "bs \<noteq> []" by blast
    obtain res s2 where ap: "append_section fd r bs now (th_server t) = (res, s2)" by fastforce
    have k: "th_kernel t fd \<noteq> None" "length bs < BUFFER_SIZE" using kernel Some bytes rec by (auto simp: bytes_possible_def)
    have ev: "event_exec (Ev_recv bs now) ?t1 =
        Some (case res of Conn_gone \<Rightarrow> at_event E_idle s2 ?t1 | Too_large \<Rightarrow> kernel_close fd (at_event E_idle s2 ?t1)
          | Appended p \<Rightarrow> at_event (if p then E_enqueue r else E_idle) s2 (record_received r bs ?t1))"
      using ap k rec by (cases res) simp_all
    show ?thesis
    proof (rule event_runs_step [OF ev])
      show "th_workers (case res of Conn_gone \<Rightarrow> at_event E_idle s2 ?t1
          | Too_large \<Rightarrow> kernel_close fd (at_event E_idle s2 ?t1)
          | Appended p \<Rightarrow> at_event (if p then E_enqueue r else E_idle) s2 (record_received r bs ?t1)) = th_workers ?t1"
        by (cases res) simp_all
      have idle2: "event_idle (at_event E_idle s2 ?t1)" "event_idle (at_event E_idle s2 (record_received r bs ?t1))"
        using todo by (simp_all add: event_idle_def)
      show "event_runs_to (case res of Conn_gone \<Rightarrow> at_event E_idle s2 ?t1
          | Too_large \<Rightarrow> kernel_close fd (at_event E_idle s2 ?t1)
          | Appended p \<Rightarrow> at_event (if p then E_enqueue r else E_idle) s2 (record_received r bs ?t1)) s1"
      proof (cases "res = Appended True")
        case True
        then have en: "enqueue_request r s2 = Inr s1" using h Some rec ap by (simp add: handle_client_data_def)
        let ?t3 = "at_event (E_enqueue r) s2 (record_received r bs ?t1)"
        have "event_runs_to ?t3 s1"
          using event_runs_refl [of "at_event E_idle s1 ?t3"] todo
          by (intro event_runs_step [of Ev_enqueue ?t3]) (simp_all add: en event_idle_def)
        with True show ?thesis by simp
      next
        case False
        then have "s1 = s2" using h Some rec ap by (cases res) (auto simp: handle_client_data_def split: bool.splits)
        moreover have "event_idle (kernel_close fd (at_event E_idle s2 ?t1))" using idle2 by (simp add: event_idle_def)
        ultimately show ?thesis
          using False event_runs_refl [OF idle2(1)] event_runs_refl [OF idle2(2)] event_runs_refl [of "kernel_close fd (at_event E_idle s2 ?t1)"]
          by (cases res) auto
      qed
    qed
  qed
  then show ?thesis by (rule event_runs_step [of "Ev_readable fd", rotated 2]) (use idle Some in simp_all)
qed

lemma cleanup_runs:
  "th_event t = E_idle \<Longrightarrow> th_todo t = fds \<Longrightarrow>
   event_runs_to t (foldl (\<lambda>s fd. close_connection fd s) (th_server t) fds)"
proof (induction fds arbitrary: t)
  case Nil
  then show ?case using event_runs_refl [of t] by (simp add: event_idle_def)
next
  case (Cons fd fds)
  let ?t1 = "t\<lparr>th_todo := fds, th_event := E_close fd\<rparr>"
  have "th_event ?t1 = E_close fd" by simp
  from close_runs [OF this] obtain acts t2 where t2: "run_trace (map Inl acts) ?t1 = Some t2" "th_event t2 = E_idle"
    "th_todo t2 = fds" "th_server t2 = close_connection fd (th_server t)" "th_workers t2 = th_workers ?t1" by auto
  from Cons.IH [OF t2(2,3)] t2(4)
  have "event_runs_to t2 (foldl (\<lambda>s fd. close_connection fd s) (th_server t) (fd # fds))" by simp
  with t2(1,5) have "event_runs_to ?t1 (foldl (\<lambda>s fd. close_connection fd s) (th_server t) (fd # fds))"
    by (rule event_runs_trans)
  then show ?case by (rule event_runs_step [of Ev_next_idle, rotated 2]) (use Cons.prems in simp_all)
qed

lemma cleanup_runs_to: "event_idle t \<Longrightarrow> event_runs_to t (cleanup_inactive_connections now (th_server t))"
  using cleanup_runs [of "t\<lparr>th_todo := inactive_fds now (th_server t)\<rparr>"]
  by (intro event_runs_step [of "Ev_collect now" t])
    (simp_all add: cleanup_inactive_connections_def event_idle_def)

definition busy_fds :: "threads \<Rightarrow> int set" where
  \<comment> \<open>the listening socket, and what a worker is about to close\<close>
  "busy_fds t = insert (sv_server_fd (th_server t)) {fd. \<exists>w \<in> set (th_workers t). task_holds w fd}"

fun fresh_accepts :: "int set \<Rightarrow> accept_outcome list \<Rightarrow> server \<Rightarrow> bool" where
  \<comment> \<open>\<open>accept\<close> returns descriptors that are not open\<close>
  "fresh_accepts busy [] s = True"
| "fresh_accepts busy (Accept_failed e # outcomes) s = (e = EAGAIN \<or> fresh_accepts busy outcomes s)"
| "fresh_accepts busy (Accepted fd getfl setfl ctl now # outcomes) s =
     (fd \<notin> busy \<and> find_conn fd s = None \<and> fresh_accepts busy outcomes (accept_one fd getfl setfl ctl now s))"

lemma fresh_closed:
  assumes "fds_held t" and "event_idle t" and "fd \<notin> busy_fds t" and "find_conn fd (th_server t) = None"
  shows "th_kernel t fd = None"
proof -
  have "filter (\<lambda>w. task_holds w fd) (th_workers t) = []" using assms(3) by (auto simp: busy_fds_def filter_empty_conv)
  moreover have "count_list (map fst (sv_connections (th_server t))) fd = 0"
    using assms(4) find_conn_count [of fd "th_server t"] by simp
  ultimately have "fd_holders fd t = 0" using assms(2) by (simp add: fd_holders_def event_idle_def)
  with assms(1) show ?thesis by (simp add: fds_held_def)
qed

lemma accept_one_runs_to:
  assumes idle: "event_idle t" and "th_kernel t fd = None" and "fd \<noteq> sv_server_fd (th_server t)"
  shows "event_runs_to t (accept_one fd getfl setfl ctl now (th_server t))"
proof -
  let ?s = "th_server t"
  let ?t1 = "t\<lparr>th_kernel := (th_kernel t)(fd \<mapsto> th_next t), th_next := Suc (th_next t), th_event := E_accepted fd\<rparr>"
  let ?t2 = "at_event (E_admitted fd) ?s ?t1"
  have todo: "th_todo t = []" using idle by (simp add: event_idle_def)
  have drop: "event_runs_to (drop_accepted fd t') (do_call (Sys_close fd) s')"
    if "th_todo t' = []" "th_server t' = s'" for t' s'
    using event_runs_refl [of "drop_accepted fd t'"] that by (simp add: drop_accepted_def event_idle_def)
  have "event_runs_to ?t1 (accept_one fd getfl setfl ctl now ?s)"
  proof (cases "sv_max_connections ?s \<le> length (sv_connections ?s)")
    case True
    with drop [of ?t1] todo show ?thesis
      by (intro event_runs_step [of Ev_limit ?t1]) (simp_all add: accept_one_def drop_accepted_def)
  next
    case False
    have "event_runs_to ?t2 (accept_one fd getfl setfl ctl now ?s)"
    proof (cases "set_non_blocking getfl setfl")
      case blocking: False
      with False drop [of ?t2] todo show ?thesis
        by (intro event_runs_step [of Ev_setup_failed ?t2]) (simp_all add: accept_one_def drop_accepted_def)
    next
      case ok: True
      show ?thesis
      proof (cases ctl)
        case None
        let ?t3 = "(at_event E_idle (add_connection now fd (register fd ?s)) ?t2)\<lparr>th_owner := th_owner t @ [th_next t]\<rparr>"
        have "event_runs_to ?t3 (add_connection now fd (register fd ?s))"
          using event_runs_refl [of ?t3] todo by (simp add: event_idle_def)
        with False ok None show ?thesis
          by (intro event_runs_step [of "Ev_insert now" ?t2]) (simp_all add: accept_one_def register_def add_fd_def)
      next
        case (Some e)
        let ?t3 = "?t2\<lparr>th_server := do_call (Sys_epoll_add fd mask_read) ?s\<rparr>"
        from False ok Some drop [of ?t3] todo show ?thesis
          by (intro event_runs_step [of Ev_add_failed ?t2]) (simp_all add: accept_one_def drop_accepted_def add_fd_def)
      qed
    qed
    with False show ?thesis by (intro event_runs_step [of Ev_limit ?t1]) simp_all
  qed
  then show ?thesis by (rule event_runs_step [of "Ev_accept fd", rotated 2]) (use assms in simp_all)
qed

lemma event_runs_reach:
  assumes "reachable th_init th_step t" and "event_runs_to t s"
  obtains t1 where "reachable th_init th_step t1" and "event_idle t1" and "th_server t1 = s" and "busy_fds t1 = busy_fds t"
    and "\<And>s'. event_runs_to t1 s' \<Longrightarrow> event_runs_to t s'"
proof -
  obtain acts t1 where t1: "run_trace (map Inl acts) t = Some t1" "event_idle t1" "th_server t1 = s"
    "th_workers t1 = th_workers t" using assms(2) by (auto simp: event_runs_to_def)
  have "settings (th_server t1) = settings (th_server t)" using t1(1)
  proof (induction acts arbitrary: t)
    case (Cons a acts)
    then show ?case by (auto split: option.splits dest: settings_event)
  qed simp
  then have "busy_fds t1 = busy_fds t" using t1(4) by (simp add: busy_fds_def settings_def)
  with that [OF run_reachable [OF assms(1) t1(1)] t1(2,3)] event_runs_trans [OF t1(1,4)] show ?thesis by blast
qed

lemma accept_runs_to:
  "reachable th_init th_step t \<Longrightarrow> event_idle t \<Longrightarrow> fresh_accepts (busy_fds t) outcomes (th_server t) \<Longrightarrow>
   handle_accept outcomes (th_server t) = Some s1 \<Longrightarrow> event_runs_to t s1"
proof (induction outcomes arbitrary: t)
  case (Cons out outcomes)
  show ?case
  proof (cases out)
    case (Accept_failed e)
    with Cons show ?thesis by (auto intro: event_runs_refl split: if_splits)
  next
    case (Accepted fd getfl setfl ctl now)
    have "fds_held t" using reachable_threads [OF Cons.prems(1)] by blast
    from fresh_closed [OF this Cons.prems(2)] Cons.prems(3) Accepted
    have "th_kernel t fd = None" "fd \<noteq> sv_server_fd (th_server t)" by (auto simp: busy_fds_def)
    from accept_one_runs_to [OF Cons.prems(2) this]
    have run: "event_runs_to t (accept_one fd getfl setfl ctl now (th_server t))" .
    obtain t1 where t1: "reachable th_init th_step t1" "event_idle t1"
      "th_server t1 = accept_one fd getfl setfl ctl now (th_server t)" "busy_fds t1 = busy_fds t"
      "\<And>s'. event_runs_to t1 s' \<Longrightarrow> event_runs_to t s'"
      using event_runs_reach [OF Cons.prems(1) run] by blast
    show ?thesis by (rule t1(5), rule Cons.IH [OF t1(1,2)]) (use Cons.prems Accepted t1(3,4) in simp_all)
  qed
qed simp

definition send_fits :: "send_outcome \<Rightarrow> nat \<Rightarrow> server \<Rightarrow> bool" where
  \<comment> \<open>\<open>send\<close> takes at most what it is given\<close>
  "send_fits out r s = (case out of
     Sent n \<Rightarrow> n \<le> length (cn_pending_response (get_conn r s)) - cn_response_offset (get_conn r s) | _ \<Rightarrow> True)"

lemma send_fits_possible:
  "send_fits out r (th_server t) \<Longrightarrow> th_kernel t (cn_fd (get_conn r (th_server t))) \<noteq> None \<Longrightarrow> send_possible r out t"
  by (auto simp: send_fits_def send_possible_def split: send_outcome.splits)

definition event_possible :: "int set \<Rightarrow> event_outcomes \<Rightarrow> epoll_report \<Rightarrow> server \<Rightarrow> bool" where
  \<comment> \<open>what the kernel can return during one event\<close>
  "event_possible busy eo event s \<longleftrightarrow>
     (if ev_fd event = sv_server_fd s then fresh_accepts busy (eo_accepts eo) s
      else bytes_possible (eo_received eo) \<and>
        (case (if mask_has (ev_events event) mask_read
               then handle_client_data (ev_fd event) (eo_received eo) (eo_now eo) s else Inr s) of
           Inl _ \<Rightarrow> True
         | Inr s1 \<Rightarrow> (case find_conn (ev_fd event) s1 of None \<Rightarrow> True | Some r \<Rightarrow> send_fits (eo_sent eo) r s1)))"

lemma event_runs:
  assumes r: "reachable th_init th_step t" and idle: "event_idle t"
    and p: "event_possible (busy_fds t) eo event (th_server t)"
    and h: "handle_event eo event (th_server t) = Some (Inr s1)"
  shows "event_runs_to t s1"
proof (cases "ev_fd event = sv_server_fd (th_server t)")
  case True
  with p h accept_runs_to [OF r idle] event_runs_refl [OF idle] show ?thesis
    by (auto simp: event_possible_def handle_event_def split: if_splits)
next
  case False
  let ?fd = "ev_fd event"
  obtain s2 where s2: "(if mask_has (ev_events event) mask_read
      then handle_client_data ?fd (eo_received eo) (eo_now eo) (th_server t) else Inr (th_server t)) = Inr s2"
    and s1: "s1 = (if mask_has (ev_events event) EPOLLOUT then handle_client_write ?fd (eo_sent eo) s2 else s2)"
    using h False by (auto simp: handle_event_def split: sum.splits)
  have fits: "bytes_possible (eo_received eo)" "find_conn ?fd s2 = Some x \<Longrightarrow> send_fits (eo_sent eo) x s2" for x
    using p False s2 by (auto simp: event_possible_def)
  have "fds_held t" using reachable_threads [OF r] by blast
  then have "event_runs_to t s2"
    using data_runs_to [OF idle _ fits(1)] held_open(2) event_runs_refl [OF idle] s2 by (auto split: if_splits)
  then obtain t1 where t1: "reachable th_init th_step t1" "event_idle t1" "th_server t1 = s2"
      "\<And>s'. event_runs_to t1 s' \<Longrightarrow> event_runs_to t s'"
    using event_runs_reach [OF r] by blast
  have held: "fds_held t1" "routes_ok t1" using reachable_threads [OF t1(1)] by blast+
  show ?thesis
  proof (cases "mask_has (ev_events event) EPOLLOUT \<and> find_conn ?fd s2 \<noteq> None")
    case True
    then obtain x where x: "find_conn ?fd s2 = Some x" by blast
    then have "th_kernel t1 (cn_fd (get_conn x (th_server t1))) \<noteq> None"
      using routes_okD(1,2) [OF held(2)] t1(3) by simp
    with send_fits_possible [of "eo_sent eo" x t1] fits(2) [OF x] t1(3) x
    have "event_runs_to t1 (handle_client_write ?fd (eo_sent eo) (th_server t1))" by (intro write_runs_to [OF t1(2)]) simp_all
    with t1(3,4) s1 True show ?thesis by simp
  next
    case False
    then have "s1 = s2" using s1 by (auto simp: handle_client_write_def)
    with t1 event_runs_refl show ?thesis by blast
  qed
qed

fun events_possible :: "int set \<Rightarrow> (event_outcomes \<times> epoll_report) list \<Rightarrow> server \<Rightarrow> bool" where
  "events_possible busy [] s = True"
| "events_possible busy ((eo, event) # events) s =
     (event_possible busy eo event s \<and>
      (case handle_event eo event s of Some (Inr s1) \<Rightarrow> events_possible busy events s1 | _ \<Rightarrow> True))"

lemma events_run:
  "reachable th_init th_step t \<Longrightarrow> event_idle t \<Longrightarrow> events_possible (busy_fds t) events (th_server t) \<Longrightarrow>
   handle_events events (th_server t) = Some (Inr s1) \<Longrightarrow> event_runs_to t s1"
proof (induction events arbitrary: t)
  case Nil
  then show ?case by (auto intro: event_runs_refl)
next
  case (Cons ee events)
  obtain eo event where ee: "ee = (eo, event)" by fastforce
  obtain s2 where s2: "handle_event eo event (th_server t) = Some (Inr s2)" "handle_events events s2 = Some (Inr s1)"
    using Cons.prems(4) ee by (auto split: option.splits sum.splits)
  have "event_runs_to t s2" using event_runs [OF Cons.prems(1,2) _ s2(1)] Cons.prems(3) ee by simp
  then obtain t1 where t1: "reachable th_init th_step t1" "event_idle t1" "th_server t1 = s2"
      "busy_fds t1 = busy_fds t" "\<And>s'. event_runs_to t1 s' \<Longrightarrow> event_runs_to t s'"
    using event_runs_reach [OF Cons.prems(1)] by blast
  show ?case by (rule t1(5), rule Cons.IH [OF t1(1,2)]) (use Cons.prems(3) ee s2 t1(3,4) in simp_all)
qed

definition round_possible ::
    "int set \<Rightarrow> errno + (event_outcomes \<times> int \<times> u32) list \<Rightarrow> server \<Rightarrow> bool" where
  "round_possible busy waited s =
     (case waited of
        Inl _ \<Rightarrow> True
      | Inr events \<Rightarrow>
          events_possible busy
            (zip (map fst events) (snd (wait_for_events (Inr (map snd events)) [] (sv_epoll s)))) s)"

lemma round_runs:
  assumes "reachable th_init th_step t" and "event_idle t" and "round_possible (busy_fds t) waited (th_server t)"
    and "event_round waited now (th_server t) = Some (Inr s1)"
  shows "event_runs_to t s1"
proof (cases waited)
  case (Inl e)
  with assms(2,4) show ?thesis by (auto simp: event_round_def wait_for_events_def intro: event_runs_refl)
next
  case (Inr events)
  let ?reports = "snd (wait_for_events (Inr (map snd events)) [] (sv_epoll (th_server t)))"
  obtain s2 where s2: "handle_events (zip (map fst events) ?reports) (th_server t) = Some (Inr s2)"
    and s1: "s1 = cleanup_inactive_connections now s2"
    using assms(4) Inr by (auto simp: event_round_def wait_for_events_def split: option.splits sum.splits)
  have "event_runs_to t s2" using events_run [OF assms(1,2) _ s2] assms(3) Inr by (simp add: round_possible_def)
  then obtain t1 where t1: "event_idle t1" "th_server t1 = s2" "\<And>s'. event_runs_to t1 s' \<Longrightarrow> event_runs_to t s'"
    using event_runs_reach [OF assms(1)] by blast
  show ?thesis using t1(3) cleanup_runs_to [OF t1(1), of now] t1(2) s1 by simp
qed

section \<open>A worker\<close>

definition request_possible :: "request_env \<Rightarrow> send_outcome \<Rightarrow> nat \<Rightarrow> server \<Rightarrow> bool" where
  \<comment> \<open>what \<open>send\<close> can return for the response\<close>
  "request_possible env out r s =
     (let request = parse_request (cn_buffer (get_conn r s))
      in case build_response env request (note_keep_alive r request s) of
           Some (Inr response, s2) \<Rightarrow>
             send_fits out r (post_response r (response_to_string (re_order env)
               (set_keep_alive (cn_keep_alive (get_conn r s2)) response)) s2)
         | _ \<Rightarrow> True)"

lemma task_send_runs:
  assumes i: "i < length (th_workers t)" and pc: "th_workers t ! i = K_send r" and "send_possible r out t"
  shows "task_runs_to i t (finish_request r now (send_response_async r out (th_server t)))"
proof -
  obtain cl s1 where se: "send_section r out (th_server t) = (cl, s1)" by fastforce
  let ?fd = "cn_fd (get_conn r s1)" and ?t0 = "record_sent r out t"
  have finish: "task_runs_to i t' (finish_request r now (th_server t'))"
    if "th_workers t' = (th_workers t)[i := K_finish r]" for t'
    unfolding task_runs_to_def
    by (intro exI [of _ "[Tk_finish now]"] exI [of _ "at_worker i K_idle (finish_request r now (th_server t')) t'"])
      (use that i in simp)
  have "task_runs_to i (at_worker i (if cl then K_close r ?fd else K_finish r) s1 ?t0)
      (finish_request r now (if cl then close_connection ?fd s1 else s1))"
  proof (cases cl)
    case False
    with finish [of "at_worker i (K_finish r) s1 ?t0"] show ?thesis by simp
  next
    case cl: True
    let ?t1 = "at_worker i (K_close r ?fd) s1 ?t0"
    have "task_runs_to i ?t1 (finish_request r now (close_connection ?fd s1))"
    proof (cases "find_conn ?fd s1 = None")
      case True
      with finish [of "at_worker i (K_finish r) s1 ?t1"] i show ?thesis
        by (intro task_runs_step [of i ?t1 Tk_go]) (simp_all add: close_connection_def Let_def)
    next
      case False
      then obtain y where y: "find_conn ?fd s1 = Some y" by blast
      let ?s2 = "erase_conn ?fd s1" let ?t2 = "at_worker i (K_release r ?fd) ?s2 ?t1"
      have "task_runs_to i ?t2 (finish_request r now (release_fd ?fd ?s2))"
        using finish [of "kernel_close ?fd (at_worker i (K_finish r) (release_fd ?fd ?s2) ?t2)"] i
        by (intro task_runs_step [of i ?t2 Tk_go]) (simp_all add: Let_def)
      with y i show ?thesis
        by (intro task_runs_step [of i ?t1 Tk_go ?t2]) (simp_all add: close_connection_def Let_def)
    qed
    with cl show ?thesis by simp
  qed
  then show ?thesis
    using assms se by (intro task_runs_step [of i t "Tk_send out"]) (simp_all add: send_response_async_def)
qed

lemma task_runs:
  assumes held: "fds_held t" and i: "i < length (th_workers t)" and pc: "th_workers t ! i = K_parse r"
    and p: "request_possible env out r (th_server t)"
    and h: "handle_client_request env out r (th_server t) = Some (Inr (), s1)"
  shows "task_runs_to i t s1"
proof -
  let ?s = "th_server t" let ?rq = "parse_request (cn_buffer (get_conn r ?s))" let ?s1 = "note_keep_alive r ?rq ?s"
  obtain response s2 where b: "build_response env ?rq ?s1 = Some (Inr response, s2)"
    using h by (auto simp: handle_client_request_def Let_def split: option.splits sum.splits)
  let ?c = "get_conn r s2" let ?text = "response_to_string (re_order env) (set_keep_alive (cn_keep_alive ?c) response)"
  let ?t1 = "at_worker i (K_keep r ?rq) ?s t" let ?t2 = "at_worker i (K_build r ?rq) ?s1 ?t1"
  let ?t3 = "at_worker i (K_text r response) s2 ?t2" let ?t4 = "at_worker i (K_check r ?text) s2 ?t3"
  have "task_runs_to i ?t4 s1"
  proof (cases "find_conn (cn_fd ?c) s2 = None")
    case True
    let ?t5 = "at_worker i (K_gone r) s2 ?t4"
    have "task_runs_to i ?t5 (stop_processing r s2)" unfolding task_runs_to_def
      by (intro exI [of _ "[Tk_go]"] exI [of _ "at_worker i K_idle (stop_processing r s2) ?t5"]) (use i in \<open>simp add: Let_def\<close>)
    moreover have "s1 = stop_processing r s2" using h b True by (simp add: handle_client_request_def Let_def)
    ultimately show ?thesis using True i by (intro task_runs_step [of i ?t4 Tk_go]) (simp_all add: Let_def)
  next
    case False
    then obtain y where y: "find_conn (cn_fd ?c) s2 = Some y" by blast
    let ?s3 = "post_response r ?text s2" let ?t5 = "at_worker i (K_post r ?text) s2 ?t4" let ?t6 = "at_worker i (K_send r) ?s3 ?t5"
    have s1: "s1 = finish_request r (re_finished env) (send_response_async r out ?s3)"
      using h b False by (simp add: handle_client_request_def Let_def)
    have "find_conn (cn_fd ?c) ?s \<noteq> None"
      using False build_response_sel(1) [OF b] by (simp add: find_conn_def)
    then have "th_kernel t (cn_fd ?c) \<noteq> None" using held_open(2) [OF held] by blast
    moreover have "cn_fd (get_conn r ?s3) = cn_fd ?c"
      by (cases "r < length (sv_heap s2)")
        (simp_all add: post_response_def get_upd_conn, simp add: upd_conn_def get_conn_def list_update_beyond)
    moreover have "send_fits out r ?s3" using p b by (simp add: request_possible_def Let_def)
    ultimately have "send_possible r out ?t6" by (intro send_fits_possible) simp_all
    from task_send_runs [of i ?t6 r out, OF _ _ this] i s1 have "task_runs_to i ?t6 s1" by simp
    then have "task_runs_to i ?t5 s1" using i by (intro task_runs_step [of i ?t5 Tk_go]) (simp_all add: Let_def)
    with y i show ?thesis by (intro task_runs_step [of i ?t4 Tk_go ?t5]) (simp_all add: Let_def)
  qed
  then have "task_runs_to i ?t3 s1" using i by (intro task_runs_step [of i ?t3 "Tk_text env"]) simp_all
  then have "task_runs_to i ?t2 s1" using i b by (intro task_runs_step [of i ?t2 "Tk_build env"]) simp_all
  then have "task_runs_to i ?t1 s1" using i by (intro task_runs_step [of i ?t1 Tk_go]) (simp_all add: Let_def)
  then show ?thesis using i pc by (intro task_runs_step [of i t Tk_go]) (simp_all add: Let_def)
qed

section \<open>Properties\<close>


lemma ex_taken:
  obtains t where "reachable th_init th_step t" and "event_idle t" and "th_workers t = [K_parse 0]"
    and "find_conn 7 (th_server t) = Some 0" and "sv_server_fd (th_server t) = 3" and "th_kernel t = [7 \<mapsto> 0]"
    and "sv_heap (th_server t) = [(new_connection 0 7)\<lparr>cn_buffer := bad_request, cn_processing_request := True\<rparr>]"
proof -
  have "\<exists>t. run_trace (take 7 first_half) ex_threads = Some t \<and> event_idle t \<and> th_workers t = [K_parse 0] \<and>
     find_conn 7 (th_server t) = Some 0 \<and> sv_server_fd (th_server t) = 3 \<and> th_kernel t = [7 \<mapsto> 0] \<and>
     sv_heap (th_server t) = [(new_connection 0 7)\<lparr>cn_buffer := bad_request, cn_processing_request := True\<rparr>]"
    using bad_request_facts
    by (simp add: first_half_def ex_threads_def new_threads_def new_server_def pool_thread_count_def event_idle_def
        at_event_def at_worker_def kernel_close_def register_def do_call_def add_fd_def add_connection_def
        load_max_connections_from_config_def find_conn_def get_conn_def upd_conn_def append_section_def Let_def
        MAX_REQUEST_SIZE_def BUFFER_SIZE_def new_connection_def enqueue_request_def store_data_def)
  then show ?thesis using that run_reachable [OF ex_threads_reachable] by blast
qed


end
