(* ===== verification/Server_Answers.thy ===== *)
theory Server_Answers
  imports Server_Safety
begin

text \<open>
  No request is forgotten: in every interleaving a connection whose buffer holds a complete request
  is marked as being processed, so that (by \<open>one_task_per_connection\<close>) there is a task for it.
  The one place where a worker takes the mark away without clearing the buffer is for a connection
  that has gone from the map.
\<close>

lemma nothing_not_complete [simp]: "\<not> is_http_request_complete []"
  by code_simp

definition answers_ok :: "threads \<Rightarrow> bool" where
  "answers_ok t \<longleftrightarrow>
     (\<forall>fd r. find_conn fd (th_server t) = Some r \<longrightarrow> is_http_request_complete (cn_buffer (get_conn r (th_server t))) \<longrightarrow>
        cn_processing_request (get_conn r (th_server t))) \<and>
     (\<forall>r. K_gone r \<in> set (th_workers t) \<longrightarrow> (\<forall>fd. find_conn fd (th_server t) \<noteq> Some r))"

lemma append_complete:
  assumes "append_section fd r bytes now s = (res, s1)" and "r < length (sv_heap s)"
  shows "cn_buffer (get_conn i s1) = cn_buffer (get_conn i s) \<or>
    (is_http_request_complete (cn_buffer (get_conn i s1)) \<longrightarrow> cn_processing_request (get_conn i s1))"
  using assms by (auto simp: append_section_def Let_def get_upd_conn split: if_splits)

lemma event_complete:
  assumes f: "refs_ok t" and e: "event_exec a t = Some t1" and i: "i < length (sv_heap (th_server t))"
  shows "cn_buffer (get_conn i (th_server t1)) = cn_buffer (get_conn i (th_server t)) \<or>
    (is_http_request_complete (cn_buffer (get_conn i (th_server t1))) \<longrightarrow> cn_processing_request (get_conn i (th_server t1)))"
proof (cases a)
  case (Ev_recv bytes now)
  with e obtain fd r where pc: "th_event t = E_recv fd r" by (cases "th_event t") auto
  obtain res s1 where ap: "append_section fd r bytes now (th_server t) = (res, s1)" by fastforce
  have r: "r < length (sv_heap (th_server t))" using refs_okD(3) [OF f, of r] pc by simp
  have "th_server t1 = s1" using pc ap Ev_recv e by (cases res) (auto split: if_splits)
  with append_complete [OF ap r, of i] show ?thesis by simp
next
  case (Ev_write out)
  with e obtain r where pc: "th_event t = E_write r" by (cases "th_event t") auto
  obtain cl s1 where se: "send_section r out (th_server t) = (cl, s1)" by fastforce
  have r: "r < length (sv_heap (th_server t))" using refs_okD(3) [OF f, of r] pc by simp
  from send_section_sel(7) [OF se r] pc se Ev_write e show ?thesis by (auto split: if_splits)
next
  case Ev_enqueue
  with e show ?thesis by (cases "th_event t") (auto dest!: enqueue_sel split: sum.splits)
next
  case (Ev_insert now)
  with e i show ?thesis by (cases "th_event t") auto
qed (use e in \<open>auto simp: event_idle_def drop_accepted_def split: if_splits event_pc.splits list.splits\<close>)

lemma event_map:
  assumes "refs_ok t" and e: "event_exec a t = Some t1" and m: "find_conn fd (th_server t1) = Some r"
  shows "find_conn fd (th_server t) = Some r \<and> r < length (sv_heap (th_server t)) \<or>
    r = length (sv_heap (th_server t)) \<and> cn_buffer (get_conn r (th_server t1)) = []"
proof (cases "\<exists>now. a = Ev_insert now")
  case True
  then obtain now j where s1: "th_server t1 = add_connection now j (register j (th_server t))"
    using e by (cases "th_event t") auto
  have "cn_buffer (get_conn (length (sv_heap (th_server t))) (th_server t1)) = []"
    using get_add_connection(1) [of "register j (th_server t)" now j] by (simp add: s1 new_connection_def)
  with m refs_okD(1) [OF assms(1)] show ?thesis by (auto simp: s1 split: if_splits)
next
  case False
  then have "server_frame (th_server t) (th_server t1)" using event_frame [OF assms(1,2)] by blast
  then have "find_conn fd (th_server t) = Some r" using m unfolding server_frame_def by (metis option.distinct(1))
  with refs_okD(1) [OF assms(1)] show ?thesis by blast
qed

lemma answers_ok_event:
  assumes o: "answers_ok t" and f: "refs_ok t" and e: "event_exec a t = Some t1"
  shows "answers_ok t1"
  unfolding answers_ok_def
proof (intro conjI allI impI)
  fix fd r
  assume m: "find_conn fd (th_server t1) = Some r"
    and c: "is_http_request_complete (cn_buffer (get_conn r (th_server t1)))"
  from event_map [OF f e m] c have old: "find_conn fd (th_server t) = Some r" "r < length (sv_heap (th_server t))" by auto
  with o event_complete [OF f e old(2)] event_conns [OF f e old(2)] c
  show "cn_processing_request (get_conn r (th_server t1))"
    unfolding answers_ok_def by (metis (full_types))
next
  fix r fd
  assume "K_gone r \<in> set (th_workers t1)"
  then have g: "K_gone r \<in> set (th_workers t)" using event_refs [OF e] by simp
  then have "r < length (sv_heap (th_server t))" using refs_okD(4) [OF f] by simp
  with g o event_map [OF f e] show "find_conn fd (th_server t1) \<noteq> Some r" unfolding answers_ok_def by fastforce
qed

lemma task_new_gone:
  "task_exec i a t = Some t1 \<Longrightarrow> i < length (th_workers t) \<Longrightarrow> th_workers t1 ! i = K_gone r \<Longrightarrow>
   find_conn (cn_fd (get_conn r (th_server t))) (th_server t) = None"
  by (cases a) (auto simp: Let_def split: if_splits task_pc.splits prod.splits sum.splits list.splits option.splits)

lemma task_finish_clears:
  assumes "task_exec i a t = Some t1" and "i < length (th_workers t)" and "refs_ok t"
    and "th_workers t ! i = K_finish r" and "th_workers t1 ! i = K_idle"
  shows "cn_buffer (get_conn r (th_server t1)) = []"
proof -
  have "r < length (sv_heap (th_server t))" using refs_okD(4) [OF assms(3), of "K_finish r" r] assms(2,4) nth_mem by force
  with assms show ?thesis by (cases a) (auto simp: task_section_conn)
qed

lemma answers_ok_task:
  assumes o: "answers_ok t" and f: "refs_ok t" and r: "routes_ok t" and i: "i < length (th_workers t)"
    and e: "task_exec i a t = Some t1"
  shows "answers_ok t1"
proof -
  note fr = task_frame [OF f i e]
  have m: "find_conn fd (th_server t) = Some x" if "find_conn fd (th_server t1) = Some x" for fd x
    using fr that unfolding server_frame_def by (metis option.distinct(1))
  have gone: "K_gone x \<in> set (th_workers t) \<Longrightarrow> find_conn fd (th_server t) \<noteq> Some x" for x fd
    using o by (simp add: answers_ok_def)
  have "cn_processing_request (get_conn x (th_server t1))"
    if x: "find_conn fd (th_server t1) = Some x" "is_http_request_complete (cn_buffer (get_conn x (th_server t1)))" for fd x
  proof -
    note c = task_conns [OF f i e, of x]
    have b: "cn_buffer (get_conn x (th_server t1)) = cn_buffer (get_conn x (th_server t))" using c x(2) by auto
    have "th_workers t ! i \<noteq> K_gone x" using gone [of x fd] m [OF x(1)] i by (metis nth_mem)
    moreover have "\<not> (th_workers t ! i = K_finish x \<and> th_workers t1 ! i = K_idle)"
      using task_finish_clears [OF e i f, of x] x(2) by auto
    moreover have "cn_processing_request (get_conn x (th_server t))"
      using o m [OF x(1)] x(2) b by (simp add: answers_ok_def)
    ultimately show ?thesis using c by (auto simp: ends_task_def)
  qed
  moreover have "find_conn fd (th_server t1) \<noteq> Some x" if x: "K_gone x \<in> set (th_workers t1)" for fd x
  proof
    assume fd: "find_conn fd (th_server t1) = Some x"
    obtain w where w: "th_workers t1 = (th_workers t)[i := w]" using task_refs [OF e] by blast
    then have "w = K_gone x \<or> K_gone x \<in> set (th_workers t)"
      using x set_update_subset_insert [of "th_workers t" i w] by auto
    moreover have "w \<noteq> K_gone x"
      using task_new_gone [OF e i, of x] w i routes_okD(1) [OF r m [OF fd]] m [OF fd] by auto
    ultimately show False using gone m [OF fd] by blast
  qed
  ultimately show ?thesis unfolding answers_ok_def by blast
qed

definition answering_inv :: "threads \<Rightarrow> bool" where
  "answering_inv t \<longleftrightarrow> threads_inv t \<and> answers_ok t"

interpretation answering: inductive_invariant th_init th_step answering_inv
proof (unfold_locales, goal_cases)
  case (1 t)
  then have "answers_ok t"
    by (auto simp: th_init_def answers_ok_def new_threads_def new_server_def find_conn_def)
  with 1 threads_inv_init show ?case by (simp add: answering_inv_def)
next
  case (2 t t1)
  then have i: "threads_inv t" "answers_ok t" "refs_ok t" "routes_ok t" by (simp_all add: answering_inv_def threads_inv_def)
  have "answers_ok t1"
    using 2(2) answers_ok_event [OF i(2,3)] answers_ok_task [OF i(2-4)] by (cases rule: th_step.cases) auto
  with threads_inv_step [OF i(1) 2(2)] show ?case by (simp add: answering_inv_def)
qed

lemma reachable_answers: "reachable th_init th_step t \<Longrightarrow> answers_ok t"
  using answering.reachable_inv by (simp add: answering_inv_def)

lemma nothing_waits:
  assumes "reachable th_init th_step t" and "sv_queue (th_server t) = []" and "event_idle t"
    and "set (th_workers t) \<subseteq> {K_idle}" and "find_conn fd (th_server t) = Some r"
  shows "\<not> cn_processing_request (get_conn r (th_server t))"
    and "\<not> is_http_request_complete (cn_buffer (get_conn r (th_server t)))"
proof -
  have "refs_ok t" "tasks_ok t" using reachable_threads [OF assms(1)] by blast+
  then have r: "r < length (sv_heap (th_server t))" and c: "task_count r t = of_bool (cn_processing_request (get_conn r (th_server t)))"
    using refs_okD(1) assms(5) by (simp_all add: tasks_ok_def)
  have "filter (\<lambda>w. task_ref w = Some r) (th_workers t) = []" using assms(4) by (auto simp: filter_empty_conv)
  then have "task_count r t = 0" using assms(2,3) by (simp add: task_count_def event_idle_def)
  with c show p: "\<not> cn_processing_request (get_conn r (th_server t))" by simp
  with reachable_answers [OF assms(1)] assms(5) show "\<not> is_http_request_complete (cn_buffer (get_conn r (th_server t)))"
    unfolding answers_ok_def by blast
qed

end
