(* ===== verification/Server_Delivery.thy ===== *)
theory Server_Delivery
  imports Server_Types "HOL-Library.Sublist"
begin

text \<open>
  What is sent for a connection, in every interleaving of \<open>Server_Threads\<close>: only responses to requests
  received on it, each from its beginning, and each to its end unless a failed \<open>send\<close> or the next
  response of the same connection cuts it off.
\<close>

section \<open>Responses and the requests they answer\<close>

definition received_by :: "nat \<Rightarrow> (nat \<times> string) list \<Rightarrow> string" where
  "received_by r received = concat (map snd (filter (\<lambda>(x, _). x = r) received))"

definition request_in :: "string \<Rightarrow> http_request \<Rightarrow> bool" where
  \<comment> \<open>parsed from a complete request somewhere in these bytes\<close>
  "request_in received request \<longleftrightarrow>
     (\<exists>buffer. sublist buffer received \<and> is_http_request_complete buffer \<and> request = parse_request buffer)"

definition built_for :: "string \<Rightarrow> http_response \<Rightarrow> bool" where
  "built_for received response \<longleftrightarrow>
     (\<exists>env request s s1. request_in received request \<and> build_response env request s = Some (Inr response, s1))"

definition is_answer :: "string \<Rightarrow> string \<Rightarrow> bool" where
  \<comment> \<open>the text of a response \<open>handle_client_request\<close> has built for such a request\<close>
  "is_answer received text \<longleftrightarrow> (\<exists>response order keep_alive. built_for received response \<and>
     text = response_to_string order (set_keep_alive keep_alive response))"

lemma built_forI:
  "build_response env request s = Some (Inr response, s1) \<Longrightarrow> request_in received request \<Longrightarrow> built_for received response"
  by (auto simp: built_for_def)

lemma is_answerI:
  "built_for received response \<Longrightarrow> is_answer received (response_to_string order (set_keep_alive keep_alive response))"
  by (auto simp: is_answer_def)

lemma sublist_prefix: "sublist xs ys \<Longrightarrow> prefix ys zs \<Longrightarrow> sublist xs zs"
  by (meson prefix_imp_sublist sublist_order.order_trans)

lemma request_in_more: "request_in received request \<Longrightarrow> prefix received received1 \<Longrightarrow> request_in received1 request"
  unfolding request_in_def using sublist_prefix by blast

lemma built_for_more: "built_for received response \<Longrightarrow> prefix received received1 \<Longrightarrow> built_for received1 response"
  unfolding built_for_def using request_in_more by blast

lemma is_answer_more: "is_answer received text \<Longrightarrow> prefix received received1 \<Longrightarrow> is_answer received1 text"
  unfolding is_answer_def using built_for_more by blast

section \<open>Responses on their way\<close>

definition under_way :: "connection \<Rightarrow> (string \<times> nat) option" where
  "under_way c = (if cn_has_pending_write c then Some (cn_pending_response c, cn_response_offset c) else None)"

definition sent_for :: "nat \<Rightarrow> (nat \<times> nat \<times> string) list \<Rightarrow> string" where
  \<comment> \<open>the bytes the kernel has taken of responses of this connection object\<close>
  "sent_for r sent = concat (map (\<lambda>(_, _, bytes). bytes) (filter (\<lambda>(_, x, _). x = r) sent))"

fun begun :: "(string \<times> nat) option \<Rightarrow> string" where
  "begun None = []"
| "begun (Some (text, offset)) = take offset text"

definition answers_only :: "(string \<Rightarrow> bool) \<Rightarrow> bool \<Rightarrow> (string \<times> nat) option \<Rightarrow> string \<Rightarrow> bool" where
  \<comment> \<open>\<open>ans\<close>: what is posted; \<open>cuts\<close>: whether answers may be cut off\<close>
  "answers_only ans cuts u sent \<longleftrightarrow>
     (\<exists>ps. sent = concat ps @ begun u \<and> (\<forall>p \<in> set ps. \<exists>a. ans a \<and> prefix p a \<and> (p = a \<or> cuts))) \<and>
     (\<forall>text offset. u = Some (text, offset) \<longrightarrow> ans text)"

inductive delivery_step :: "(string \<Rightarrow> bool) \<Rightarrow> bool \<Rightarrow> (string \<times> nat) option \<Rightarrow> string \<Rightarrow> (string \<times> nat) option \<Rightarrow> string \<Rightarrow> bool"
  for ans :: "string \<Rightarrow> bool" and cuts :: bool where
  quiet: "delivery_step ans cuts u sent u sent"
| post: "ans text \<Longrightarrow> cuts \<or> u = None \<Longrightarrow> delivery_step ans cuts u sent (Some (text, 0)) sent"
| part: "delivery_step ans cuts (Some (text, k)) sent (Some (text, k + n)) (sent @ take n (drop k text))"
| whole: "delivery_step ans cuts (Some (text, k)) sent None (sent @ drop k text)"
| dropped: "cuts \<Longrightarrow> delivery_step ans cuts u sent None sent"

lemma answers_only_start [simp]: "answers_only ans cuts None []"
  by (auto simp: answers_only_def intro: exI [of _ "[]"])

lemma answers_only_mono: "answers_only ans cuts u sent \<Longrightarrow> (\<And>x. ans x \<Longrightarrow> ans1 x) \<Longrightarrow> answers_only ans1 cuts u sent"
  unfolding answers_only_def by metis

lemma answers_only_step:
  assumes "delivery_step ans cuts u sent u1 sent1" and "answers_only ans cuts u sent"
  shows "answers_only ans cuts u1 sent1"
  using assms(1)
proof cases
  case quiet
  with assms(2) show ?thesis by simp
next
  case (post resp)
  obtain ps where ps: "sent = concat ps @ begun u" "\<forall>p \<in> set ps. \<exists>a. ans a \<and> prefix p a \<and> (p = a \<or> cuts)"
    and u: "\<And>text k. u = Some (text, k) \<Longrightarrow> ans text" using assms(2) by (auto simp: answers_only_def)
  show ?thesis
  proof (cases u)
    case None
    with ps post show ?thesis by (auto simp: answers_only_def)
  next
    case (Some p)
    then obtain old k where p: "u = Some (old, k)" by (cases p) auto
    with post u have "cuts" "ans old" "prefix (take k old) old" by (auto intro: take_is_prefix)
    with ps p post show ?thesis unfolding answers_only_def by (intro conjI exI [of _ "ps @ [take k old]"]) auto
  qed
next
  case (part resp k n)
  with assms(2) show ?thesis by (auto simp: answers_only_def take_add)
next
  case (whole resp k)
  obtain ps where ps: "sent = concat ps @ take k resp" "\<forall>p \<in> set ps. \<exists>a. ans a \<and> prefix p a \<and> (p = a \<or> cuts)"
    and a: "ans resp" using assms(2) whole(1) by (auto simp: answers_only_def)
  with ps a whole show ?thesis unfolding answers_only_def by (intro conjI exI [of _ "ps @ [resp]"]) auto
next
  case dropped
  obtain ps where ps: "sent = concat ps @ begun u" "\<forall>p \<in> set ps. \<exists>a. ans a \<and> prefix p a \<and> (p = a \<or> cuts)"
    and u: "\<And>text k. u = Some (text, k) \<Longrightarrow> ans text" using assms(2) by (auto simp: answers_only_def)
  show ?thesis
  proof (cases u)
    case None
    with ps dropped show ?thesis by (auto simp: answers_only_def)
  next
    case (Some p)
    then obtain old k where p: "u = Some (old, k)" by (cases p) auto
    with dropped u have "cuts" "ans old" "prefix (take k old) old" by (auto intro: take_is_prefix)
    with ps p dropped show ?thesis unfolding answers_only_def by (intro conjI exI [of _ "ps @ [take k old]"]) auto
  qed
qed

section \<open>Sending\<close>

fun send_goes :: "send_outcome \<Rightarrow> bool" where
  \<comment> \<open>the socket takes something, or nothing for now\<close>
  "send_goes (Sent n) = (n \<noteq> 0)"
| "send_goes (Send_error e) = (e = EAGAIN)"

abbreviation delivery :: "(string \<Rightarrow> bool) \<Rightarrow> bool \<Rightarrow> nat \<Rightarrow> threads \<Rightarrow> threads \<Rightarrow> bool" where
  "delivery ans cuts i t t1 \<equiv> delivery_step ans cuts (under_way (get_conn i (th_server t))) (sent_for i (th_sent t))
     (under_way (get_conn i (th_server t1))) (sent_for i (th_sent t1))"

lemma sent_for_append [simp]: "sent_for r (sent @ sent1) = sent_for r sent @ sent_for r sent1"
  by (simp add: sent_for_def)

lemma sent_for_record:
  assumes "send_possible r out t" and "cn_has_pending_write (get_conn r (th_server t))"
  shows "sent_for i (th_sent (record_sent r out t)) = sent_for i (th_sent t) @
    (case out of Sent n \<Rightarrow>
       if i = r then take n (drop (cn_response_offset (get_conn r (th_server t))) (cn_pending_response (get_conn r (th_server t))))
       else []
     | Send_error _ \<Rightarrow> [])"
  using assms by (auto simp: record_sent_def send_possible_def Let_def sent_for_def split: send_outcome.splits)

lemma delivery_sent:
  assumes se: "send_section r out (th_server t) = (cl, s1)" and r: "r < length (sv_heap (th_server t))"
    and o: "offset_ok (get_conn r (th_server t))" and p: "send_possible r out t" and c: "cuts \<or> send_goes out"
  shows "delivery_step ans cuts (under_way (get_conn i (th_server t))) (sent_for i (th_sent t))
     (under_way (get_conn i s1)) (sent_for i (th_sent (record_sent r out t)))"
proof (cases "cn_has_pending_write (get_conn r (th_server t))")
  case False
  then have "th_sent (record_sent r out t) = th_sent t" "s1 = th_server t"
    using se by (auto simp: record_sent_def send_section_def Let_def split: send_outcome.split option.split)
  then show ?thesis by (simp add: delivery_step.quiet)
next
  case True
  let ?c = "get_conn r (th_server t)"
  have u: "under_way ?c = Some (cn_pending_response ?c, cn_response_offset ?c)" using True by (simp add: under_way_def)
  have len: "cn_response_offset ?c < length (cn_pending_response ?c)" using o True by (simp add: offset_ok_def)
  note sent = sent_for_record [OF p True, of i]
  show ?thesis
  proof (cases "i = r")
    case False
    have "get_conn i s1 = get_conn i (th_server t)"
      using se r False by (auto simp: send_section_def Let_def get_upd_conn split: if_splits send_outcome.splits)
    with sent False show ?thesis by (auto intro: delivery_step.quiet split: send_outcome.splits)
  next
    case i: True
    show ?thesis
    proof (cases out)
      case (Send_error e)
      with se r True len have "under_way (get_conn r s1) = (if e = EAGAIN then under_way ?c else None)"
        by (auto simp: send_section_def Let_def get_upd_conn under_way_def abandon_pending_def split: if_splits)
      with sent Send_error i c show ?thesis by (auto intro: delivery_step.intros)
    next
      case (Sent n)
      with se r True len have s1: "under_way (get_conn r s1) =
          (if n = 0 then None
           else if length (cn_pending_response ?c) \<le> cn_response_offset ?c + n then None
           else Some (cn_pending_response ?c, cn_response_offset ?c + n))"
        by (auto simp: send_section_def Let_def get_upd_conn upd_upd under_way_def abandon_pending_def reset_pending_def
            split: if_splits)
      show ?thesis
      proof (cases "n = 0")
        case True
        with s1 sent Sent i c show ?thesis by (auto intro: delivery_step.dropped)
      next
        case False
        with s1 sent Sent i u show ?thesis by (auto intro: delivery_step.part delivery_step.whole)
      qed
    qed
  qed
qed
lemma under_way_sections:
  assumes "r < length (sv_heap s)"
  shows "under_way (get_conn i (note_keep_alive r request s)) = under_way (get_conn i s)"
    "under_way (get_conn i (stop_processing r s)) = under_way (get_conn i s)"
    "under_way (get_conn i (finish_request r now s)) = under_way (get_conn i s)"
    "append_section fd r bytes now s = (res, s1) \<Longrightarrow> under_way (get_conn i s1) = under_way (get_conn i s)"
    "under_way (get_conn i (post_response r resp s)) = (if i = r then Some (resp, 0) else under_way (get_conn i s))"
  using assms
  by (auto simp: note_keep_alive_def stop_processing_def finish_request_def post_response_def append_section_def Let_def
      get_upd_conn under_way_def split: if_splits)

lemma delivery_same:
  "under_way (get_conn i (th_server t1)) = under_way (get_conn i (th_server t)) \<Longrightarrow> th_sent t1 = th_sent t \<Longrightarrow>
   delivery ans cuts i t t1"
  by (simp add: delivery_step.quiet)

lemma delivery_event:
  assumes f: "refs_ok t" and o: "offsets_ok (th_server t)" and e: "event_exec a t = Some t1"
    and i: "i < length (sv_heap (th_server t))" and c: "cuts \<or> (\<forall>out. a = Ev_write out \<longrightarrow> send_goes out)"
  shows "delivery ans cuts i t t1"
proof (cases a)
  case (Ev_recv bytes now)
  with e obtain fd r where pc: "th_event t = E_recv fd r" by (cases "th_event t") auto
  obtain res s1 where ap: "append_section fd r bytes now (th_server t) = (res, s1)" by fastforce
  have r: "r < length (sv_heap (th_server t))" using refs_okD(3) [OF f, of r] pc by simp
  have "th_server t1 = s1 \<and> th_sent t1 = th_sent t" using pc ap Ev_recv e by (cases res) (auto split: if_splits)
  with under_way_sections(4) [OF r ap] show ?thesis by (intro delivery_same) simp_all
next
  case (Ev_write out)
  with e obtain r where pc: "th_event t = E_write r" by (cases "th_event t") auto
  obtain cl s1 where se: "send_section r out (th_server t) = (cl, s1)" by fastforce
  have r: "r < length (sv_heap (th_server t))" using refs_okD(3) [OF f, of r] pc by simp
  have "th_server t1 = s1 \<and> th_sent t1 = th_sent (record_sent r out t)" "send_possible r out t"
    using pc se Ev_write e by (auto split: if_splits)
  with delivery_sent [OF se r offsets_okD [OF o r]] Ev_write c show ?thesis by auto
next
  case Ev_enqueue
  with e show ?thesis
    by (intro delivery_same; cases "th_event t") (auto dest!: enqueue_sel simp: get_conn_def split: sum.splits)
next
  case (Ev_insert now)
  with e i show ?thesis by (intro delivery_same; cases "th_event t") auto
qed (use e in \<open>auto simp: event_idle_def drop_accepted_def intro!: delivery_same split: if_splits event_pc.splits list.splits\<close>)

lemma delivery_task:
  assumes f: "refs_ok t" and o: "offsets_ok (th_server t)" and x: "\<And>text. K_post i text \<in> set (th_workers t) \<Longrightarrow> ans text"
    and k: "k < length (th_workers t)" and e: "task_exec k a t = Some t1" and i: "i < length (sv_heap (th_server t))"
    and c: "cuts \<or> (\<forall>out. a = Tk_send out \<longrightarrow> send_goes out) \<and>
      (\<forall>r resp. a = Tk_go \<and> th_workers t ! k = K_post r resp \<longrightarrow> under_way (get_conn r (th_server t)) = None)"
  shows "delivery ans cuts i t t1"
proof -
  have ref: "task_ref (th_workers t ! k) = Some r \<Longrightarrow> r < length (sv_heap (th_server t))" for r
    using refs_okD(4) [OF f nth_mem [OF k]] by simp
  show ?thesis
  proof (cases a)
    case Tk_go
    show ?thesis
    proof (cases "\<exists>r resp. th_workers t ! k = K_post r resp")
      case True
      then obtain r resp where pc: "th_workers t ! k = K_post r resp" by blast
      have "i = r \<Longrightarrow> ans resp" using x nth_mem [OF k] pc by simp
      moreover have "t1 = at_worker k (K_send r) (post_response r resp (th_server t)) t" using Tk_go e pc by simp
      ultimately show ?thesis
        using under_way_sections(5) [OF ref, of r i resp] pc c Tk_go by (cases "i = r") (auto intro: delivery_step.intros)
    next
      case False
      with Tk_go e ref show ?thesis
        by (intro delivery_same; cases "th_workers t ! k")
          (auto simp: Let_def under_way_sections split: list.splits if_splits)
    qed
  next
    case (Tk_build env)
    with e obtain r request response s1 where b: "build_response env request (th_server t) = Some (Inr response, s1)"
      and t1: "t1 = at_worker k (K_text r response) s1 t"
      by (auto split: task_pc.splits option.splits sum.splits prod.splits)
    from build_response_sel(6) [OF b] show ?thesis by (intro delivery_same) (simp_all add: t1)
  next
    case (Tk_send out)
    with e obtain r where pc: "th_workers t ! k = K_send r" by (cases "th_workers t ! k") auto
    obtain cl s1 where se: "send_section r out (th_server t) = (cl, s1)" by fastforce
    have r: "r < length (sv_heap (th_server t))" using ref pc by simp
    have "th_server t1 = s1 \<and> th_sent t1 = th_sent (record_sent r out t)" "send_possible r out t"
      using pc se Tk_send e by (auto split: if_splits)
    with delivery_sent [OF se r offsets_okD [OF o r]] Tk_send c show ?thesis by auto
  next
    case (Tk_text env)
    with e show ?thesis by (intro delivery_same) (auto split: task_pc.splits)
  next
    case (Tk_finish now)
    with e ref show ?thesis
      by (intro delivery_same; cases "th_workers t ! k") (auto simp: under_way_sections)
  qed
qed

section \<open>All interleavings\<close>

fun smooth_act :: "event_act + nat \<times> task_act \<Rightarrow> threads \<Rightarrow> bool" where
  \<comment> \<open>no \<open>send\<close> fails and no response replaces one that is pending\<close>
  "smooth_act (Inl (Ev_write out)) t = send_goes out"
| "smooth_act (Inr (i, Tk_send out)) t = send_goes out"
| "smooth_act (Inr (i, Tk_go)) t =
     (case th_workers t ! i of K_post r _ \<Rightarrow> under_way (get_conn r (th_server t)) = None | _ \<Rightarrow> True)"
| "smooth_act _ t = True"

inductive smooth_step :: "threads \<Rightarrow> threads \<Rightarrow> bool" where
  event: "event_exec a t = Some t1 \<Longrightarrow> smooth_act (Inl a) t \<Longrightarrow> smooth_step t t1"
| task: "i < length (th_workers t) \<Longrightarrow> task_exec i a t = Some t1 \<Longrightarrow> smooth_act (Inr (i, a)) t \<Longrightarrow> smooth_step t t1"

lemma smooth_th_step: "smooth_step t t1 \<Longrightarrow> th_step t t1"
  by (auto elim!: smooth_step.cases intro: th_step.intros)

definition delivery_inv :: "(threads \<Rightarrow> nat \<Rightarrow> string \<Rightarrow> bool) \<Rightarrow> bool \<Rightarrow> (threads \<Rightarrow> bool) \<Rightarrow> threads \<Rightarrow> bool" where
  "delivery_inv ans cuts src t \<longleftrightarrow> typed_inv t \<and> src t \<and>
     (\<forall>r < length (sv_heap (th_server t)). answers_only (ans t r) cuts (under_way (get_conn r (th_server t))) (sent_for r (th_sent t))) \<and>
     (\<forall>(_, r, _) \<in> set (th_sent t). r < length (sv_heap (th_server t)))"

lemma sent_known_event:
  assumes "refs_ok t" and e: "event_exec a t = Some t1"
  shows "set (th_sent t1) \<subseteq> set (th_sent t) \<union> {(sock, r, bytes). r < length (sv_heap (th_server t))}"
proof (cases a)
  case (Ev_write out)
  with e obtain r where pc: "th_event t = E_write r" by (cases "th_event t") auto
  have "r < length (sv_heap (th_server t))" using refs_okD(3) [OF assms(1), of r] pc by simp
  with pc Ev_write e show ?thesis
    by (auto simp: record_sent_def Let_def split: if_splits prod.splits send_outcome.splits option.splits)
next
  case (Ev_recv bytes now)
  with e show ?thesis by (auto split: event_pc.splits if_splits prod.splits append_result.splits)
qed (use e in \<open>auto simp: drop_accepted_def event_idle_def split: if_splits event_pc.splits sum.splits list.splits\<close>)

lemma sent_known_task:
  assumes f: "refs_ok t" and k: "k < length (th_workers t)" and e: "task_exec k a t = Some t1"
  shows "set (th_sent t1) \<subseteq> set (th_sent t) \<union> {(sock, r, bytes). r < length (sv_heap (th_server t))}"
proof (cases a)
  case (Tk_send out)
  with e obtain r where pc: "th_workers t ! k = K_send r" by (cases "th_workers t ! k") auto
  have "r < length (sv_heap (th_server t))" using refs_okD(4) [OF f nth_mem [OF k], of r] pc by simp
  with pc Tk_send e show ?thesis
    by (auto simp: record_sent_def Let_def split: if_splits prod.splits send_outcome.splits option.splits)
qed (use e in \<open>auto simp: Let_def split: task_pc.splits if_splits option.splits sum.splits prod.splits list.splits\<close>)

text \<open>What is posted has a source: an invariant of the steps considered says of every text a worker has
  ready for a connection that it is one of the answers \<open>ans\<close> to it.\<close>

locale response_source =
  fixes ans :: "threads \<Rightarrow> nat \<Rightarrow> string \<Rightarrow> bool"
    and cuts :: bool
    and step :: "threads \<Rightarrow> threads \<Rightarrow> bool"
    and src :: "threads \<Rightarrow> bool"
  assumes step_th: "step t t1 \<Longrightarrow> th_step t t1"
    and step_smooth: "step t t1 \<Longrightarrow> cuts \<or> smooth_step t t1"
    and src_init: "th_init t \<Longrightarrow> src t"
    and src_step: "typed_inv t \<Longrightarrow> src t \<Longrightarrow> step t t1 \<Longrightarrow> src t1"
    and src_text: "src t \<Longrightarrow> K_post r text \<in> set (th_workers t) \<Longrightarrow> ans t r text"
    and ans_step: "step t t1 \<Longrightarrow> ans t r text \<Longrightarrow> ans t1 r text"
begin

lemma delivery_inv_step:
  assumes inv: "delivery_inv ans cuts src t" and st: "step t t1"
  shows "delivery_inv ans cuts src t1"
proof -
  have th: "th_step t t1" using step_th [OF st] .
  have i: "typed_inv t" "src t" "refs_ok t" "offsets_ok (th_server t)"
    using inv by (simp_all add: delivery_inv_def typed_inv_def threads_inv_def writes_ok_def)
  have t1: "typed_inv t1" using typed.step_inv [OF i(1) th] .
  have x: "src t1" using src_step [OF i(1,2) st] .
  have d: "delivery (ans t r) cuts r t t1" if r: "r < length (sv_heap (th_server t))" for r
  proof (cases cuts)
    case True
    from th show ?thesis
    proof (cases rule: th_step.cases)
      case (event a)
      then show ?thesis using True by (intro delivery_event [OF i(3,4) event r]) simp
    next
      case (task k a)
      then show ?thesis using True by (intro delivery_task [OF i(3,4) src_text [OF i(2)] task r]) simp_all
    qed
  next
    case False
    with step_smooth [OF st] have "smooth_step t t1" by simp
    then show ?thesis
    proof (cases rule: smooth_step.cases)
      case (event a)
      then show ?thesis by (intro delivery_event [OF i(3,4) event(1) r]) auto
    next
      case (task k a)
      then show ?thesis by (intro delivery_task [OF i(3,4) src_text [OF i(2)] task(1,2) r]) auto
    qed
  qed
  have s: "set (th_sent t1) \<subseteq> set (th_sent t) \<union> {(sock, r, bytes). r < length (sv_heap (th_server t))}"
    using th sent_known_event [OF i(3)] sent_known_task [OF i(3)] by (cases rule: th_step.cases) blast+
  have known: "\<forall>(_, r, _) \<in> set (th_sent t). r < length (sv_heap (th_server t))" using inv by (simp add: delivery_inv_def)
  have grown: "length (sv_heap (th_server t)) \<le> length (sv_heap (th_server t1)) \<and>
    (\<forall>r < length (sv_heap (th_server t1)). r < length (sv_heap (th_server t)) \<or>
       under_way (get_conn r (th_server t1)) = None)"
    using th
  proof (cases rule: th_step.cases)
    case (event a)
    show ?thesis
    proof (cases "\<exists>now. a = Ev_insert now")
      case True
      then obtain now fd where s1: "th_server t1 = add_connection now fd (register fd (th_server t))"
        using event by (cases "th_event t") auto
      then have "under_way (get_conn (length (sv_heap (th_server t))) (th_server t1)) = None"
        using get_add_connection(1) [of "register fd (th_server t)" now fd] by (simp add: new_connection_def under_way_def)
      with s1 show ?thesis by (auto simp: less_Suc_eq)
    next
      case False
      with event_frame [OF i(3) event] show ?thesis by (auto simp: server_frame_def)
    qed
  next
    case (task k a)
    with task_frame [OF i(3) task] show ?thesis by (simp add: server_frame_def)
  qed
  have "answers_only (ans t1 r) cuts (under_way (get_conn r (th_server t1))) (sent_for r (th_sent t1))"
    if r: "r < length (sv_heap (th_server t1))" for r
  proof (cases "r < length (sv_heap (th_server t))")
    case True
    with inv answers_only_step [OF d [OF True]] have "answers_only (ans t r) cuts (under_way (get_conn r (th_server t1))) (sent_for r (th_sent t1))"
      by (simp add: delivery_inv_def)
    then show ?thesis by (rule answers_only_mono) (rule ans_step [OF st])
  next
    case False
    then have "filter (\<lambda>(_, x, _). x = r) (th_sent t1) = []"
      using s known by (fastforce simp: filter_empty_conv)
    then have "sent_for r (th_sent t1) = []" by (simp add: sent_for_def)
    moreover have "under_way (get_conn r (th_server t1)) = None" using grown r False by blast
    ultimately show ?thesis by simp
  qed
  with t1 x s known grown show ?thesis unfolding delivery_inv_def by fastforce
qed

lemma delivery_inv_init: "th_init t \<Longrightarrow> delivery_inv ans cuts src t"
  using typed.init_inv [of t] src_init [of t]
  by (auto simp: th_init_def delivery_inv_def new_threads_def new_server_def)

end

sublocale response_source \<subseteq> delivered: inductive_invariant th_init step "delivery_inv ans cuts src"
  by unfold_locales (fact delivery_inv_init delivery_inv_step)+

lemma answers_onlyD:
  assumes "answers_only ans cuts u sent"
  obtains ps p where "sent = concat ps @ p" and "\<forall>p \<in> set ps. \<exists>a. ans a \<and> prefix p a \<and> (p = a \<or> cuts)"
    and "p = [] \<or> (\<exists>a. ans a \<and> prefix p a)"
proof -
  have "begun u = [] \<or> (\<exists>a. ans a \<and> prefix (begun u) a)"
  proof (cases u)
    case (Some q)
    then obtain resp k where "u = Some (resp, k)" by (cases q) auto
    moreover from this have "ans resp" using assms by (simp add: answers_only_def)
    ultimately show ?thesis using take_is_prefix by auto
  qed simp
  with that assms show ?thesis unfolding answers_only_def by blast
qed

context response_source
begin

lemma sent_answers:
  assumes "reachable th_init step t"
  obtains ps p where "sent_for r (th_sent t) = concat ps @ p"
    and "\<forall>p \<in> set ps. \<exists>a. ans t r a \<and> prefix p a \<and> (p = a \<or> cuts)" and "p = [] \<or> (\<exists>a. ans t r a \<and> prefix p a)"
proof (cases "r < length (sv_heap (th_server t))")
  case True
  then have "answers_only (ans t r) cuts (under_way (get_conn r (th_server t))) (sent_for r (th_sent t))"
    using delivered.reachable_inv [OF assms] by (simp add: delivery_inv_def)
  then show ?thesis using that by (rule answers_onlyD)
next
  case False
  then have "filter (\<lambda>(_, x, _). x = r) (th_sent t) = []"
    using delivered.reachable_inv [OF assms] by (fastforce simp: delivery_inv_def filter_empty_conv)
  then have "sent_for r (th_sent t) = []" by (simp add: sent_for_def)
  then show ?thesis by (intro that [of "[]" "[]"]) simp_all
qed

end

section \<open>The responses of the server\<close>

fun pc_ok :: "(nat \<Rightarrow> string) \<Rightarrow> task_pc \<Rightarrow> bool" where
  \<comment> \<open>what a worker has at hand comes from the bytes received on its connection\<close>
  "pc_ok received (K_keep r request) = request_in (received r) request"
| "pc_ok received (K_build r request) = request_in (received r) request"
| "pc_ok received (K_text r response) = built_for (received r) response"
| "pc_ok received (K_check r text) = is_answer (received r) text"
| "pc_ok received (K_post r text) = is_answer (received r) text"
| "pc_ok received _ = True"

lemma pc_ok_more: "pc_ok received w \<Longrightarrow> (\<And>r. prefix (received r) (received1 r)) \<Longrightarrow> pc_ok received1 w"
  by (cases w) (auto intro: request_in_more built_for_more is_answer_more)

abbreviation received :: "threads \<Rightarrow> nat \<Rightarrow> string" where
  "received t r \<equiv> received_by r (th_received t)"

definition sources_ok :: "threads \<Rightarrow> bool" where
  "sources_ok t \<longleftrightarrow> (\<forall>w \<in> set (th_workers t). pc_ok (received t) w) \<and>
     (\<forall>r < length (sv_heap (th_server t)). suffix (cn_buffer (get_conn r (th_server t))) (received t r) \<and>
        (cn_processing_request (get_conn r (th_server t)) \<longrightarrow>
           is_http_request_complete (cn_buffer (get_conn r (th_server t)))))"

lemma received_append [simp]: "received_by r (rcvd @ [(x, bytes)]) = received_by r rcvd @ (if x = r then bytes else [])"
  by (simp add: received_by_def)

lemma event_received: "event_exec a t = Some t1 \<Longrightarrow> prefix (received t r) (received t1 r)"
  by (cases a) (auto simp: drop_accepted_def Let_def event_idle_def
      split: if_splits event_pc.splits prod.splits append_result.splits sum.splits list.splits)

lemma task_received: "task_exec i a t = Some t1 \<Longrightarrow> th_received t1 = th_received t"
  by (cases a) (auto simp: Let_def split: if_splits task_pc.splits prod.splits sum.splits list.splits option.splits)

definition stored :: "nat \<Rightarrow> threads \<Rightarrow> threads \<Rightarrow> bool" where
  \<comment> \<open>the buffer has got what was received, and is complete when a task for it is begun\<close>
  "stored i t t1 \<longleftrightarrow>
     (\<exists>bytes. cn_buffer (get_conn i (th_server t1)) = cn_buffer (get_conn i (th_server t)) @ bytes \<and>
        received t1 i = received t i @ bytes) \<and>
     (cn_processing_request (get_conn i (th_server t1)) \<longrightarrow> cn_processing_request (get_conn i (th_server t)) \<or>
        is_http_request_complete (cn_buffer (get_conn i (th_server t1))))"

lemma event_stored:
  assumes f: "refs_ok t" and e: "event_exec a t = Some t1" and i: "i < length (sv_heap (th_server t))"
  shows "stored i t t1"
proof (cases a)
  case (Ev_recv bytes now)
  with e obtain fd r where pc: "th_event t = E_recv fd r" by (cases "th_event t") auto
  obtain res s1 where ap: "append_section fd r bytes now (th_server t) = (res, s1)" by fastforce
  have r: "r < length (sv_heap (th_server t))" using refs_okD(3) [OF f, of r] pc by simp
  note sel = append_section_sel(8,9) [OF ap r, of i]
  have c: "res = Appended True \<Longrightarrow> is_http_request_complete (cn_buffer (get_conn r s1))"
    using ap r by (auto simp: append_section_def Let_def get_upd_conn split: if_splits)
  have "th_server t1 = s1"
    "th_received t1 = th_received t @ (if res \<in> {Conn_gone, Too_large} then [] else [(r, bytes)])"
    using pc ap Ev_recv e by (auto split: if_splits append_result.splits)
  with sel c show ?thesis by (cases res) (auto simp: stored_def)
next
  case (Ev_write out)
  with e obtain r where pc: "th_event t = E_write r" by (cases "th_event t") auto
  obtain cl s1 where se: "send_section r out (th_server t) = (cl, s1)" by fastforce
  have r: "r < length (sv_heap (th_server t))" using refs_okD(3) [OF f, of r] pc by simp
  from send_section_sel(7,8) [OF se r, of i] pc se Ev_write e show ?thesis by (auto simp: stored_def split: if_splits)
next
  case Ev_enqueue
  with e show ?thesis by (cases "th_event t") (auto simp: stored_def get_conn_def dest!: enqueue_sel split: sum.splits)
next
  case (Ev_insert now)
  with e i show ?thesis by (cases "th_event t") (auto simp: stored_def)
qed (use e in \<open>auto simp: stored_def event_idle_def drop_accepted_def split: if_splits event_pc.splits list.splits\<close>)

lemma sources_ok_event:
  assumes o: "sources_ok t" and ty: "typed_inv t1" and f: "refs_ok t" and e: "event_exec a t = Some t1"
  shows "sources_ok t1"
proof -
  have w: "th_workers t1 = th_workers t" using event_refs [OF e] by blast
  have "pc_ok (received t1) w" if "w \<in> set (th_workers t1)" for w
    using o that w pc_ok_more [OF _ event_received [OF e]] by (auto simp: sources_ok_def)
  moreover have "suffix (cn_buffer (get_conn r (th_server t1))) (received t1 r) \<and>
      (cn_processing_request (get_conn r (th_server t1)) \<longrightarrow>
         is_http_request_complete (cn_buffer (get_conn r (th_server t1))))"
    if r: "r < length (sv_heap (th_server t1))" for r
  proof (cases "r < length (sv_heap (th_server t))")
    case True
    from event_stored [OF f e True] obtain bytes where b:
      "cn_buffer (get_conn r (th_server t1)) = cn_buffer (get_conn r (th_server t)) @ bytes"
      "received t1 r = received t r @ bytes"
      "cn_processing_request (get_conn r (th_server t1)) \<Longrightarrow> cn_processing_request (get_conn r (th_server t)) \<or>
         is_http_request_complete (cn_buffer (get_conn r (th_server t1)))" by (auto simp: stored_def)
    have "length (cn_buffer (get_conn r (th_server t1))) < 2 ^ 64"
      using ty r by (auto simp: typed_inv_def threads_inv_def buffers_ok_def MAX_REQUEST_SIZE_def)
    with o True b complete_monotone [of "cn_buffer (get_conn r (th_server t))" bytes] show ?thesis
      by (auto simp: sources_ok_def suffix_def)
  next
    case False
    then obtain now where a: "a = Ev_insert now" using event_frame [OF f e] r by (auto simp: server_frame_def)
    then obtain fd where s1: "th_server t1 = add_connection now fd (register fd (th_server t))"
      using e by (cases "th_event t") auto
    then have "r = length (sv_heap (register fd (th_server t)))" using r False by simp
    then have "get_conn r (th_server t1) = new_connection now fd" unfolding s1 by (simp only: get_add_connection)
    then show ?thesis by (simp add: new_connection_def)
  qed
  ultimately show ?thesis by (simp add: sources_ok_def)
qed

lemma task_buffer:
  assumes f: "refs_ok t" and i: "i < length (th_workers t)" and e: "task_exec i a t = Some t1"
  shows "cn_buffer (get_conn j (th_server t1)) = cn_buffer (get_conn j (th_server t)) \<or>
    cn_buffer (get_conn j (th_server t1)) = [] \<and> \<not> cn_processing_request (get_conn j (th_server t1))"
proof (cases "\<exists>r. th_workers t ! i = K_finish r \<and> th_workers t1 ! i = K_idle")
  case True
  then obtain r now where pc: "th_workers t ! i = K_finish r"
    and s1: "th_server t1 = finish_request r now (th_server t)"
    using e i by (cases a) auto
  have "r < length (sv_heap (th_server t))" using refs_okD(4) [OF f nth_mem [OF i], of r] pc by simp
  with s1 show ?thesis by (simp add: task_section_conn)
next
  case False
  have ref: "task_ref (th_workers t ! i) = Some r \<Longrightarrow> r < length (sv_heap (th_server t))" for r
    using refs_okD(4) [OF f nth_mem [OF i]] by simp
  from False e i ref show ?thesis
    by (cases a) (auto simp: Let_def task_section_conn note_keep_alive_conn dest: build_response_sel(6) [where i = j] send_section_sel(7) [where i = j]
        split: if_splits task_pc.splits prod.splits sum.splits list.splits option.splits)
qed

lemma taken_complete:
  assumes "sources_ok t" and "typed_inv t" and "i < length (th_workers t)" and "th_workers t ! i = K_parse r"
  shows "request_in (received t r) (parse_request (cn_buffer (get_conn r (th_server t))))"
proof -
  have inv: "refs_ok t" "tasks_ok t" using assms(2) by (simp_all add: typed_inv_def threads_inv_def)
  have w: "K_parse r \<in> set (th_workers t)" using assms(3,4) by (metis nth_mem)
  then have r: "r < length (sv_heap (th_server t))" using refs_okD(4) [OF inv(1), of "K_parse r" r] by simp
  have "filter (\<lambda>w. task_ref w = Some r) (th_workers t) \<noteq> []"
    using w by (auto simp: filter_empty_conv intro!: bexI [of _ "K_parse r"])
  then have "task_count r t \<noteq> 0" by (simp add: task_count_def)
  then have "cn_processing_request (get_conn r (th_server t))" using inv(2) by (simp add: tasks_ok_def)
  with assms(1) r show ?thesis unfolding sources_ok_def request_in_def by blast
qed

lemma sources_ok_task:
  assumes o: "sources_ok t" and ty: "typed_inv t" and i: "i < length (th_workers t)" and e: "task_exec i a t = Some t1"
  shows "sources_ok t1"
proof -
  have f: "refs_ok t" using ty by (simp add: typed_inv_def threads_inv_def)
  note rcv = task_received [OF e]
  have old: "pc_ok (received t) (th_workers t ! i)" using o nth_mem [OF i] by (simp add: sources_ok_def)
  obtain w where w: "th_workers t1 = (th_workers t)[i := w]" using task_refs [OF e] by blast
  then have wi: "th_workers t1 ! i = w" using i by simp
  note parse = taken_complete [OF o ty i]
  have "pc_ok (received t) w"
    using e wi i old parse
    by (cases a) (auto simp: Let_def intro: is_answerI built_forI
        split: task_pc.splits if_splits option.splits sum.splits prod.splits list.splits)
  then have "\<forall>v \<in> set (th_workers t1). pc_ok (received t1) v"
    using o set_update_subset_insert [of "th_workers t" i w] rcv by (auto simp: sources_ok_def w)
  moreover have "length (sv_heap (th_server t1)) = length (sv_heap (th_server t))"
    using task_frame [OF f i e] by (simp add: server_frame_def)
  moreover have "suffix (cn_buffer (get_conn r (th_server t1))) (received t1 r) \<and>
      (cn_processing_request (get_conn r (th_server t1)) \<longrightarrow>
         is_http_request_complete (cn_buffer (get_conn r (th_server t1))))"
    if "r < length (sv_heap (th_server t))" for r
    using task_buffer [OF f i e, of r] task_conns [OF f i e, of r] o that rcv by (auto simp: sources_ok_def)
  ultimately show ?thesis by (simp add: sources_ok_def)
qed

interpretation all_runs: response_source "\<lambda>t r. is_answer (received t r)" True th_step sources_ok
proof (unfold_locales, goal_cases)
  case (3 t)
  then show ?case by (auto simp: th_init_def sources_ok_def new_threads_def new_server_def)
next
  case (4 t t1)
  have t1: "typed_inv t1" using typed.step_inv 4 by blast
  have f: "refs_ok t" using 4(1) by (simp add: typed_inv_def threads_inv_def)
  from 4(3) show ?case
    using sources_ok_event [OF 4(2) t1 f] sources_ok_task [OF 4(2,1)] by (cases rule: th_step.cases) blast+
next
  case (5 t r resp)
  then show ?case by (fastforce simp: sources_ok_def)
next
  case (6 t t1 r resp)
  from 6(1) have "prefix (received t r) (received t1 r)"
    using event_received task_received by (cases rule: th_step.cases) auto
  with 6(2) is_answer_more show ?case by blast
qed simp_all

interpretation smooth_runs: response_source "\<lambda>t r. is_answer (received t r)" False smooth_step sources_ok
proof (unfold_locales, goal_cases)
  case (4 t t1)
  then show ?case using all_runs.src_step smooth_th_step by blast
next
  case (6 t t1 r resp)
  then show ?case using all_runs.ans_step smooth_th_step by blast
qed (auto simp: smooth_th_step all_runs.src_init all_runs.src_text)

text \<open>C9: Nothing but responses is sent, and to each client only the responses to its own requests.  In every
  interleaving the bytes sent for a connection are beginnings of responses, one after the other, each
  built for a complete request among the bytes received on the same connection; and as long as no
  \<open>send\<close> fails and no response is posted while another is pending, they are whole responses and the
  beginning of one more, without gap or repetition, whichever of the event thread and the workers
  sends them and however the socket cuts them.\<close>

theorem only_responses_sent:
  assumes "reachable th_init th_step t"
  shows "(\<exists>ps. sent_for r (th_sent t) = concat ps \<and> (\<forall>p \<in> set ps. \<exists>a. is_answer (received t r) a \<and> prefix p a)) \<and>
    (reachable th_init smooth_step t \<longrightarrow>
      (\<exists>as p. sent_for r (th_sent t) = concat as @ p \<and> (\<forall>a \<in> set as. is_answer (received t r) a) \<and>
         (p = [] \<or> (\<exists>a. is_answer (received t r) a \<and> prefix p a))))"
proof -
  let ?ans = "is_answer (received t r)"
  obtain ps p where ps: "sent_for r (th_sent t) = concat ps @ p" "\<forall>p \<in> set ps. \<exists>a. ?ans a \<and> prefix p a"
    "p = [] \<or> (\<exists>a. ?ans a \<and> prefix p a)" by (rule all_runs.sent_answers [OF assms, of r]) blast
  then have "\<exists>ps. sent_for r (th_sent t) = concat ps \<and> (\<forall>p \<in> set ps. \<exists>a. ?ans a \<and> prefix p a)"
    by (intro exI [of _ "if p = [] then ps else ps @ [p]"]) auto
  moreover have "\<exists>as p. sent_for r (th_sent t) = concat as @ p \<and> (\<forall>a \<in> set as. ?ans a) \<and>
      (p = [] \<or> (\<exists>a. ?ans a \<and> prefix p a))" if "reachable th_init smooth_step t"
    by (rule smooth_runs.sent_answers [OF that, of r]) blast
  ultimately show ?thesis by blast
qed

fun smooth_run :: "(event_act + nat \<times> task_act) list \<Rightarrow> threads \<Rightarrow> threads option" where
  "smooth_run [] t = Some t"
| "smooth_run (a # acts) t =
     (if smooth_act a t then case run_trace [a] t of None \<Rightarrow> None | Some t1 \<Rightarrow> smooth_run acts t1 else None)"

lemma smooth_run_reachable:
  "reachable th_init smooth_step t \<Longrightarrow> smooth_run acts t = Some t1 \<Longrightarrow> reachable th_init smooth_step t1"
proof (induction acts t rule: smooth_run.induct)
  case (2 a acts t)
  then obtain t2 where t2: "smooth_act a t" "run_trace [a] t = Some t2" "smooth_run acts t2 = Some t1"
    by (auto split: if_splits option.splits)
  then have "smooth_step t t2"
    by (cases a) (auto intro: smooth_step.intros split: option.splits if_splits)
  with 2 t2 show ?case by (blast intro: reachable.next_state)
qed simp

lemma smooth_reachable: "reachable th_init smooth_step t \<Longrightarrow> reachable th_init th_step t"
  by (induction rule: reachable.induct) (auto intro: reachable.intros smooth_th_step)

text \<open>A run: a client sends a request and a worker answers.\<close>

definition received_half :: "(event_act + nat \<times> task_act) list" where
  "received_half = [Inl (Ev_accept 7), Inl Ev_limit, Inl (Ev_insert 0), Inl (Ev_readable 7), Inl (Ev_recv bad_request 0),
     Inl Ev_enqueue, Inr (0, Tk_go), Inr (0, Tk_go), Inr (0, Tk_go)]"

definition answered_half :: "(event_act + nat \<times> task_act) list" where
  "answered_half = [Inr (0, Tk_build ex_env), Inr (0, Tk_text ex_env), Inr (0, Tk_go), Inr (0, Tk_go),
     Inr (0, Tk_send (Sent (length bad_answer)))]"

lemma received_half_run:
  "\<exists>t. smooth_run received_half ex_threads = Some t \<and> th_kernel t = [7 \<mapsto> 0] \<and> th_sent t = [] \<and>
     th_workers t = [K_build 0 (parse_request bad_request)] \<and> find_conn 7 (th_server t) = Some 0 \<and>
     sv_heap (th_server t) = [(new_connection 0 7)\<lparr>cn_buffer := bad_request, cn_processing_request := True\<rparr>]"
  using bad_request_facts
  by (simp add: received_half_def ex_threads_def new_threads_def new_server_def pool_thread_count_def event_idle_def
      at_event_def at_worker_def kernel_close_def register_def do_call_def add_fd_def add_connection_def
      load_max_connections_from_config_def find_conn_def get_conn_def upd_conn_def append_section_def Let_def
      MAX_REQUEST_SIZE_def BUFFER_SIZE_def new_connection_def enqueue_request_def note_keep_alive_def store_data_def)

lemma answered_half_run:
  assumes "th_kernel t = [7 \<mapsto> 0]" and "th_sent t = []" and "th_workers t = [K_build 0 (parse_request bad_request)]"
    and "find_conn 7 (th_server t) = Some 0"
    and "sv_heap (th_server t) = [(new_connection 0 7)\<lparr>cn_buffer := bad_request, cn_processing_request := True\<rparr>]"
  shows "\<exists>t1. smooth_run answered_half t = Some t1 \<and> sent_for 0 (th_sent t1) = bad_answer"
proof -
  let ?x = "create_error_response 0 BAD_REQUEST ''Invalid HTTP request''"
  let ?s = "th_server t"
  have b: "build_response ex_env (parse_request bad_request) ?s = Some (Inr ?x, ?s)"
    using bad_request_facts(2) by (simp add: build_response_def Let_def ex_env_def ex_clocks_def)
  have c: "get_conn 0 ?s = (new_connection 0 7)\<lparr>cn_buffer := bad_request, cn_processing_request := True\<rparr>"
    using assms(5) by (simp add: get_conn_def)
  have r: "response_to_string (re_order ex_env) (set_keep_alive False ?x) = bad_answer"
    by (simp add: bad_answer_def ex_env_def)
  have n: "bad_answer \<noteq> []" unfolding bad_answer_def by (rule response_text_nonempty)
  show ?thesis
    unfolding answered_half_def
    using assms c n
    by (simp add: b r new_connection_def at_worker_def Let_def post_response_def send_possible_def send_section_def
        record_sent_def get_upd_conn reset_pending_def under_way_def sent_for_def)
qed

theorem only_responses_sent_witness:
  "\<exists>t. reachable th_init th_step t \<and> sent_for 0 (th_sent t) = bad_answer \<and>
     (\<exists>as p. bad_answer = concat as @ p \<and> (\<forall>a \<in> set as. is_answer (received t 0) a) \<and>
        (p = [] \<or> (\<exists>a. is_answer (received t 0) a \<and> prefix p a)))"
proof -
  obtain t where t: "smooth_run received_half ex_threads = Some t" "th_kernel t = [7 \<mapsto> 0]" "th_sent t = []"
      "th_workers t = [K_build 0 (parse_request bad_request)]" "find_conn 7 (th_server t) = Some 0"
      "sv_heap (th_server t) = [(new_connection 0 7)\<lparr>cn_buffer := bad_request, cn_processing_request := True\<rparr>]"
    using received_half_run by blast
  obtain t1 where t1: "smooth_run answered_half t = Some t1" "sent_for 0 (th_sent t1) = bad_answer"
    using answered_half_run [OF t(2-)] by blast
  have "reachable th_init smooth_step ex_threads" by (rule reachable.start) (rule ex_threads_init)
  from smooth_run_reachable [OF smooth_run_reachable [OF this t(1)] t1(1)]
  have "reachable th_init smooth_step t1" .
  with only_responses_sent [OF smooth_reachable [OF this], of 0] t1(2) smooth_reachable show ?thesis by metis
qed

end
