(* ===== verification/Server_Stream.thy ===== *)
theory Server_Stream
  imports Server_Delivery
begin

text \<open>
  What a client makes of the bytes it receives, in the interleavings of \<open>Server_Threads\<close> in which no
  \<open>send\<close> fails, no response is posted over another, and the files served do not change: a sequence of
  responses, each of which it can tell from the next.
\<close>

section \<open>Steady runs\<close>

fun steady_act :: "filesystem \<Rightarrow> event_act + nat \<times> task_act \<Rightarrow> bool" where
  \<comment> \<open>walking a hash table visits every entry once\<close>
  "steady_act fs (Inr (_, Tk_build env)) = (re_fs env = fs)"
| "steady_act fs (Inr (_, Tk_text env)) = (\<forall>xs. mset (re_order env xs) = mset xs)"
| "steady_act fs _ = True"

inductive steady_step :: "filesystem \<Rightarrow> threads \<Rightarrow> threads \<Rightarrow> bool" for fs where
  event: "event_exec a t = Some t1 \<Longrightarrow> smooth_act (Inl a) t \<Longrightarrow> steady_step fs t t1"
| task: "i < length (th_workers t) \<Longrightarrow> task_exec i a t = Some t1 \<Longrightarrow> smooth_act (Inr (i, a)) t \<Longrightarrow>
    steady_act fs (Inr (i, a)) \<Longrightarrow> steady_step fs t t1"

lemma steady_smooth: "steady_step fs t t1 \<Longrightarrow> smooth_step t t1"
  by (auto elim!: steady_step.cases intro: smooth_step.intros)

section \<open>Responses that can be read\<close>

definition good_answer :: "string \<Rightarrow> bool" where
  "good_answer text \<longleftrightarrow> (\<exists>response order. response_ok response \<and> (\<forall>xs. mset (order xs) = mset xs) \<and>
     text = response_to_string order response)"

lemma good_answerI:
  "response_ok response \<Longrightarrow> \<forall>xs. mset (order xs) = mset xs \<Longrightarrow>
   good_answer (response_to_string order (set_keep_alive k response))"
  unfolding good_answer_def using response_ok_keep_alive by blast

definition steady_ok :: "filesystem \<Rightarrow> threads \<Rightarrow> bool" where
  "steady_ok fs t \<longleftrightarrow> handler_inv fs (sv_files (th_server t)) \<and> (\<forall>w \<in> set (th_workers t).
     (\<forall>x. pc_text w = Some x \<longrightarrow> good_answer x) \<and> (\<forall>r response. w = K_text r response \<longrightarrow> response_ok response))"

lemma files_sections [simp]:
  "sv_files (register fd s) = sv_files s" "sv_files (add_connection now fd s) = sv_files s"
  "sv_files (note_keep_alive r request s) = sv_files s" "sv_files (post_response r resp s) = sv_files s"
  "sv_files (stop_processing r s) = sv_files s" "sv_files (finish_request r now s) = sv_files s"
  by (simp_all add: register_def add_connection_def do_call_def note_keep_alive_def post_response_def
      stop_processing_def finish_request_def)

lemma files_start [simp]: "sv_files (snd (start_server so s)) = sv_files s"
  by (simp add: start_server_def Let_def do_call_def split: sum.split prod.split)

lemma files_send: "send_section r out s = (cl, s1) \<Longrightarrow> sv_files s1 = sv_files s"
  by (auto simp: send_section_def Let_def split: if_splits send_outcome.splits)

lemma files_append: "append_section fd r bytes now s = (res, s1) \<Longrightarrow> sv_files s1 = sv_files s"
  by (auto simp: append_section_def Let_def split: if_splits)

lemma files_event: "event_exec a t = Some t1 \<Longrightarrow> sv_files (th_server t1) = sv_files (th_server t)"
  by (cases a) (auto simp: drop_accepted_def Let_def dest!: enqueue_sel dest: files_send files_append
      split: if_splits event_pc.splits prod.splits append_result.splits sum.splits list.splits)

lemma files_task:
  "task_exec i a t = Some t1 \<Longrightarrow> \<forall>env. a \<noteq> Tk_build env \<Longrightarrow> sv_files (th_server t1) = sv_files (th_server t)"
  by (cases a) (auto simp: Let_def dest: files_send
      split: if_splits task_pc.splits prod.splits sum.splits list.splits option.splits)

lemma steady_ok_task:
  assumes s: "steady_ok fs t" and i: "i < length (th_workers t)" and e: "task_exec i a t = Some t1"
    and st: "steady_act fs (Inr (i, a))"
  shows "steady_ok fs t1"
proof -
  have h: "handler_inv fs (sv_files (th_server t))" using s by (simp add: steady_ok_def)
  have old: "pc_text (th_workers t ! i) = Some x \<Longrightarrow> good_answer x"
    "th_workers t ! i = K_text r response \<Longrightarrow> response_ok response" for x r response
    using s nth_mem [OF i] unfolding steady_ok_def by blast+
  obtain w where w: "th_workers t1 = (th_workers t)[i := w]" using task_refs [OF e] by blast
  then have wi: "th_workers t1 ! i = w" using i by simp
  have "handler_inv fs (sv_files (th_server t1)) \<and> (\<forall>x. pc_text w = Some x \<longrightarrow> good_answer x) \<and>
    (\<forall>r response. w = K_text r response \<longrightarrow> response_ok response)"
  proof (cases "\<exists>env. a = Tk_build env")
    case True
    then obtain env where a: "a = Tk_build env" by blast
    with e obtain r request response s1 where b: "build_response env request (th_server t) = Some (Inr response, s1)"
      and t1: "t1 = at_worker i (K_text r response) s1 t"
      by (auto split: task_pc.splits option.splits sum.splits prod.splits)
    have "handler_inv (re_fs env) (sv_files (th_server t))" using h st a by simp
    from build_response_ok [OF this, of request] b st a
    have "handler_inv fs (sv_files s1)" "response_ok response" by auto
    with t1 wi i show ?thesis by auto
  next
    case False
    have "pc_text w = Some x \<Longrightarrow> good_answer x" for x
      using e wi i old st False
      by (cases a) (auto simp: Let_def intro: good_answerI
          split: task_pc.splits if_splits option.splits sum.splits prod.splits list.splits)
    moreover have "w = K_text r response \<Longrightarrow> response_ok response" for r response
      using e wi i False
      by (cases a) (auto simp: Let_def
          split: task_pc.splits if_splits option.splits sum.splits prod.splits list.splits)
    ultimately show ?thesis using h files_task [OF e] False by auto
  qed
  then show ?thesis
    using s set_update_subset_insert [of "th_workers t" i w] unfolding steady_ok_def w by blast
qed

abbreviation steady_answer :: "threads \<Rightarrow> nat \<Rightarrow> string \<Rightarrow> bool" where
  "steady_answer t r text \<equiv> is_answer (received t r) text \<and> good_answer text"

interpretation steady_runs: response_source steady_answer False "steady_step fs" "\<lambda>t. sources_ok t \<and> steady_ok fs t" for fs
proof (unfold_locales, goal_cases)
  case (1 t t1)
  then show ?case using steady_smooth smooth_th_step by blast
next
  case (2 t t1)
  then show ?case using steady_smooth by blast
next
  case (3 t)
  then have "steady_ok fs t"
    by (auto simp: th_init_def steady_ok_def new_threads_def new_server_def new_handler_inv)
  with 3 all_runs.src_init show ?case by blast
next
  case (4 t t1)
  then have s: "sources_ok t" "steady_ok fs t" by simp_all
  have "sources_ok t1" using smooth_runs.src_step [OF 4(1) s(1) steady_smooth [OF 4(3)]] .
  moreover from 4(3) have "steady_ok fs t1"
  proof (cases rule: steady_step.cases)
    case (event a)
    with s(2) files_event [OF event(1)] event_refs [OF event(1)] show ?thesis by (simp add: steady_ok_def)
  next
    case (task i a)
    with steady_ok_task [OF s(2)] show ?thesis by blast
  qed
  ultimately show ?case by simp
next
  case (5 t r resp)
  then show ?case using all_runs.src_text by (fastforce simp: steady_ok_def)
next
  case (6 t t1 r resp)
  then show ?case using smooth_runs.ans_step [OF steady_smooth] by blast
qed

section \<open>The stream of one connection\<close>

inductive client_stream :: "string \<Rightarrow> (string \<times> (string \<times> string) list \<times> string) list \<Rightarrow> string \<Rightarrow> bool" where
  \<comment> \<open>what a client reads from a stream, response by response, and what is left\<close>
  stop: "client_stream rest [] rest"
| read: "client_read bytes = Some (line, headers, body, rest) \<Longrightarrow> client_stream rest responses left \<Longrightarrow>
    client_stream bytes ((line, headers, body) # responses) left"

lemma good_answer_read:
  assumes "good_answer a" and "length a < 2 ^ 64"
  shows "\<exists>line headers body. client_read (a @ rest) = Some (line, headers, body, rest)"
proof -
  obtain response order where a: "response_ok response" "\<And>xs. mset (order xs) = mset xs"
    "a = response_to_string order response" using assms(1) by (auto simp: good_answer_def)
  have "length (rs_body response) \<le> length a" by (simp add: a(3) response_to_string_def)
  with assms(2) have "length (rs_body response) < 2 ^ 64" by simp
  with response_readable [of response order rest] a show ?thesis by (auto simp: response_ok_def to_bytes_def)
qed

lemma stream_answers:
  "\<forall>a \<in> set as. good_answer a \<and> length a < 2 ^ 64 \<Longrightarrow> \<exists>responses. length responses = length as \<and>
     client_stream (concat as @ p) responses p"
proof (induction as)
  case Nil
  then show ?case by (auto intro: client_stream.stop)
next
  case (Cons a as)
  then obtain responses where r: "length responses = length as" "client_stream (concat as @ p) responses p" by auto
  obtain line headers body where "client_read (a @ concat as @ p) = Some (line, headers, body, concat as @ p)"
    using good_answer_read [of a "concat as @ p"] Cons.prems by auto
  from client_stream.read [OF this r(2)] r(1) show ?case by (intro exI [of _ "(line, headers, body) # responses"]) simp
qed

text \<open>C10: The stream a client receives is in frame, in every interleaving in which no \<open>send\<close> fails, no
  response is posted over another and the files do not change: reading response by response, each by
  its status line, headers and \<open>Content-Length\<close>, the client gets one for each answer to a request of
  its own, and uses up everything but the beginning of one more.  That more than one thread sends on
  a connection, and that sockets take what they like, does not show.\<close>

theorem stream_in_frame:
  assumes "reachable th_init (steady_step fs) t" and "length (sent_for r (th_sent t)) < 2 ^ 64"
  shows "\<exists>as responses p. sent_for r (th_sent t) = concat as @ p \<and> (\<forall>a \<in> set as. is_answer (received t r) a) \<and>
    length responses = length as \<and> client_stream (sent_for r (th_sent t)) responses p \<and>
    (p = [] \<or> (\<exists>a. is_answer (received t r) a \<and> prefix p a))"
proof -
  obtain as p where s: "sent_for r (th_sent t) = concat as @ p" "\<forall>a \<in> set as. steady_answer t r a"
    "p = [] \<or> (\<exists>a. steady_answer t r a \<and> prefix p a)" by (rule steady_runs.sent_answers [OF assms(1), of r]) blast
  have "length a < 2 ^ 64" if "a \<in> set as" for a
  proof -
    have "length a \<le> length (concat as)" using that by (auto simp: length_concat intro: member_le_sum_list)
    with s(1) assms(2) show ?thesis by simp
  qed
  with s(2) stream_answers [of as p] obtain responses where
    "length responses = length as" "client_stream (concat as @ p) responses p" by blast
  with s show ?thesis by (metis (no_types, lifting))
qed

lemma steady_run_reachable:
  "reachable th_init (steady_step fs) t \<Longrightarrow> smooth_run acts t = Some t1 \<Longrightarrow> \<forall>a \<in> set acts. steady_act fs a \<Longrightarrow>
   reachable th_init (steady_step fs) t1"
proof (induction acts t rule: smooth_run.induct)
  case (2 a acts t)
  then obtain t2 where t2: "smooth_act a t" "run_trace [a] t = Some t2" "smooth_run acts t2 = Some t1"
    by (auto split: if_splits option.splits)
  then have "steady_step fs t t2"
    using 2(4) by (cases a) (auto intro: steady_step.intros split: option.splits if_splits)
  with 2 t2 show ?case by (auto intro: reachable.next_state)
qed simp

lemma length_dec_digits: "length (dec_digits n) \<le> Suc n"
proof (induction n rule: dec_digits.induct)
  case (1 n)
  show ?case
  proof (cases "n < 10")
    case False
    with 1 have "length (dec_digits (n div 10)) \<le> Suc (n div 10)" by simp
    moreover have "n div 10 < n" using False by simp
    ultimately show ?thesis using False by (subst dec_digits.simps) simp
  qed (subst dec_digits.simps, simp)
qed

lemma first_date: "format_date 0 = ''Thu, 01 Jan 1970 00:00:00 GMT''"
  by (simp add: format_date_def split_year.simps year_length_def leap_year_def month_lengths_def day_names_def
      month_names_def two_digits_def dec_digits.simps char_eval)

lemma bad_answer_short: "length bad_answer < 2 ^ 64"
proof -
  define b where "b = error_body BAD_REQUEST ''Invalid HTTP request''"
  have "length b \<le> 1000" unfolding b_def by code_simp
  moreover have "length bad_answer \<le> 1000 + length b + length (dec_digits (length b))"
    by (simp add: bad_answer_def create_error_response_def b_def [symmetric] response_to_string_def status_line_def
        set_keep_alive_def set_content_type_def set_content_length_def set_body_def new_response_def
        set_default_headers_def set_header_def first_date dec_digits.simps char_eval crlf_def Let_def)
  ultimately show ?thesis using length_dec_digits [of "length b"] by simp
qed

theorem stream_in_frame_witness:
  "\<exists>t as responses p. reachable th_init (steady_step ex_fs) t \<and> sent_for 0 (th_sent t) = bad_answer \<and>
     bad_answer = concat as @ p \<and> length responses = length as \<and> client_stream bad_answer responses p"
proof -
  obtain t where t: "smooth_run received_half ex_threads = Some t" "th_kernel t = [7 \<mapsto> 0]" "th_sent t = []"
      "th_workers t = [K_build 0 (parse_request bad_request)]" "find_conn 7 (th_server t) = Some 0"
      "sv_heap (th_server t) = [(new_connection 0 7)\<lparr>cn_buffer := bad_request, cn_processing_request := True\<rparr>]"
    using received_half_run by blast
  obtain t1 where t1: "smooth_run answered_half t = Some t1" "sent_for 0 (th_sent t1) = bad_answer"
    using answered_half_run [OF t(2-)] by blast
  have "reachable th_init (steady_step ex_fs) ex_threads" by (rule reachable.start) (rule ex_threads_init)
  from steady_run_reachable [OF this t(1)] have "reachable th_init (steady_step ex_fs) t" by (simp add: received_half_def)
  from steady_run_reachable [OF this t1(1)] have r: "reachable th_init (steady_step ex_fs) t1"
    by (simp add: answered_half_def ex_env_def)
  with bad_answer_short stream_in_frame [OF r, of 0] t1(2) r show ?thesis by metis
qed

end
