(* ===== verification/Lock_Order.thy ===== *)
theory Lock_Order
  imports Interfaces
begin

text \<open>
  The order in which the threads of \<open>src/server.cpp\<close> take their mutexes.  A function is seen as the
  sequence of lock and unlock operations of one of its paths; a thread runs a sequence of such
  paths.  \<open>Conn r\<close> is the mutex of the connection object \<open>r\<close>, \<open>Map\<close> is \<open>connections_mutex_\<close>,
  \<open>Queue\<close> that of the thread pool, \<open>Cache\<close> that of the file cache, \<open>Fd_data\<close> that of the epoll
  wrapper; the last three are leaves: no other mutex is taken while one is held.  A \<open>std::mutex\<close>
  is not recursive.
\<close>

section \<open>The functions\<close>

datatype lock = Map | Conn nat | Queue | Cache | Fd_data

datatype lock_act = Acq lock | Rel lock

abbreviation leaf :: "lock \<Rightarrow> lock_act list" where
  "leaf l \<equiv> [Acq l, Rel l]"

definition close_locks :: "nat option \<Rightarrow> lock_act list" where
  \<comment> \<open>\<open>close_connection\<close>: the connection the map has for the descriptor\<close>
  "close_locks found =
     (case found of None \<Rightarrow> [Acq Map, Rel Map] | Some r \<Rightarrow> [Acq Map, Acq (Conn r), Rel (Conn r), Rel Map] @ leaf Fd_data)"

definition send_locks :: "nat \<Rightarrow> nat option option \<Rightarrow> lock_act list" where
  \<comment> \<open>\<open>send_response_async\<close>, and \<open>close_connection\<close> if it is called\<close>
  "send_locks r closing = leaf (Conn r) @ (case closing of None \<Rightarrow> [] | Some found \<Rightarrow> close_locks found)"

definition write_locks :: "nat option \<Rightarrow> nat option option \<Rightarrow> lock_act list" where
  \<comment> \<open>\<open>handle_client_write\<close>\<close>
  "write_locks found closing = leaf Map @ (case found of None \<Rightarrow> [] | Some r \<Rightarrow> send_locks r closing)"

definition cleanup_locks :: "nat list \<Rightarrow> nat option list \<Rightarrow> lock_act list" where
  \<comment> \<open>\<open>cleanup_inactive_connections\<close>: all connections under the lock of the map, then the closing\<close>
  "cleanup_locks rs closed = Acq Map # concat (map (\<lambda>r. leaf (Conn r)) rs) @ [Rel Map] @ concat (map close_locks closed)"

definition accept_locks :: "bool \<Rightarrow> lock_act list" where
  \<comment> \<open>one round of \<open>handle_accept\<close>: the limit, then the insertion\<close>
  "accept_locks admitted = leaf Map @ (if admitted then leaf Map else [])"

definition request_locks :: "nat \<Rightarrow> bool \<Rightarrow> lock list \<Rightarrow> bool \<Rightarrow> nat option option \<Rightarrow> lock_act list" where
  \<comment> \<open>\<open>handle_client_request\<close>; \<open>leaves\<close>: what building the response takes\<close>
  "request_locks r valid leaves gone closing =
     leaf (Conn r) @ (if valid then leaf (Conn r) else []) @ concat (map leaf leaves) @
     (if gone then [Acq Map, Acq (Conn r), Rel (Conn r), Rel Map]
      else leaf Map @ leaf (Conn r) @ send_locks r closing @ leaf (Conn r))"

datatype data_path =
    Not_found
  | Recv_failed "nat option"
  | Gone
  | Oversized
  | Buffered bool   \<comment> \<open>whether a task is queued\<close>

definition data_locks :: "nat \<Rightarrow> data_path \<Rightarrow> lock_act list" where
  \<comment> \<open>\<open>handle_client_data\<close>\<close>
  "data_locks r path = leaf Map @
     (case path of
        Not_found \<Rightarrow> []
      | Recv_failed found \<Rightarrow> close_locks found
      | Gone \<Rightarrow> [Acq (Conn r), Acq Map, Rel Map, Rel (Conn r)]
      | Oversized \<Rightarrow> [Acq (Conn r), Acq Map, Rel Map, Acq Map, Rel Map] @ leaf Fd_data @ [Rel (Conn r)]
      | Buffered queued \<Rightarrow> [Acq (Conn r), Acq Map, Rel Map, Rel (Conn r)] @ (if queued then leaf Queue else []))"

definition stop_locks :: "nat \<Rightarrow> lock_act list" where
  \<comment> \<open>the clean-up of \<open>stop\<close> for \<open>n\<close> connections, then the server's own descriptor\<close>
  "stop_locks n = Acq Map # concat (replicate n (leaf Fd_data)) @ [Rel Map] @ leaf Fd_data"

inductive code_path :: "lock_act list \<Rightarrow> bool" where
  \<comment> \<open>every path but those of \<open>handle_client_data\<close> that lock the connection\<close>
  "code_path (close_locks found)"
| "code_path (write_locks found closing)"
| "code_path (cleanup_locks rs closed)"
| "code_path (accept_locks admitted)"
| "set leaves \<subseteq> {Queue, Cache, Map} \<Longrightarrow> code_path (request_locks r valid leaves gone closing)"
| "code_path (data_locks r Not_found)"
| "code_path (data_locks r (Recv_failed found))"
| "code_path (stop_locks n)"
| "l \<in> {Queue, Fd_data} \<Longrightarrow> code_path (leaf l)"   \<comment> \<open>the pool; \<open>wait_for_events\<close>\<close>

section \<open>Runs\<close>

type_synonym lock_thread = "lock list \<times> lock_act list"
  \<comment> \<open>the mutexes held, the operations still to come\<close>

definition free :: "lock \<Rightarrow> lock_thread list \<Rightarrow> bool" where
  "free l ts \<longleftrightarrow> (\<forall>(held, p) \<in> set ts. l \<notin> set held)"

inductive lock_step :: "lock_thread list \<Rightarrow> lock_thread list \<Rightarrow> bool" where
  acquire: "i < length ts \<Longrightarrow> ts ! i = (held, Acq l # p) \<Longrightarrow> free l ts \<Longrightarrow> lock_step ts (ts[i := (l # held, p)])"
| release: "i < length ts \<Longrightarrow> ts ! i = (held, Rel l # p) \<Longrightarrow> lock_step ts (ts[i := (remove1 l held, p)])"

section \<open>Acyclic orders do not deadlock\<close>

fun rank :: "lock \<Rightarrow> nat" where
  "rank Map = 0"
| "rank (Conn r) = 1"
| "rank Queue = 2"
| "rank Cache = 2"
| "rank Fd_data = 2"

fun ordered :: "lock list \<Rightarrow> lock_act list \<Rightarrow> bool" where
  \<comment> \<open>every mutex taken ranks above those held, and all are released in the end\<close>
  "ordered held [] \<longleftrightarrow> held = []"
| "ordered held (Acq l # p) \<longleftrightarrow> (\<forall>h \<in> set held. rank h < rank l) \<and> ordered (l # held) p"
| "ordered held (Rel l # p) \<longleftrightarrow> l \<in> set held \<and> ordered (remove1 l held) p"

definition all_ordered :: "lock_thread list \<Rightarrow> bool" where
  "all_ordered ts \<longleftrightarrow> (\<forall>(held, p) \<in> set ts. ordered held p)"

lemma ordered_append: "ordered held p \<Longrightarrow> ordered [] q \<Longrightarrow> ordered held (p @ q)"
  by (induction held p rule: ordered.induct) auto

lemma ordered_concat: "\<forall>p \<in> set ps. ordered [] p \<Longrightarrow> ordered [] (concat ps)"
  by (induction ps) (auto intro: ordered_append)

lemma ordered_leaf [simp]: "ordered [] (leaf l)"
  by simp

lemma all_ordered_step:
  assumes "all_ordered ts" and "lock_step ts ts1"
  shows "all_ordered ts1"
  using assms(2)
proof (cases rule: lock_step.cases)
  case (acquire i held l p)
  then have "(held, Acq l # p) \<in> set ts" by (metis nth_mem)
  with assms(1) have "ordered (l # held) p" by (auto simp: all_ordered_def)
  with assms(1) acquire show ?thesis
    using set_update_subset_insert [of ts i "(l # held, p)"] by (fastforce simp: all_ordered_def)
next
  case (release i held l p)
  then have "(held, Rel l # p) \<in> set ts" by (metis nth_mem)
  with assms(1) have "ordered (remove1 l held) p" by (auto simp: all_ordered_def)
  with assms(1) release show ?thesis
    using set_update_subset_insert [of ts i "(remove1 l held, p)"] by (fastforce simp: all_ordered_def)
qed

lemma ordered_progress:
  assumes "all_ordered ts" and "(held, a # p) \<in> set ts"
  shows "\<exists>ts1. lock_step ts ts1"
proof (rule ccontr)
  assume no: "\<nexists>ts1. lock_step ts ts1"
  have waits: "\<exists>l. b = Acq l \<and> \<not> free l ts" if "(h, b # q) \<in> set ts" for h b q
  proof -
    obtain i where i: "i < length ts" "ts ! i = (h, b # q)" using \<open>(h, b # q) \<in> set ts\<close> by (auto simp: in_set_conv_nth)
    with no lock_step.acquire [of i ts h _ q] lock_step.release [of i ts h _ q] show ?thesis by (cases b) blast+
  qed
  define W where "W = rank ` {l. \<exists>h q. (h, Acq l # q) \<in> set ts}"
  have "W \<subseteq> {0..2}"
  proof
    fix n assume "n \<in> W"
    then obtain l where "n = rank l" by (auto simp: W_def)
    then show "n \<in> {0..2}" by (cases l) auto
  qed
  then have fin: "finite W" by (rule finite_subset) simp
  obtain l0 where "a = Acq l0" using waits [OF assms(2)] by blast
  then have "rank l0 \<in> W" using assms(2) by (auto simp: W_def)
  then have "Max W \<in> W" using Max_in [OF fin] by blast
  then obtain l h q where l: "(h, Acq l # q) \<in> set ts" "rank l = Max W" by (auto simp: W_def)
  then obtain h1 q1 where o: "(h1, q1) \<in> set ts" "l \<in> set h1" using waits [OF l(1)] by (auto simp: free_def)
  then have ord: "ordered h1 q1" using assms(1) by (auto simp: all_ordered_def)
  with o(2) obtain b q2 where q1: "q1 = b # q2" by (cases q1) auto
  with waits [of h1 b q2] o(1) obtain l1 where b: "b = Acq l1" by blast
  with ord o(2) q1 have "rank l < rank l1" by simp
  moreover have "rank l1 \<in> W" using o(1) q1 b by (auto simp: W_def)
  then have "rank l1 \<le> Max W" using Max_ge [OF fin] by blast
  ultimately show False using l(2) by simp
qed

lemma ordered_code_path: "code_path p \<Longrightarrow> ordered [] p"
proof (induction rule: code_path.induct)
  case (3 rs closed)
  have c: "ordered [] (concat (map close_locks closed))"
    by (rule ordered_concat) (auto simp: close_locks_def split: option.split)
  have "ordered [Map] (concat (map (\<lambda>r. leaf (Conn r)) rs) @ Rel Map # concat (map close_locks closed))"
    using c by (induction rs) auto
  then show ?case by (simp add: cleanup_locks_def)
next
  case (5 leaves r valid gone closing)
  have "ordered [] (concat (map leaf leaves))" by (rule ordered_concat) auto
  moreover have "ordered [] (send_locks r closing @ leaf (Conn r))"
    by (auto simp: send_locks_def close_locks_def split: option.split)
  ultimately show ?case
    by (auto simp: request_locks_def intro!: ordered_append)
next
  case (8 n)
  have "ordered [Map] (concat (replicate n (leaf Fd_data)) @ [Rel Map] @ leaf Fd_data)" by (induction n) auto
  then show ?case by (simp add: stop_locks_def)
qed (auto simp: close_locks_def write_locks_def send_locks_def accept_locks_def data_locks_def split: option.split)

definition locks_init :: "lock_thread list \<Rightarrow> bool" where
  \<comment> \<open>any number of threads, each about to run any sequence of paths\<close>
  "locks_init ts \<longleftrightarrow> (\<forall>(held, p) \<in> set ts. held = [] \<and> (\<exists>ps. p = concat ps \<and> (\<forall>q \<in> set ps. code_path q)))"

interpretation locks: inductive_invariant locks_init lock_step all_ordered
proof
  fix ts assume i: "locks_init ts"
  have "ordered held p" if "(held, p) \<in> set ts" for held p
  proof -
    from i that obtain ps where "held = []" "p = concat ps" "\<forall>q \<in> set ps. code_path q"
      unfolding locks_init_def by blast
    then show ?thesis by (simp add: ordered_concat ordered_code_path)
  qed
  then show "all_ordered ts" by (auto simp: all_ordered_def)
qed (rule all_ordered_step)

text \<open>C14: All of the server's threads but for one function cannot deadlock: however many threads run
  whatever sequences of the other paths, as long as one of them has something left to do, one of
  them can go on.  The order is: the map, then one connection, then a leaf.\<close>

theorem other_paths_never_deadlock:
  assumes "reachable locks_init lock_step ts" and "(held, a # p) \<in> set ts"
  shows "\<exists>ts1. lock_step ts ts1"
  using ordered_progress [OF locks.reachable_inv [OF assms(1)] assms(2)] .

theorem other_paths_never_deadlock_witness:
  "\<exists>ts1. lock_step [([], request_locks 0 True [Cache] True None), ([], close_locks (Some 0))] ts1"
proof -
  let ?ts = "[([], request_locks 0 True [Cache] True None), ([], close_locks (Some 0))]"
  have "code_path (request_locks 0 True [Cache] True None)" "code_path (close_locks (Some 0))"
    by (auto intro: code_path.intros)
  then have "locks_init ?ts"
    by (auto simp: locks_init_def intro!: exI [where x = "[_]"])
  then have "reachable locks_init lock_step ?ts" by (rule reachable.start)
  moreover have "([], Acq Map # tl (close_locks (Some 0))) \<in> set ?ts" by (simp add: close_locks_def)
  ultimately show ?thesis by (rule other_paths_never_deadlock)
qed

section \<open>A deadlock\<close>

definition deadlocked :: "nat \<Rightarrow> nat \<Rightarrow> lock_thread list \<Rightarrow> bool" where
  \<comment> \<open>each of the two waits for what the other holds\<close>
  "deadlocked i j ts \<longleftrightarrow> i < length ts \<and> j < length ts \<and> i \<noteq> j \<and>
     (\<exists>l m h1 p1 h2 p2. ts ! i = (h1, Acq l # p1) \<and> m \<in> set h1 \<and> ts ! j = (h2, Acq m # p2) \<and> l \<in> set h2)"

lemma waiting_stays:
  assumes "lock_step ts ts1" and "ts ! k = (h, Acq l # q)" and "\<not> free l ts"
  shows "ts1 ! k = ts ! k \<and> length ts1 = length ts"
  using assms(1)
proof (cases rule: lock_step.cases)
  case (acquire i held m p)
  with assms(2,3) have "i \<noteq> k" by auto
  with acquire show ?thesis by simp
next
  case (release i held m p)
  with assms(2) have "i \<noteq> k" by auto
  with release show ?thesis by simp
qed

lemma deadlocked_step:
  assumes "deadlocked i j ts" and "lock_step ts ts1"
  shows "deadlocked i j ts1 \<and> ts1 ! i = ts ! i \<and> ts1 ! j = ts ! j"
proof -
  obtain l m h1 p1 h2 p2 where d: "i < length ts" "j < length ts" "i \<noteq> j" "ts ! i = (h1, Acq l # p1)" "m \<in> set h1"
      "ts ! j = (h2, Acq m # p2)" "l \<in> set h2"
    using assms(1) unfolding deadlocked_def by blast
  have f: "\<not> free l ts" "\<not> free m ts" using d nth_mem [OF d(1)] nth_mem [OF d(2)] by (fastforce simp: free_def)+
  from waiting_stays [OF assms(2) d(4) f(1)] waiting_stays [OF assms(2) d(6) f(2)] d show ?thesis
    unfolding deadlocked_def by auto
qed

lemma deadlocked_forever:
  "lock_step\<^sup>*\<^sup>* ts ts1 \<Longrightarrow> deadlocked i j ts \<Longrightarrow> deadlocked i j ts1 \<and> ts1 ! i = ts ! i \<and> ts1 ! j = ts ! j"
  by (induction rule: rtranclp_induct) (auto dest: deadlocked_step)

text \<open>C15: The event thread and a worker can lock each other out for ever.  \<open>handle_client_data\<close> holds the mutex of
  the connection when it looks into the map again; \<open>close_connection\<close> holds the map when it locks the
  connection.  When a client sends more data while a worker closes its connection, the two can stop
  for good, and with them, since the map stays locked, every thread that needs the map.\<close>

theorem data_close_deadlock:
  assumes "path \<in> {Gone, Oversized, Buffered queued}"
  shows "\<exists>ts. lock_step\<^sup>*\<^sup>* (([], data_locks r path) # ([], close_locks (Some r)) # map (Pair []) ps) ts \<and>
    (\<forall>ts1. lock_step\<^sup>*\<^sup>* ts ts1 \<longrightarrow> deadlocked 0 1 ts1 \<and> \<not> free Map ts1)"
proof -
  let ?rest = "map (Pair []) ps :: lock_thread list"
  obtain p where p: "data_locks r path = Acq Map # Rel Map # Acq (Conn r) # Acq Map # p"
    using assms by (auto simp: data_locks_def)
  let ?q = "[Rel (Conn r), Rel Map] @ leaf Fd_data"
  have c: "close_locks (Some r) = Acq Map # Acq (Conn r) # ?q" by (simp add: close_locks_def)
  let ?t0 = "([], data_locks r path) # ([], close_locks (Some r)) # ?rest"
  let ?t1 = "([Map], Rel Map # Acq (Conn r) # Acq Map # p) # ([], close_locks (Some r)) # ?rest"
  let ?t2 = "([], Acq (Conn r) # Acq Map # p) # ([], close_locks (Some r)) # ?rest"
  let ?t3 = "([Conn r], Acq Map # p) # ([], close_locks (Some r)) # ?rest"
  let ?t4 = "([Conn r], Acq Map # p) # ([Map], Acq (Conn r) # ?q) # ?rest"
  have "lock_step ?t0 ?t1" using lock_step.acquire [of 0 ?t0 "[]" Map] by (simp add: p free_def)
  moreover have "lock_step ?t1 ?t2" using lock_step.release [of 0 ?t1 "[Map]" Map] by simp
  moreover have "lock_step ?t2 ?t3" using lock_step.acquire [of 0 ?t2 "[]" "Conn r"] by (simp add: free_def)
  moreover have "lock_step ?t3 ?t4" using lock_step.acquire [of 1 ?t3 "[]" Map] by (simp add: c free_def)
  ultimately have "lock_step\<^sup>*\<^sup>* ?t0 ?t4" by (meson converse_rtranclp_into_rtranclp rtranclp.rtrancl_refl)
  moreover have d: "deadlocked 0 1 ?t4" by (simp add: deadlocked_def)
  moreover have "\<not> free Map ts1" if "lock_step\<^sup>*\<^sup>* ?t4 ts1" for ts1
  proof -
    from deadlocked_forever [OF that d] have "ts1 ! 1 = ([Map], Acq (Conn r) # ?q)" "1 < length ts1"
      by (simp_all add: deadlocked_def)
    then show ?thesis using nth_mem [of 1 ts1] by (fastforce simp: free_def)
  qed
  ultimately show ?thesis using deadlocked_forever by blast
qed

theorem data_close_deadlock_witness:
  "\<exists>ts. lock_step\<^sup>*\<^sup>* [([], data_locks 3 (Buffered False)), ([], close_locks (Some 3))] ts \<and> deadlocked 0 1 ts"
  using data_close_deadlock [of "Buffered False" False 3 "[]"] by auto

end
