(* ===== verification/Program.thy ===== *)
theory Program
  imports Server Main_Args
begin

text \<open>
  The program as a whole: \<open>src/main.cpp\<close> around \<open>Server::start\<close>, \<open>Server::stop\<close> and the destructor.
  While \<open>main\<close> sleeps the other threads run: \<open>polls\<close> are the answers its calls of \<open>is_running\<close> get.
\<close>

definition SIGINT :: nat where "SIGINT = 2"
definition SIGTERM :: nat where "SIGTERM = 15"

definition signal_handler :: "nat \<Rightarrow> server option \<Rightarrow> server option" where
  \<comment> \<open>\<open>server_instance\<close> is null until it has been made\<close>
  "signal_handler signal server_instance =
     (if signal = SIGINT \<or> signal = SIGTERM then map_option stop_server server_instance else server_instance)"

definition main_start :: "string list \<Rightarrow> string option \<Rightarrow> nat \<Rightarrow> start_outcomes \<Rightarrow> int option \<times> server" where
  \<comment> \<open>up to the loop; the exit code if \<open>main\<close> returns before it\<close>
  "main_start args config_file hardware so =
     (let s = new_server config_file (unat (parse_thread_count args)) hardware (parse_port args) ''0.0.0.0''
      in case start_server so s of
           (started, s1) \<Rightarrow> (if started then None else Some 1, s1))"

section \<open>The function \<open>main\<close>\<close>

definition port_warning :: "string list \<Rightarrow> string list" where
  "port_warning args =
     (case args of
        [] \<Rightarrow> []
      | a # _ \<Rightarrow>
          (case stoi a of
             Inl _ \<Rightarrow> [''Invalid port argument. Using default port 8080.'']
           | Inr port \<Rightarrow>
               if port \<le> 0 \<or> 65535 < port then [''Invalid port number. Using default port 8080.''] else []))"

definition thread_count_warning :: "string list \<Rightarrow> string list" where
  "thread_count_warning args =
     (case args of
        _ # a # _ \<Rightarrow>
          (case stoull a of
             Inl _ \<Rightarrow> [''Invalid thread count argument. Using auto-detect.'']
           | Inr n \<Rightarrow> if 128 < n then [''Thread count too high. Using auto-detect.''] else [])
      | _ \<Rightarrow> [])"

definition banner :: "string list \<Rightarrow> string" where
  "banner args =
     ''Starting high-performance HTTP server on port '' @ dec_digits (nat (parse_port args)) @
     (if 0 < parse_thread_count args
      then '' with '' @ dec_digits (unat (parse_thread_count args)) @ '' threads'' else []) @ ''...''"

fun main_wait :: "bool list \<Rightarrow> bool" where
  \<comment> \<open>whether the loop has ended by the last poll\<close>
  "main_wait [] = False"
| "main_wait (is_running # polls) = (if is_running then main_wait polls else True)"

definition main_run :: "string list \<Rightarrow> string option \<Rightarrow> nat \<Rightarrow> start_outcomes \<Rightarrow> bool list \<Rightarrow>
    string list \<times> string list \<times> int option" where
  \<comment> \<open>the lines on the output and on the error stream, and the exit code if it has returned\<close>
  "main_run args config_file hardware so polls =
     (let err = port_warning args @ thread_count_warning args
      in case main_start args config_file hardware so of
           (Some code, _) \<Rightarrow> ([banner args], err @ [''Failed to start server''], Some code)
         | (None, _) \<Rightarrow>
             (let out = [banner args, ''Server started successfully with epoll + thread pool.'', ''Press Ctrl+C to stop.'']
              in if main_wait polls then (out @ [''Server stopped.''], err, Some 0) else (out, err, None)))"

definition destroy_server :: "server \<Rightarrow> server" where
  \<comment> \<open>\<open>~Server\<close>: after \<open>stop\<close>, the destructors of the pool, which shuts it down, and of the wrapper\<close>
  "destroy_server s =
     (let s1 = (stop_server s)\<lparr>sv_pool_shutdown := True, sv_thread_count := 0\<rparr>
      in case epoll_destroy (sv_epoll s1) of None \<Rightarrow> s1 | Some fd \<Rightarrow> do_call (Sys_close fd) s1)"

lemma main_wait_iff: "main_wait polls \<longleftrightarrow> False \<in> set polls"
  by (induction polls rule: main_wait.induct) auto

lemma port_warning_iff: "port_warning args = [] \<longleftrightarrow> (args \<noteq> [] \<longrightarrow> stoi (args ! 0) = Inr (parse_port args))"
  by (auto simp: port_warning_def parse_port_def split: list.split sum.split)

lemma thread_count_warning_iff:
  "thread_count_warning args = [] \<longleftrightarrow> (1 < length args \<longrightarrow> stoull (args ! 1) = Inr (parse_thread_count args))"
proof -
  have "\<not> (128 :: u64) < 0" by simp
  then show ?thesis by (auto simp: thread_count_warning_def parse_thread_count_def split: list.split sum.split)
qed

section \<open>Starting\<close>

definition start_succeeds :: "start_outcomes \<Rightarrow> bool" where
  \<comment> \<open>every call on the way returns success\<close>
  "start_succeeds so \<longleftrightarrow> (\<exists>fd. so_socket so = Inr fd) \<and> (\<exists>flags. so_getfl so = Inr flags) \<and> so_setfl so = None \<and>
     so_reuseaddr so = None \<and> so_bind so = None \<and> so_listen so = None \<and>
     (\<exists>efd. so_epoll_create so = Inr efd) \<and> so_epoll_add so = None"

fun closed_fds :: "syscall list \<Rightarrow> int list" where
  \<comment> \<open>the descriptors closed, in order\<close>
  "closed_fds [] = []"
| "closed_fds (Sys_close fd # cs) = fd # closed_fds cs"
| "closed_fds (_ # cs) = closed_fds cs"

lemma closed_fds_append [simp]: "closed_fds (xs @ ys) = closed_fds xs @ closed_fds ys"
proof (induction xs)
  case (Cons c xs)
  then show ?case by (cases c) simp_all
qed simp

lemma start_server_cases:
  assumes "start_server so s = (started, s1)"
  shows "started = start_succeeds so"
    and "started \<Longrightarrow> sv_running s1 \<and> so_socket so = Inr (sv_server_fd s1) \<and>
      sv_calls s1 = sv_calls s @ [Sys_epoll_add (sv_server_fd s1) EPOLLIN]"
    and "\<not> started \<Longrightarrow> sv_running s1 = sv_running s \<and>
      closed_fds (sv_calls s1) = closed_fds (sv_calls s) @ (case so_socket so of Inl _ \<Rightarrow> [] | Inr fd \<Rightarrow> [fd])"
    and "sv_port s1 = sv_port s \<and> sv_max_connections s1 = sv_max_connections s \<and> sv_connections s1 = sv_connections s \<and>
      sv_thread_count s1 = sv_thread_count s"
  using assms
  by (auto simp: start_server_def start_succeeds_def Let_def do_call_def set_non_blocking_def epoll_init_def add_fd_def
      split: sum.splits option.splits if_splits prod.splits)

text \<open>C40: The program starts or gives up cleanly.  Whatever its arguments and the configuration file are, it
  tries to serve on a valid port with a valid limit and at least one thread; it runs exactly if
  every system call succeeds, with the listening socket registered, and otherwise exits with code 1
  after closing the one socket it may have made.  Once it runs, \<open>main\<close> returns with code 0 exactly
  when it finds the server no longer running; it complains on the error stream about what it could
  not use and about nothing else.\<close>

theorem program_starts_or_exits:
  assumes "main_start args config_file hardware so = (code, s)"
    and "main_run args config_file hardware so polls = (out, err, result)"
  shows "1 \<le> sv_port s \<and> sv_port s \<le> 65535 \<and> 1 \<le> sv_max_connections s \<and> sv_max_connections s \<le> 100000 \<and>
    0 < sv_thread_count s \<and> sv_connections s = [] \<and>
    (if start_succeeds so
     then code = None \<and> sv_running s \<and> so_socket so = Inr (sv_server_fd s) \<and>
       sv_calls s = [Sys_epoll_add (sv_server_fd s) EPOLLIN]
     else code = Some 1 \<and> \<not> sv_running s \<and>
       closed_fds (sv_calls s) = (case so_socket so of Inl _ \<Rightarrow> [] | Inr fd \<Rightarrow> [fd])) \<and>
    (result = Some 1 \<longleftrightarrow> \<not> start_succeeds so) \<and> (result = Some 0 \<longleftrightarrow> start_succeeds so \<and> False \<in> set polls) \<and>
    (err = [] \<longleftrightarrow> start_succeeds so \<and>
       (args \<noteq> [] \<longrightarrow> stoi (args ! 0) = Inr (sv_port s)) \<and>
       (1 < length args \<longrightarrow> stoull (args ! 1) = Inr (parse_thread_count args)))"
proof -
  let ?s0 = "new_server config_file (unat (parse_thread_count args)) hardware (parse_port args) ''0.0.0.0''"
  obtain started where st: "start_server so ?s0 = (started, s)" "code = (if started then None else Some 1)"
    using assms by (auto simp: main_start_def Let_def split: prod.splits)
  note c = start_server_cases [OF st(1)]
  have "1 \<le> parse_port args \<and> parse_port args \<le> 65535" by (rule parse_port_range)
  moreover have "1 \<le> load_max_connections_from_config config_file \<and> load_max_connections_from_config config_file \<le> 100000"
    using scan_config_bounds by (auto simp: load_max_connections_from_config_def split: option.split)
  moreover have "0 < pool_thread_count n hardware" for n by (simp add: pool_thread_count_def)
  moreover have "result = (if start_succeeds so then if False \<in> set polls then Some 0 else None else Some 1)"
    "err = port_warning args @ thread_count_warning args @
       (if start_succeeds so then [] else [''Failed to start server''])"
    using assms c(1) st(2) by (auto simp: main_run_def main_wait_iff Let_def split: if_splits)
  moreover have "port_warning args = [] \<longleftrightarrow> (args \<noteq> [] \<longrightarrow> stoi (args ! 0) = Inr (parse_port args))"
    "thread_count_warning args = [] \<longleftrightarrow> (1 < length args \<longrightarrow> stoull (args ! 1) = Inr (parse_thread_count args))"
    by (rule port_warning_iff, rule thread_count_warning_iff)
  moreover have "sv_port s = parse_port args" using c(4) by (simp add: new_server_def)
  ultimately show ?thesis using c st(2) by (auto simp: new_server_def)
qed

definition ex_start :: start_outcomes where
  "ex_start = \<lparr>so_socket = Inr 3, so_getfl = Inr 2, so_setfl = None, so_reuseaddr = None, so_bind = Some (Errno 98),
     so_listen = None, so_epoll_create = Inr 4, so_epoll_add = None\<rparr>"

theorem program_starts_or_exits_witness:
  "fst (main_start [''99999''] None 8 ex_start) = Some 1 \<and>
   closed_fds (sv_calls (snd (main_start [''99999''] None 8 ex_start))) = [3] \<and>
   sv_port (snd (main_start [''99999''] None 8 ex_start)) \<le> 65535 \<and>
   snd (snd (main_run [''99999''] None 8 ex_start [])) = Some 1"
proof -
  have "\<not> start_succeeds ex_start" "so_socket ex_start = Inr 3" by (simp_all add: start_succeeds_def ex_start_def)
  moreover obtain out err result where "main_run [''99999''] None 8 ex_start [] = (out, err, result)"
    by (rule prod_cases3)
  ultimately show ?thesis
    using program_starts_or_exits [OF prod.collapse [symmetric], of "[''99999'']" None 8 ex_start "[]"] by simp
qed

section \<open>Stopping\<close>

lemma running_release [simp]: "sv_running (release_fd fd s) = sv_running s"
  by (simp add: release_fd_def epoll_del_def do_call_def)

lemma epoll_fd_release [simp]: "ew_epoll_fd (sv_epoll (release_fd fd s)) = ew_epoll_fd (sv_epoll s)"
  by (simp add: release_fd_def epoll_del_def do_call_def remove_fd_def)

lemma release_all:
  "sv_connections (foldl (\<lambda>s fd. release_fd fd s) s fds) = sv_connections s"
  "sv_running (foldl (\<lambda>s fd. release_fd fd s) s fds) = sv_running s"
  "sv_server_fd (foldl (\<lambda>s fd. release_fd fd s) s fds) = sv_server_fd s"
  "sv_pool_shutdown (foldl (\<lambda>s fd. release_fd fd s) s fds) = sv_pool_shutdown s"
  "closed_fds (sv_calls (foldl (\<lambda>s fd. release_fd fd s) s fds)) = closed_fds (sv_calls s) @ fds"
  "ew_epoll_fd (sv_epoll (foldl (\<lambda>s fd. release_fd fd s) s fds)) = ew_epoll_fd (sv_epoll s)"
  by (induction fds arbitrary: s; simp)+

text \<open>C33: Stopping closes every connection and then the listening socket, each exactly once, and leaves the
  pool shut down; a second stop, by another signal or the destructor, does nothing.\<close>

theorem stop_closes_everything:
  assumes "sv_running s" and "distinct (map fst (sv_connections s))" and "sv_server_fd s \<notin> fst ` set (sv_connections s)"
    and "sv_server_fd s \<noteq> - 1" and "signal \<in> {SIGINT, SIGTERM}"
  shows "\<exists>s1. signal_handler signal (Some s) = Some s1 \<and> sv_connections s1 = [] \<and> \<not> sv_running s1 \<and>
    sv_pool_shutdown s1 \<and> sv_server_fd s1 = - 1 \<and>
    closed_fds (sv_calls s1) = closed_fds (sv_calls s) @ map fst (sv_connections s) @ [sv_server_fd s] \<and>
    distinct (map fst (sv_connections s) @ [sv_server_fd s]) \<and> signal_handler signal (Some s1) = Some s1"
proof -
  let ?s1 = "stop_server s"
  have "sv_connections ?s1 = []" "\<not> sv_running ?s1" "sv_pool_shutdown ?s1" "sv_server_fd ?s1 = - 1"
    "closed_fds (sv_calls ?s1) = closed_fds (sv_calls s) @ map fst (sv_connections s) @ [sv_server_fd s]"
    using assms(1,4) by (simp_all add: stop_server_def Let_def release_all)
  moreover from this have "stop_server ?s1 = ?s1" by (simp add: stop_server_def)
  moreover have "signal_handler signal (Some s) = Some ?s1" "signal_handler signal (Some ?s1) = Some (stop_server ?s1)"
    using assms(5) by (auto simp: signal_handler_def)
  ultimately show ?thesis using assms(2,3) by auto
qed

theorem stop_closes_everything_witness:
  "\<exists>s1. signal_handler SIGTERM (Some (ex_server\<lparr>sv_running := True, sv_server_fd := 3\<rparr>)) = Some s1 \<and>
     sv_connections s1 = [] \<and> closed_fds (sv_calls s1) = [7, 3]"
  using stop_closes_everything [of "ex_server\<lparr>sv_running := True, sv_server_fd := 3\<rparr>" SIGTERM] by auto

text \<open>When \<open>main\<close> has returned, the destructor closes what is left: whether or not the server was
  stopped before, each client, the listening socket and the epoll descriptor are closed once.\<close>

theorem destroyed_once:
  assumes "sv_running s" and "sv_server_fd s \<noteq> - 1" and "ew_epoll_fd (sv_epoll s) = efd" and "efd \<noteq> - 1"
  shows "destroy_server (stop_server s) = destroy_server s"
    and "closed_fds (sv_calls (destroy_server s)) =
      closed_fds (sv_calls s) @ map fst (sv_connections s) @ [sv_server_fd s, efd]"
    and "sv_connections (destroy_server s) = []"
proof -
  let ?s1 = "stop_server s"
  have s1: "sv_connections ?s1 = []" "\<not> sv_running ?s1"
    "closed_fds (sv_calls ?s1) = closed_fds (sv_calls s) @ map fst (sv_connections s) @ [sv_server_fd s]"
    "ew_epoll_fd (sv_epoll ?s1) = efd"
    using assms by (simp_all add: stop_server_def Let_def release_all)
  have "stop_server ?s1 = ?s1" using s1(2) by (simp add: stop_server_def)
  then show "destroy_server ?s1 = destroy_server s" by (simp add: destroy_server_def)
  show "closed_fds (sv_calls (destroy_server s)) =
      closed_fds (sv_calls s) @ map fst (sv_connections s) @ [sv_server_fd s, efd]"
    "sv_connections (destroy_server s) = []"
    using s1 assms(4) by (simp_all add: destroy_server_def epoll_destroy_def Let_def)
qed

end
