(* ===== verification/Program_Threads.thy ===== *)
theory Program_Threads
  imports Server_Runs Program
begin

text \<open>
  The whole running program: the event thread and the workers of \<open>Server_Threads\<close>, the pool of
  \<open>Thread_Pool\<close> that runs the workers, and the thread that calls \<open>Server::stop\<close>, interleaved.

  The two machines share the tasks.  A call of \<open>enqueue\<close> by the event thread takes the steps of the
  pool's client 0 (test, push, notify); a worker takes a task from the pool's queue, runs the steps
  of \<open>handle_client_request\<close>, and returns to the pool.  \<open>event_loop\<close> has a program counter of its
  own, so that it tests \<open>running_\<close> where the code does: before it waits, not between two events.
  \<open>running_\<close> is true until \<open>stop\<close> begins, \<open>shutdown_\<close> is the pool's flag; the fields of the server
  record with these names get their last values when \<open>stop\<close> ends.
\<close>

section \<open>State\<close>

datatype loop_pc =
    L_check            \<comment> \<open>before \<open>while (running_.load())\<close>\<close>
  | L_events nat       \<comment> \<open>so many events are left\<close>
  | L_accepting nat    \<comment> \<open>in \<open>handle_accept\<close>\<close>
  | L_write int nat    \<comment> \<open>between the two tests of the mask of an event\<close>
  | L_cleanup          \<comment> \<open>in \<open>cleanup_inactive_connections\<close>, the idle ones collected\<close>
  | L_done

datatype main_pc =
    M_serving
  | M_stopping         \<comment> \<open>\<open>running_\<close> is false; in \<open>thread_pool_->shutdown()\<close>\<close>
  | M_pool_joined      \<comment> \<open>in \<open>event_thread_->join()\<close>\<close>
  | M_loop_joined
  | M_stopped

record program =
  pr_threads :: threads
  pr_pool :: "nat pool"
  pr_loop :: loop_pc
  pr_main :: main_pc
  pr_aborted :: bool   \<comment> \<open>an exception has left the event thread: \<open>std::terminate\<close>\<close>

definition program_init :: "program \<Rightarrow> bool" where
  "program_init y \<longleftrightarrow> (\<exists>so config_file thread_count hardware port host.
     fst (start_server so (new_server config_file thread_count hardware port host)) \<and>
     y = \<lparr>pr_threads = new_threads so config_file thread_count hardware port host,
          pr_pool = new_pool thread_count hardware 1, pr_loop = L_check, pr_main = M_serving, pr_aborted = False\<rparr>)"

section \<open>Steps\<close>

definition between_handlers :: "program \<Rightarrow> bool" where
  "between_handlers y \<longleftrightarrow> event_idle (pr_threads y) \<and> tp_clients (pr_pool y) = [C_idle]"

fun in_handler :: "event_act \<Rightarrow> bool" where
  \<comment> \<open>the steps inside a handler, but for the call of \<open>enqueue\<close>\<close>
  "in_handler (Ev_accept _) = False"
| "in_handler (Ev_readable _) = False"
| "in_handler (Ev_writable _) = False"
| "in_handler (Ev_collect _) = False"
| "in_handler Ev_enqueue = False"
| "in_handler _ = True"

definition close_all :: "threads \<Rightarrow> threads" where
  \<comment> \<open>the end of \<open>stop\<close>\<close>
  "close_all t = t\<lparr>th_server := stop_server (th_server t),
     th_kernel := (\<lambda>fd. if find_conn fd (th_server t) = None then th_kernel t fd else None)\<rparr>"

text \<open>\<open>program_move\<close> are the steps that go on with what has been begun; the others begin something: a
  wait for events, a new client, a spurious wake-up, a stop.\<close>

inductive program_move :: "program \<Rightarrow> program \<Rightarrow> bool" where
  leave: "pr_loop y = L_check \<Longrightarrow> pr_main y \<noteq> M_serving \<Longrightarrow> program_move y (y\<lparr>pr_loop := L_done\<rparr>)"
| listening: "pr_loop y = L_events (Suc n) \<Longrightarrow> between_handlers y \<Longrightarrow>
    program_move y (y\<lparr>pr_loop := L_accepting n\<rparr>)"
| accepted_all: "pr_loop y = L_accepting n \<Longrightarrow> between_handlers y \<Longrightarrow> program_move y (y\<lparr>pr_loop := L_events n\<rparr>)"
| readable: "pr_loop y = L_events (Suc n) \<Longrightarrow> between_handlers y \<Longrightarrow> fd \<noteq> sv_server_fd (th_server (pr_threads y)) \<Longrightarrow>
    event_exec (Ev_readable fd) (pr_threads y) = Some t \<Longrightarrow>
    program_move y (y\<lparr>pr_threads := t, pr_loop := L_write fd n\<rparr>)"
| not_readable: "pr_loop y = L_events (Suc n) \<Longrightarrow> between_handlers y \<Longrightarrow> fd \<noteq> sv_server_fd (th_server (pr_threads y)) \<Longrightarrow>
    program_move y (y\<lparr>pr_loop := L_write fd n\<rparr>)"
| writable: "pr_loop y = L_write fd n \<Longrightarrow> between_handlers y \<Longrightarrow>
    event_exec (Ev_writable fd) (pr_threads y) = Some t \<Longrightarrow>
    program_move y (y\<lparr>pr_threads := t, pr_loop := L_events n\<rparr>)"
| not_writable: "pr_loop y = L_write fd n \<Longrightarrow> between_handlers y \<Longrightarrow> program_move y (y\<lparr>pr_loop := L_events n\<rparr>)"
| collect: "pr_loop y = L_events 0 \<Longrightarrow> between_handlers y \<Longrightarrow>
    event_exec (Ev_collect now) (pr_threads y) = Some t \<Longrightarrow>
    program_move y (y\<lparr>pr_threads := t, pr_loop := L_cleanup\<rparr>)"
| round_over: "pr_loop y = L_cleanup \<Longrightarrow> between_handlers y \<Longrightarrow> program_move y (y\<lparr>pr_loop := L_check\<rparr>)"
| handler: "in_handler a \<Longrightarrow> event_exec a (pr_threads y) = Some t \<Longrightarrow> program_move y (y\<lparr>pr_threads := t\<rparr>)"
| enqueue_test: "th_event (pr_threads y) = E_enqueue r \<Longrightarrow> tp_clients (pr_pool y) = [C_idle] \<Longrightarrow>
    enqueue_check 0 r (pr_pool y) = Inr p \<Longrightarrow> program_move y (y\<lparr>pr_pool := p\<rparr>)"
| enqueue_throws: "th_event (pr_threads y) = E_enqueue r \<Longrightarrow> tp_clients (pr_pool y) = [C_idle] \<Longrightarrow>
    enqueue_check 0 r (pr_pool y) = Inl e \<Longrightarrow> program_move y (y\<lparr>pr_aborted := True\<rparr>)"
| enqueue_insert: "tp_clients (pr_pool y) = [C_push r] \<Longrightarrow> event_exec Ev_enqueue (pr_threads y) = Some t \<Longrightarrow>
    program_move y (y\<lparr>pr_threads := t, pr_pool := enqueue_push 0 r (pr_pool y)\<rparr>)"
| enqueue_wakes_none: "tp_clients (pr_pool y) = [C_notify] \<Longrightarrow> W_asleep \<notin> set (tp_workers (pr_pool y)) \<Longrightarrow>
    program_move y (y\<lparr>pr_pool := enqueue_notify 0 None (pr_pool y)\<rparr>)"
| enqueue_wakes: "tp_clients (pr_pool y) = [C_notify] \<Longrightarrow> i < length (tp_workers (pr_pool y)) \<Longrightarrow>
    tp_workers (pr_pool y) ! i = W_asleep \<Longrightarrow>
    program_move y (y\<lparr>pr_pool := enqueue_notify 0 (Some i) (pr_pool y)\<rparr>)"
| worker_tests: "i < length (tp_workers (pr_pool y)) \<Longrightarrow> tp_workers (pr_pool y) ! i = W_check \<Longrightarrow>
    program_move y (y\<lparr>pr_pool := worker_check i (pr_pool y)\<rparr>)"
| worker_waits: "i < length (tp_workers (pr_pool y)) \<Longrightarrow> tp_workers (pr_pool y) ! i \<in> {W_enter, W_woken} \<Longrightarrow>
    tp_tasks (pr_pool y) = [] \<Longrightarrow> program_move y (y\<lparr>pr_pool := worker_section i (pr_pool y)\<rparr>)"
| worker_takes: "i < length (tp_workers (pr_pool y)) \<Longrightarrow> tp_workers (pr_pool y) ! i \<in> {W_enter, W_woken} \<Longrightarrow>
    i < length (th_workers (pr_threads y)) \<Longrightarrow> th_workers (pr_threads y) ! i = K_idle \<Longrightarrow>
    task_exec i Tk_go (pr_threads y) = Some t \<Longrightarrow>
    program_move y (y\<lparr>pr_threads := t, pr_pool := worker_section i (pr_pool y)\<rparr>)"
| worker_runs: "i < length (th_workers (pr_threads y)) \<Longrightarrow> th_workers (pr_threads y) ! i \<noteq> K_idle \<Longrightarrow>
    task_exec i a (pr_threads y) = Some t \<Longrightarrow> program_move y (y\<lparr>pr_threads := t\<rparr>)"
| worker_returns: "i < length (tp_workers (pr_pool y)) \<Longrightarrow> tp_workers (pr_pool y) ! i = W_run r \<Longrightarrow>
    th_workers (pr_threads y) ! i = K_idle \<Longrightarrow> program_move y (y\<lparr>pr_pool := worker_finish i r (pr_pool y)\<rparr>)"
| pool_begin: "pr_main y = M_stopping \<Longrightarrow> tp_shutdown_pc (pr_pool y) = S_idle \<Longrightarrow>
    program_move y (y\<lparr>pr_pool := shutdown_begin (pr_pool y)\<rparr>)"
| pool_set: "tp_shutdown_pc (pr_pool y) = S_set \<Longrightarrow> program_move y (y\<lparr>pr_pool := shutdown_set (pr_pool y)\<rparr>)"
| pool_notify: "tp_shutdown_pc (pr_pool y) = S_notify \<Longrightarrow>
    program_move y (y\<lparr>pr_pool := shutdown_notify (pr_pool y)\<rparr>)"
| pool_join: "tp_shutdown_pc (pr_pool y) = S_join \<Longrightarrow> \<forall>w \<in> set (tp_workers (pr_pool y)). w = W_exit \<Longrightarrow>
    program_move y (y\<lparr>pr_pool := shutdown_join (pr_pool y)\<rparr>)"
| pool_joined: "pr_main y = M_stopping \<Longrightarrow> tp_shutdown_pc (pr_pool y) = S_cleared \<Longrightarrow>
    program_move y (y\<lparr>pr_main := M_pool_joined\<rparr>)"
| loop_joined: "pr_main y = M_pool_joined \<Longrightarrow> pr_loop y = L_done \<Longrightarrow> program_move y (y\<lparr>pr_main := M_loop_joined\<rparr>)"
| closes: "pr_main y = M_loop_joined \<Longrightarrow>
    program_move y (y\<lparr>pr_threads := close_all (pr_threads y), pr_main := M_stopped\<rparr>)"

definition program_work :: "program \<Rightarrow> program \<Rightarrow> bool" where
  "program_work y y1 \<longleftrightarrow> \<not> pr_aborted y \<and> program_move y y1"

inductive program_step :: "program \<Rightarrow> program \<Rightarrow> bool" where
  work: "program_work y y1 \<Longrightarrow> program_step y y1"
| wait: "\<not> pr_aborted y \<Longrightarrow> pr_loop y = L_check \<Longrightarrow> pr_main y = M_serving \<Longrightarrow> n \<le> MAX_EVENTS \<Longrightarrow>
    program_step y (y\<lparr>pr_loop := L_events n\<rparr>)"
| accept: "\<not> pr_aborted y \<Longrightarrow> pr_loop y = L_accepting n \<Longrightarrow> between_handlers y \<Longrightarrow>
    event_exec (Ev_accept fd) (pr_threads y) = Some t \<Longrightarrow> program_step y (y\<lparr>pr_threads := t\<rparr>)"
| spurious: "\<not> pr_aborted y \<Longrightarrow> i < length (tp_workers (pr_pool y)) \<Longrightarrow> tp_workers (pr_pool y) ! i = W_asleep \<Longrightarrow>
    program_step y (y\<lparr>pr_pool := set_worker i W_woken (pr_pool y)\<rparr>)"
| stop: "\<not> pr_aborted y \<Longrightarrow> pr_main y = M_serving \<Longrightarrow> program_step y (y\<lparr>pr_main := M_stopping\<rparr>)"

section \<open>The parts of the program\<close>

lemma move_pool: "program_move y y1 \<Longrightarrow> pr_pool y1 = pr_pool y \<or> pool_step (pr_pool y) (pr_pool y1)"
proof (induction rule: program_move.induct)
  case (enqueue_test y r p)
  then have "pool_step (pr_pool y) p" by (intro pool_step.call [of 0 _ r]) simp_all
  then show ?case by simp
next
  case (enqueue_insert y r t)
  then have "pool_work (pr_pool y) (enqueue_push 0 r (pr_pool y))" by (intro pool_work.push) simp_all
  then show ?case by (simp add: pool_step.work)
next
  case (enqueue_wakes_none y)
  then have "pool_work (pr_pool y) (enqueue_notify 0 None (pr_pool y))" by (intro pool_work.notify_none) simp_all
  then show ?case by (simp add: pool_step.work)
next
  case (enqueue_wakes y i)
  then have "pool_work (pr_pool y) (enqueue_notify 0 (Some i) (pr_pool y))" by (intro pool_work.notify_one) simp_all
  then show ?case by (simp add: pool_step.work)
next
  case (worker_waits y i)
  then show ?case by (simp add: pool_step.work pool_work.critical)
next
  case (worker_takes y i t)
  then show ?case by (simp add: pool_step.work pool_work.critical)
qed (simp_all add: pool_step.work pool_step.shut pool_work.intros del: event_exec.simps task_exec.simps)

lemma move_threads:
  "program_move y y1 \<Longrightarrow> pr_main y1 \<noteq> M_stopped \<Longrightarrow>
   pr_threads y1 = pr_threads y \<or> th_step (pr_threads y) (pr_threads y1)"
  by (induction rule: program_move.induct) (simp_all del: event_exec.simps task_exec.simps, (blast intro: th_step.intros)+)

interpretation as_threads: simulation program_init program_step pr_threads th_init th_step "\<lambda>y. pr_main y \<noteq> M_stopped"
proof (unfold_locales, goal_cases)
  case (1 y)
  then show ?case unfolding program_init_def th_init_def by force
next
  case (2 y y1)
  then show ?case by (auto simp: program_work_def elim!: program_step.cases program_move.cases)
next
  case (3 y y1)
  then show ?case
    by (cases rule: program_step.cases) (auto simp: program_work_def simp del: event_exec.simps
        dest: move_threads th_step.event)
qed

interpretation as_pool: simulation program_init program_step pr_pool pool_init pool_step "\<lambda>y. True"
proof (unfold_locales, goal_cases)
  case (1 y)
  then show ?case unfolding program_init_def pool_init_def by force
next
  case (3 y y1)
  then show ?case
    by (auto simp: program_work_def elim!: program_step.cases dest: move_pool pool_step.spurious)
qed simp

lemma program_parts:
  assumes "reachable program_init program_step y"
  shows "reachable pool_init pool_step (pr_pool y)" "pool_inv (pr_pool y)"
    "pr_main y \<noteq> M_stopped \<Longrightarrow> reachable th_init th_step (pr_threads y)"
  using as_pool.reachable_sim [OF assms] as_threads.reachable_sim [OF assms] pool.reachable_inv by auto

section \<open>How the parts fit\<close>

lemma handler_frame:
  "in_handler a \<Longrightarrow> event_exec a t = Some t1 \<Longrightarrow> sv_queue (th_server t1) = sv_queue (th_server t) \<and>
   th_workers t1 = th_workers t \<and> \<not> event_idle t \<and> (\<forall>r. th_event t \<noteq> E_enqueue r) \<and>
   (th_todo t = [] \<longrightarrow> th_todo t1 = [])"
  by (cases a) (auto simp: event_idle_def drop_accepted_def Let_def record_sent_def
      dest: append_section_sel(3) send_section_sel(3)
      split: if_splits event_pc.splits prod.splits append_result.splits list.splits send_outcome.splits option.splits)

lemma start_frame:
  "event_exec a t = Some t1 \<Longrightarrow> a = Ev_readable fd \<or> a = Ev_writable fd \<or> a = Ev_accept fd \<Longrightarrow>
   th_todo t1 = th_todo t \<and> sv_queue (th_server t1) = sv_queue (th_server t) \<and> th_workers t1 = th_workers t"
  "event_exec (Ev_collect now) t = Some t1 \<Longrightarrow>
   th_event t1 = E_idle \<and> th_server t1 = th_server t \<and> th_workers t1 = th_workers t"
  by (auto simp: event_idle_def split: if_splits)

lemma enqueue_frame:
  "event_exec Ev_enqueue t = Some t1 \<Longrightarrow> \<exists>r. th_event t = E_enqueue r \<and>
   t1 = at_event E_idle ((th_server t)\<lparr>sv_queue := sv_queue (th_server t) @ [r]\<rparr>) t"
  by (auto dest!: enqueue_sel split: event_pc.splits sum.splits)

lemma task_runs_frame:
  assumes "task_exec i a t = Some t1"
  shows "th_event t1 = th_event t \<and> th_todo t1 = th_todo t \<and> (\<exists>w. th_workers t1 = (th_workers t)[i := w]) \<and>
    (th_workers t ! i \<noteq> K_idle \<longrightarrow> sv_queue (th_server t1) = sv_queue (th_server t))"
  using assms
  by (cases a) (auto simp: Let_def record_sent_def dest: send_section_sel(3) build_response_sel(3)
      split: if_splits task_pc.splits prod.splits sum.splits list.splits option.splits send_outcome.splits)

lemma task_takes:
  "task_exec i Tk_go t = Some t1 \<Longrightarrow> th_workers t ! i = K_idle \<Longrightarrow>
   \<exists>r q. sv_queue (th_server t) = r # q \<and> t1 = at_worker i (K_parse r) ((th_server t)\<lparr>sv_queue := q\<rparr>) t"
  by (auto simp: Let_def split: list.splits)

definition tasks_agree :: "program \<Rightarrow> bool" where
  \<comment> \<open>one queue; a worker in \<open>handle_client_request\<close> runs a task of the pool\<close>
  "tasks_agree y \<longleftrightarrow> length (tp_workers (pr_pool y)) = length (th_workers (pr_threads y)) \<and>
     tp_tasks (pr_pool y) = sv_queue (th_server (pr_threads y)) \<and>
     (\<forall>i < length (th_workers (pr_threads y)). th_workers (pr_threads y) ! i \<noteq> K_idle \<longrightarrow>
        (\<exists>r. tp_workers (pr_pool y) ! i = W_run r))"

definition enqueue_agrees :: "program \<Rightarrow> bool" where
  "enqueue_agrees y \<longleftrightarrow> (\<exists>c. tp_clients (pr_pool y) = [c] \<and>
     (\<forall>r. c = C_push r \<longrightarrow> th_event (pr_threads y) = E_enqueue r))"

definition loop_agrees :: "program \<Rightarrow> bool" where
  "loop_agrees y \<longleftrightarrow> (pr_loop y \<noteq> L_cleanup \<longrightarrow> th_todo (pr_threads y) = []) \<and>
     (pr_loop y \<in> {L_check, L_done} \<longrightarrow> between_handlers y) \<and> (pr_loop y = L_done \<longrightarrow> pr_main y \<noteq> M_serving)"

definition stop_agrees :: "program \<Rightarrow> bool" where
  "stop_agrees y \<longleftrightarrow>
     (pr_main y = M_serving \<longrightarrow> tp_shutdown_pc (pr_pool y) = S_idle) \<and>
     (pr_main y \<in> {M_pool_joined, M_loop_joined, M_stopped} \<longrightarrow> tp_shutdown_pc (pr_pool y) = S_cleared) \<and>
     (pr_main y \<in> {M_loop_joined, M_stopped} \<longrightarrow> pr_loop y = L_done)"

lemmas pool_pieces = worker_check_def worker_section_def worker_finish_def set_worker_def set_client_def
  enqueue_push_def enqueue_notify_def shutdown_begin_def shutdown_set_def shutdown_notify_def shutdown_join_def

lemma enqueue_check_frame:
  "enqueue_check c t p = Inr p1 \<Longrightarrow> p1 = set_client c (C_push t) p" "enqueue_check c t p = Inl e \<Longrightarrow> tp_shutdown p"
  by (auto simp: enqueue_check_def split: if_splits)

lemma stop_server_queue [simp]: "sv_queue (stop_server s) = sv_queue s"
proof -
  have "sv_queue (foldl (\<lambda>s fd. release_fd fd s) s fds) = sv_queue s" for s fds
    by (induction fds arbitrary: s) simp_all
  then show ?thesis by (simp add: stop_server_def Let_def)
qed

lemma close_all_sel [simp]:
  "th_workers (close_all t) = th_workers t" "th_event (close_all t) = th_event t" "th_todo (close_all t) = th_todo t"
  "sv_queue (th_server (close_all t)) = sv_queue (th_server t)" "event_idle (close_all t) = event_idle t"
  by (simp_all add: close_all_def event_idle_def)

declare event_exec.simps [simp del] task_exec.simps [simp del]

lemma tasks_agree_move:
  assumes "program_move y y1" and "tasks_agree y" and "enqueue_agrees y"
  shows "tasks_agree y1"
  using assms
proof (cases rule: program_move.cases)
  case (handler a t)
  with assms(2) handler_frame [OF handler(2,3)] show ?thesis by (simp add: tasks_agree_def)
next
  case (readable n fd t)
  with assms(2) start_frame(1) [OF readable(5), of fd] show ?thesis by (simp add: tasks_agree_def)
next
  case (writable fd n t)
  with assms(2) start_frame(1) [OF writable(4), of fd] show ?thesis by (simp add: tasks_agree_def)
next
  case (collect now t)
  with assms(2) start_frame(2) [OF collect(4)] show ?thesis by (simp add: tasks_agree_def)
next
  case (enqueue_test r p)
  with assms(2) enqueue_check_frame(1) [OF enqueue_test(4)] show ?thesis by (simp add: tasks_agree_def pool_pieces)
next
  case (enqueue_insert r t)
  with assms(2,3) enqueue_frame [OF enqueue_insert(3)] show ?thesis
    by (auto simp: tasks_agree_def enqueue_agrees_def pool_pieces)
next
  case (worker_takes i t)
  with assms(2) task_takes [OF worker_takes(6,5)] show ?thesis
    by (auto simp: tasks_agree_def pool_pieces nth_list_update)
next
  case (worker_runs i a t)
  with assms(2) task_runs_frame [OF worker_runs(4)] show ?thesis
    by (auto simp: tasks_agree_def nth_list_update split: if_splits)
qed (use assms(2) in \<open>auto simp: tasks_agree_def pool_pieces Let_def nth_list_update split: if_splits list.splits\<close>)

lemma pool_pieces_sel [simp]:
  "tp_clients (worker_check i p) = tp_clients p" "tp_clients (worker_section i p) = tp_clients p"
  "tp_clients (worker_finish i r p) = tp_clients p" "tp_clients (shutdown_begin p) = tp_clients p"
  "tp_clients (shutdown_set p) = tp_clients p" "tp_clients (shutdown_notify p) = tp_clients p"
  "tp_clients (shutdown_join p) = tp_clients p" "tp_clients (set_worker i w p) = tp_clients p"
  "tp_shutdown_pc (worker_check i p) = tp_shutdown_pc p" "tp_shutdown_pc (worker_section i p) = tp_shutdown_pc p"
  "tp_shutdown_pc (worker_finish i r p) = tp_shutdown_pc p" "tp_shutdown_pc (set_worker i w p) = tp_shutdown_pc p"
  "tp_shutdown_pc (enqueue_push c r p) = tp_shutdown_pc p" "tp_shutdown_pc (enqueue_notify c k p) = tp_shutdown_pc p"
  by (simp_all add: pool_pieces Let_def split: list.split option.split)

lemma enqueue_agrees_move:
  assumes "program_move y y1" and "enqueue_agrees y"
  shows "enqueue_agrees y1"
  using assms
proof (cases rule: program_move.cases)
  case (handler a t)
  with assms(2) handler_frame [OF handler(2,3)] show ?thesis by (auto simp: enqueue_agrees_def)
next
  case (enqueue_insert r t)
  with assms(2) enqueue_frame [OF enqueue_insert(3)] show ?thesis
    by (auto simp: enqueue_agrees_def pool_pieces)
next
  case (worker_takes i t)
  with assms(2) task_runs_frame [OF worker_takes(6)] show ?thesis by (auto simp: enqueue_agrees_def event_idle_def)
next
  case (worker_runs i a t)
  with assms(2) task_runs_frame [OF worker_runs(4)] show ?thesis by (auto simp: enqueue_agrees_def event_idle_def)
next
  case (enqueue_test r p)
  with assms(2) enqueue_check_frame(1) [OF enqueue_test(4)] show ?thesis by (auto simp: enqueue_agrees_def pool_pieces)
qed (use assms(2) in \<open>auto simp: enqueue_agrees_def between_handlers_def enqueue_notify_def set_client_def Let_def\<close>)

lemma loop_agrees_move:
  assumes "program_move y y1" and "loop_agrees y"
  shows "loop_agrees y1"
  using assms
proof (cases rule: program_move.cases)
  case (handler a t)
  with assms(2) handler_frame [OF handler(2,3)] show ?thesis by (auto simp: loop_agrees_def between_handlers_def)
next
  case (readable n fd t)
  with assms(2) start_frame(1) [OF readable(5), of fd] show ?thesis by (simp add: loop_agrees_def)
next
  case (writable fd n t)
  with assms(2) start_frame(1) [OF writable(4), of fd] show ?thesis by (simp add: loop_agrees_def)
next
  case (enqueue_insert r t)
  with assms(2) enqueue_frame [OF enqueue_insert(3)] show ?thesis
    by (auto simp: loop_agrees_def between_handlers_def)
next
  case (worker_takes i t)
  with assms(2) task_runs_frame [OF worker_takes(6)] show ?thesis
    by (auto simp: loop_agrees_def between_handlers_def event_idle_def)
next
  case (worker_runs i a t)
  with assms(2) task_runs_frame [OF worker_runs(4)] show ?thesis
    by (auto simp: loop_agrees_def between_handlers_def event_idle_def)
next
  case (enqueue_test r p)
  with assms(2) show ?thesis by (auto simp: loop_agrees_def between_handlers_def event_idle_def)
qed (use assms(2) in \<open>auto simp: loop_agrees_def between_handlers_def event_idle_def\<close>)

lemma stop_agrees_move:
  assumes "program_move y y1" and "stop_agrees y" and "loop_agrees y"
  shows "stop_agrees y1"
  using assms
  by (cases rule: program_move.cases)
    (auto simp: stop_agrees_def shutdown_begin_def shutdown_set_def shutdown_notify_def shutdown_join_def
      dest!: enqueue_check_frame(1) simp: set_client_def)

definition parts_agree :: "program \<Rightarrow> bool" where
  "parts_agree y \<longleftrightarrow> tasks_agree y \<and> enqueue_agrees y \<and> loop_agrees y \<and> stop_agrees y"

interpretation parts: inductive_invariant program_init program_step parts_agree
proof (unfold_locales, goal_cases)
  case (1 y)
  then obtain so config_file thread_count hardware port host where
    "y = \<lparr>pr_threads = new_threads so config_file thread_count hardware port host,
          pr_pool = new_pool thread_count hardware 1, pr_loop = L_check, pr_main = M_serving, pr_aborted = False\<rparr>"
    unfolding program_init_def by blast
  then have y: "th_server (pr_threads y) = snd (start_server so (new_server config_file thread_count hardware port host))"
    "th_workers (pr_threads y) = replicate (pool_thread_count thread_count hardware) K_idle"
    "tp_workers (pr_pool y) = replicate (pool_thread_count thread_count hardware) W_check" "tp_tasks (pr_pool y) = []"
    "tp_clients (pr_pool y) = [C_idle]" "tp_shutdown_pc (pr_pool y) = S_idle" "event_idle (pr_threads y)"
    "pr_loop y = L_check" "pr_main y = M_serving"
    by (simp_all add: new_threads_def new_pool_def event_idle_def)
  have "sv_queue (new_server config_file thread_count hardware port host) = []" by (simp add: new_server_def)
  then have "tasks_agree y" by (simp add: tasks_agree_def y(1-4))
  moreover have "enqueue_agrees y" by (simp add: enqueue_agrees_def y(5))
  moreover have "between_handlers y" "th_todo (pr_threads y) = []"
    using y(7) by (simp_all add: between_handlers_def event_idle_def y(5))
  then have "loop_agrees y" by (simp add: loop_agrees_def y(8,9))
  moreover have "stop_agrees y" by (simp add: stop_agrees_def y(6,8,9))
  ultimately show ?case by (simp add: parts_agree_def)
next
  case (2 y y1)
  then have a: "tasks_agree y" "enqueue_agrees y" "loop_agrees y" "stop_agrees y" by (simp_all add: parts_agree_def)
  from 2(2) show ?case
  proof (cases rule: program_step.cases)
    case work
    then have "program_move y y1" by (simp add: program_work_def)
    with a show ?thesis
      using tasks_agree_move enqueue_agrees_move loop_agrees_move stop_agrees_move by (simp add: parts_agree_def)
  next
    case (accept n fd t)
    with a start_frame(1) [OF accept(5), of fd] show ?thesis
      by (auto simp: parts_agree_def tasks_agree_def enqueue_agrees_def loop_agrees_def stop_agrees_def between_handlers_def)
  next
    case (spurious i)
    have "tasks_agree y1"
      using a(1) spurious unfolding tasks_agree_def by (auto simp: set_worker_def nth_list_update)
    moreover have "enqueue_agrees y1" using a(2) by (simp add: spurious(1) enqueue_agrees_def)
    moreover have "loop_agrees y1" using a(3) by (simp add: spurious(1) loop_agrees_def between_handlers_def)
    moreover have "stop_agrees y1" using a(4) by (simp add: spurious(1) stop_agrees_def)
    ultimately show ?thesis by (simp add: parts_agree_def)
  qed (use a in \<open>auto simp: parts_agree_def tasks_agree_def enqueue_agrees_def loop_agrees_def stop_agrees_def
          between_handlers_def\<close>)
qed

lemma parts_agreeD:
  assumes "parts_agree y"
  shows "tasks_agree y" "enqueue_agrees y" "loop_agrees y" "stop_agrees y"
  using assms by (simp_all add: parts_agree_def)

section \<open>The end\<close>

lemma workers_returned:
  assumes "parts_agree y" and "pool_inv (pr_pool y)" and "tp_shutdown_pc (pr_pool y) = S_cleared"
  shows "set (tp_workers (pr_pool y)) \<subseteq> {W_exit}" "set (th_workers (pr_threads y)) \<subseteq> {K_idle}"
proof -
  show exit: "set (tp_workers (pr_pool y)) \<subseteq> {W_exit}" using pool_invD(7) [OF assms(2,3)] .
  show "set (th_workers (pr_threads y)) \<subseteq> {K_idle}"
  proof
    fix w assume "w \<in> set (th_workers (pr_threads y))"
    then obtain i where i: "i < length (th_workers (pr_threads y))" "w = th_workers (pr_threads y) ! i"
      by (auto simp: in_set_conv_nth)
    then have "tp_workers (pr_pool y) ! i \<in> set (tp_workers (pr_pool y))"
      using parts_agreeD(1) [OF assms(1)] by (simp add: tasks_agree_def)
    then have "tp_workers (pr_pool y) ! i = W_exit" using exit by blast
    with parts_agreeD(1) [OF assms(1)] i show "w \<in> {K_idle}" by (auto simp: tasks_agree_def)
  qed
qed

lemma open_at_end:
  assumes "fds_held t" and "event_idle t" and "set (th_workers t) \<subseteq> {K_idle}"
  shows "th_kernel t fd \<noteq> None \<longleftrightarrow> find_conn fd (th_server t) \<noteq> None"
proof -
  have "filter (\<lambda>w. task_holds w fd) (th_workers t) = []" using assms(3) by (auto simp: filter_empty_conv)
  then have "fd_holders fd t = count_list (map fst (sv_connections (th_server t))) fd"
    using assms(2) by (simp add: fd_holders_def event_idle_def)
  moreover have "fd_holders fd t = of_bool (th_kernel t fd \<noteq> None)" using assms(1) by (simp add: fds_held_def)
  ultimately show ?thesis using find_conn_count [of fd "th_server t"] by (cases "th_kernel t fd = None") simp_all
qed

lemma loop_joined_parts:
  assumes "reachable program_init program_step y" and "pr_main y = M_loop_joined"
  shows "fds_held (pr_threads y)" "event_idle (pr_threads y)" "set (th_workers (pr_threads y)) \<subseteq> {K_idle}"
    "sv_running (th_server (pr_threads y))"
proof -
  note agree = parts.reachable_inv [OF assms(1)] and p = program_parts [OF assms(1)]
  have t: "reachable th_init th_step (pr_threads y)" using p(3) assms(2) by simp
  then show "fds_held (pr_threads y)" using reachable_threads by blast
  show "sv_running (th_server (pr_threads y))" using settings_reachable [OF t] by simp
  have "pr_loop y = L_done" "tp_shutdown_pc (pr_pool y) = S_cleared"
    using parts_agreeD(4) [OF agree] assms(2) by (auto simp: stop_agrees_def)
  with parts_agreeD(3) [OF agree] show "event_idle (pr_threads y)" by (simp add: loop_agrees_def between_handlers_def)
  show "set (th_workers (pr_threads y)) \<subseteq> {K_idle}"
    by (rule workers_returned(2) [OF agree p(2)]) fact
qed

lemma stop_server_end:
  assumes "sv_running s"
  shows "sv_connections (stop_server s) = []" "\<not> sv_running (stop_server s)" "sv_server_fd (stop_server s) = - 1"
    "closed_fds (sv_calls (stop_server s)) = closed_fds (sv_calls s) @ map fst (sv_connections s) @
       (if sv_server_fd s = - 1 then [] else [sv_server_fd s])"
  using assms by (simp_all add: stop_server_def Let_def release_all)

definition all_closed :: "threads \<Rightarrow> bool" where
  "all_closed t \<longleftrightarrow> th_kernel t = Map.empty \<and> sv_connections (th_server t) = [] \<and> sv_server_fd (th_server t) = - 1 \<and>
     \<not> sv_running (th_server t)"

lemma close_all_closed:
  assumes "reachable program_init program_step y" and "pr_main y = M_loop_joined"
  shows "all_closed (close_all (pr_threads y))"
proof -
  note l = loop_joined_parts [OF assms]
  have "th_kernel (close_all (pr_threads y)) fd = None" for fd
    using open_at_end [OF l(1-3), of fd] by (auto simp: close_all_def)
  then have "th_kernel (close_all (pr_threads y)) = Map.empty" by (rule ext)
  with stop_server_end [OF l(4)] show ?thesis by (simp add: all_closed_def close_all_def)
qed

lemma stopped_stuck:
  assumes agree: "parts_agree y" and inv: "pool_inv (pr_pool y)" and main: "pr_main y = M_stopped"
  shows "\<not> program_step y y1"
proof
  have c: "tp_shutdown_pc (pr_pool y) = S_cleared" "pr_loop y = L_done" "between_handlers y"
    using parts_agreeD(3,4) [OF agree] main by (auto simp: stop_agrees_def loop_agrees_def)
  note w = workers_returned [OF agree inv c(1)]
  have x: "tp_workers (pr_pool y) ! i = W_exit" if "i < length (tp_workers (pr_pool y))" for i using w(1) that nth_mem by fastforce
  have k: "th_workers (pr_threads y) ! i = K_idle" if "i < length (th_workers (pr_threads y))" for i
    using w(2) that nth_mem by fastforce
  assume "program_step y y1"
  then show False
  proof (cases rule: program_step.cases)
    case work
    then have "program_move y y1" by (simp add: program_work_def)
    then show False
    proof (cases rule: program_move.cases)
      case (handler a t)
      with handler_frame [OF handler(2,3)] c(3) show False by (simp add: between_handlers_def)
    next
      case (enqueue_insert r t)
      with c(3) show False by (simp add: between_handlers_def)
    qed (use c main x k in \<open>auto simp: between_handlers_def event_idle_def\<close>)
  qed (use c main x in auto)
qed

lemma stopped_closed: "reachable program_init program_step y \<Longrightarrow> pr_main y = M_stopped \<Longrightarrow> all_closed (pr_threads y)"
proof (induction rule: reachable.induct)
  case (start y)
  then show ?case by (auto simp: program_init_def)
next
  case (next_state y y1)
  note p = program_parts [OF next_state(1)]
  have n: "pr_main y \<noteq> M_stopped"
    using stopped_stuck [OF parts.reachable_inv [OF next_state(1)] p(2)] next_state(2) by blast
  have "pr_main y = M_loop_joined \<and> pr_threads y1 = close_all (pr_threads y)"
    using next_state(2,4) n by (auto simp: program_work_def elim!: program_step.cases program_move.cases)
  with close_all_closed [OF next_state(1)] show ?case by simp
qed

lemma aborted_shutdown: "reachable program_init program_step y \<Longrightarrow> pr_aborted y \<Longrightarrow> tp_shutdown (pr_pool y)"
proof (induction rule: reachable.induct)
  case (start y)
  then show ?case by (auto simp: program_init_def)
next
  case (next_state y y1)
  then have "\<not> pr_aborted y" by (auto simp: program_work_def elim!: program_step.cases)
  with next_state(2,4) show ?case
    by (cases rule: program_step.cases)
      (auto simp: program_work_def enqueue_check_def elim!: program_move.cases split: if_splits)
qed

end
