(* ===== verification/Program_Stop.thy ===== *)
theory Program_Stop
  imports Program_Threads
begin

text \<open>
  What stopping the running program does, in every interleaving: it comes to an end, and leaves
  nothing open.  The proof that it ends is a measure of the work at hand, which every step that
  does not begin something decreases.
\<close>

section \<open>The work at hand\<close>

fun event_rank :: "event_pc \<Rightarrow> nat" where
  "event_rank E_idle = 0"
| "event_rank (E_release _) = 1"
| "event_rank (E_close _) = 2"
| "event_rank (E_write _) = 3"
| "event_rank (E_enqueue _) = 3"
| "event_rank (E_recv _ _) = 4"
| "event_rank (E_admitted _) = 4"
| "event_rank (E_accepted _) = 5"

fun enqueue_rank :: "'t client_pc \<Rightarrow> nat" where
  "enqueue_rank (C_push _) = 0"
| "enqueue_rank C_idle = 1"
| "enqueue_rank C_notify = 2"

fun loop_rank :: "nat \<Rightarrow> loop_pc \<Rightarrow> nat" where
  \<comment> \<open>with so many connections, each of which the clean-up may close\<close>
  "loop_rank c L_done = 0"
| "loop_rank c L_check = 1"
| "loop_rank c L_cleanup = 2"
| "loop_rank c (L_events n) = 9 * n + 3 + 3 * c"
| "loop_rank c (L_accepting n) = 9 * n + 4 + 3 * c"
| "loop_rank c (L_write fd n) = 9 * n + 7 + 3 * c"

definition event_thread_rank :: "program \<Rightarrow> nat" where
  "event_thread_rank y =
     loop_rank (length (sv_connections (th_server (pr_threads y)))) (pr_loop y) + event_rank (th_event (pr_threads y)) +
     3 * length (th_todo (pr_threads y)) + sum_list (map enqueue_rank (tp_clients (pr_pool y)))"

fun main_rank :: "shutdown_pc \<Rightarrow> main_pc \<Rightarrow> nat" where
  "main_rank pc M_serving = 0"
| "main_rank pc M_stopping = (if pc = S_idle then 5 else 4)"
| "main_rank pc M_pool_joined = 3"
| "main_rank pc M_loop_joined = 2"
| "main_rank pc M_stopped = 1"

fun task_rank :: "task_pc \<Rightarrow> nat" where
  "task_rank K_idle = 0"
| "task_rank (K_finish _) = 1"
| "task_rank (K_gone _) = 1"
| "task_rank (K_release _ _) = 2"
| "task_rank (K_close _ _) = 3"
| "task_rank (K_send _) = 4"
| "task_rank (K_post _ _) = 5"
| "task_rank (K_check _ _) = 6"
| "task_rank (K_text _ _) = 7"
| "task_rank (K_build _ _) = 8"
| "task_rank (K_keep _ _) = 9"
| "task_rank (K_parse _) = 10"

definition tasks_rank :: "program \<Rightarrow> nat" where
  "tasks_rank y = sum_list (map task_rank (th_workers (pr_threads y)))"

definition work_left :: "(program \<times> program) set" where
  "work_left = measures [\<lambda>y. of_bool (\<not> pr_aborted y), event_thread_rank,
     \<lambda>y. main_rank (tp_shutdown_pc (pr_pool y)) (pr_main y), \<lambda>y. pool_rank (pr_pool y), tasks_rank]"

lemma task_rank_decreases:
  assumes "i < length (th_workers t)" and "task_exec i a t = Some t1" and "th_workers t ! i \<noteq> K_idle"
  shows "sum_list (map task_rank (th_workers t1)) < sum_list (map task_rank (th_workers t))"
proof -
  obtain w where w: "th_workers t1 = (th_workers t)[i := w]" "task_rank w < task_rank (th_workers t ! i)"
    using assms(2,3)
    by (cases a) (auto simp: task_exec.simps Let_def record_sent_def
        split: if_splits task_pc.splits prod.splits sum.splits list.splits option.splits send_outcome.splits)
  with sum_list_map_update [OF assms(1), of task_rank w] show ?thesis by simp
qed

lemma event_frame_connections:
  assumes "refs_ok t" and "event_exec a t = Some t1"
  shows "length (sv_connections (th_server t1)) \<le>
    length (sv_connections (th_server t)) + (if \<exists>now. a = Ev_insert now then 1 else 0)"
proof (cases "\<exists>now. a = Ev_insert now")
  case False
  then show ?thesis using event_frame [OF assms] by (auto simp: server_frame_def)
next
  case True
  have "length (AList.update k v m) \<le> Suc (length m)" for k :: int and v :: nat and m
    by (induction m) auto
  with True assms(2) show ?thesis by (auto simp: event_exec.simps split: event_pc.splits)
qed

lemma handler_rank:
  assumes r: "refs_ok t" and h: "in_handler a" and e: "event_exec a t = Some t1"
  shows "3 * length (sv_connections (th_server t1)) + event_rank (th_event t1) + 3 * length (th_todo t1) <
      3 * length (sv_connections (th_server t)) + event_rank (th_event t) + 3 * length (th_todo t) \<and>
    event_rank (th_event t1) + 3 * length (th_todo t1) < event_rank (th_event t) + 3 * length (th_todo t)"
proof -
  have "event_rank (th_event t1) + 3 * length (th_todo t1) + (if \<exists>now. a = Ev_insert now then 3 else 0) <
      event_rank (th_event t) + 3 * length (th_todo t)"
    using h e
    by (cases a) (auto simp: event_exec.simps drop_accepted_def Let_def record_sent_def
        split: if_splits event_pc.splits prod.splits append_result.splits list.splits send_outcome.splits option.splits)
  with event_frame_connections [OF r e] show ?thesis by (auto split: if_splits)
qed

lemma start_rank:
  "event_exec (Ev_readable fd) t = Some t1 \<Longrightarrow> th_server t1 = th_server t \<and> event_rank (th_event t1) = 4 \<and> th_todo t1 = th_todo t"
  "event_exec (Ev_writable fd) t = Some t1 \<Longrightarrow> th_server t1 = th_server t \<and> event_rank (th_event t1) = 3 \<and> th_todo t1 = th_todo t"
  "event_exec (Ev_collect now) t = Some t1 \<Longrightarrow> th_server t1 = th_server t \<and> th_event t1 = E_idle \<and>
     length (th_todo t1) \<le> length (sv_connections (th_server t))"
  by (auto simp: event_exec.simps inactive_fds_def event_idle_def split: if_splits)

lemma loop_rank_le: "c \<le> d \<Longrightarrow> loop_rank c pc \<le> loop_rank d pc"
  by (cases pc) simp_all

lemma event_thread_decreases:
  "loop_rank (length (sv_connections (th_server t))) pc + event_rank (th_event t) + 3 * length (th_todo t) <
     loop_rank (length (sv_connections (th_server (pr_threads y)))) (pr_loop y) +
     event_rank (th_event (pr_threads y)) + 3 * length (th_todo (pr_threads y)) \<Longrightarrow> pr_aborted y1 = pr_aborted y \<Longrightarrow>
   pr_threads y1 = t \<Longrightarrow> pr_loop y1 = pc \<Longrightarrow> tp_clients (pr_pool y1) = tp_clients (pr_pool y) \<Longrightarrow> (y1, y) \<in> work_left"
  by (simp add: work_left_def event_thread_rank_def)

lemma pool_decreases:
  "pool_work (pr_pool y) p \<Longrightarrow> tp_clients p = tp_clients (pr_pool y) \<Longrightarrow>
   main_rank (tp_shutdown_pc p) (pr_main y) \<le> main_rank (tp_shutdown_pc (pr_pool y)) (pr_main y) \<Longrightarrow>
   (y\<lparr>pr_pool := p\<rparr>, y) \<in> work_left"
  using pool_work_rank [of "pr_pool y" p] by (simp add: work_left_def event_thread_rank_def less_le)

lemma shutdown_pieces_pc:
  "tp_shutdown_pc (shutdown_set p) = S_notify" "tp_shutdown_pc (shutdown_notify p) = S_join"
  "tp_shutdown_pc (shutdown_join p) = S_cleared"
  by (simp_all add: shutdown_set_def shutdown_notify_def shutdown_join_def)

lemma main_rank_le: "pc \<noteq> S_idle \<Longrightarrow> main_rank pc m \<le> main_rank pc1 m"
  by (cases m) simp_all

lemma work_decreases:
  assumes r: "reachable program_init program_step y" and w: "program_work y y1"
  shows "(y1, y) \<in> work_left"
proof -
  note agree = parts_agreeD [OF parts.reachable_inv [OF r]] and p = program_parts [OF r]
  have m: "program_move y y1" and na: "\<not> pr_aborted y" using w by (simp_all add: program_work_def)
  have live: "pr_main y \<noteq> M_stopped"
    using stopped_stuck [OF parts.reachable_inv [OF r] p(2)] program_step.work [OF w] by blast
  have ok: "refs_ok (pr_threads y)" using reachable_threads [OF p(3) [OF live]] by blast
  obtain c where c: "tp_clients (pr_pool y) = [c]" using agree(2) by (auto simp: enqueue_agrees_def)
  have idle: "event_rank (th_event (pr_threads y)) = 0" "th_todo (pr_threads y) = []" if "between_handlers y"
    using that by (simp_all add: between_handlers_def event_idle_def)
  from m show ?thesis
  proof (cases rule: program_move.cases)
    case (readable n fd t)
    with start_rank(1) [OF readable(5)] idle show ?thesis by (intro event_thread_decreases [of t]) simp_all
  next
    case (writable fd n t)
    with start_rank(2) [OF writable(4)] idle show ?thesis by (intro event_thread_decreases [of t]) simp_all
  next
    case (collect now t)
    with start_rank(3) [OF collect(4)] idle show ?thesis by (intro event_thread_decreases [of t]) simp_all
  next
    case (handler a t)
    note h = handler_rank [OF ok handler(2,3)]
    have "loop_rank (length (sv_connections (th_server t))) (pr_loop y) + event_rank (th_event t) + 3 * length (th_todo t) <
        loop_rank (length (sv_connections (th_server (pr_threads y)))) (pr_loop y) +
        event_rank (th_event (pr_threads y)) + 3 * length (th_todo (pr_threads y))"
      using h by (cases "pr_loop y") simp_all
    then show ?thesis by (rule event_thread_decreases) (simp_all add: handler(1))
  next
    case (enqueue_test q p)
    then show ?thesis
      using enqueue_check_frame(1) [OF enqueue_test(4)] c by (simp add: work_left_def event_thread_rank_def set_client_def)
  next
    case (enqueue_throws q e)
    then show ?thesis using na by (simp add: work_left_def)
  next
    case (enqueue_insert q t)
    obtain x where x: "th_event (pr_threads y) = E_enqueue x"
      "t = at_event E_idle ((th_server (pr_threads y))\<lparr>sv_queue := sv_queue (th_server (pr_threads y)) @ [x]\<rparr>) (pr_threads y)"
      using enqueue_frame [OF enqueue_insert(3)] by blast
    with enqueue_insert show ?thesis
      by (simp add: work_left_def event_thread_rank_def enqueue_push_def set_client_def)
  next
    case enqueue_wakes_none
    then show ?thesis by (simp add: work_left_def event_thread_rank_def enqueue_notify_def set_client_def)
  next
    case (enqueue_wakes i)
    then show ?thesis
      by (simp add: work_left_def event_thread_rank_def enqueue_notify_def set_client_def set_worker_def)
  next
    case (worker_tests i)
    then show ?thesis by (simp add: pool_decreases pool_work.check)
  next
    case (worker_waits i)
    then show ?thesis by (simp add: pool_decreases pool_work.critical)
  next
    case (worker_takes i t)
    obtain x q where "t = at_worker i (K_parse x) ((th_server (pr_threads y))\<lparr>sv_queue := q\<rparr>) (pr_threads y)"
      using task_takes [OF worker_takes(6,5)] by blast
    moreover have "pool_rank (worker_section i (pr_pool y)) < pool_rank (pr_pool y)"
      using worker_takes(2,3) by (intro pool_work_rank pool_work.critical)
    ultimately show ?thesis using worker_takes(1) by (simp add: work_left_def event_thread_rank_def)
  next
    case (worker_runs i a t)
    have "length (sv_connections (th_server t)) \<le> length (sv_connections (th_server (pr_threads y)))"
      using task_frame [OF ok worker_runs(2,4)] by (simp add: server_frame_def)
    then have "event_thread_rank y1 \<le> event_thread_rank y"
      using task_runs_frame [OF worker_runs(4)] loop_rank_le worker_runs(1) by (simp add: event_thread_rank_def)
    moreover have "tasks_rank y1 < tasks_rank y"
      using task_rank_decreases [OF worker_runs(2,4,3)] worker_runs(1) by (simp add: tasks_rank_def)
    ultimately show ?thesis using worker_runs(1) by (simp add: work_left_def le_less)
  next
    case (worker_returns i x)
    then show ?thesis by (simp add: pool_decreases pool_work.finish)
  next
    case pool_begin
    then have "\<not> tp_shutdown (pr_pool y)" using pool_invD(5) [OF p(2)] by simp
    with pool_begin show ?thesis by (simp add: work_left_def event_thread_rank_def shutdown_begin_def)
  next
    case pool_set
    then show ?thesis
      by (simp add: pool_decreases pool_work.shut_set shutdown_pieces_pc main_rank_le)
  next
    case pool_notify
    then show ?thesis
      by (simp add: pool_decreases pool_work.shut_notify shutdown_pieces_pc main_rank_le)
  next
    case pool_join
    then show ?thesis
      by (simp add: pool_decreases pool_work.shut_join shutdown_pieces_pc main_rank_le)
  next
    case closes
    moreover have "sv_connections (th_server (close_all (pr_threads y))) = []"
      using stop_server_end(1) settings_reachable [OF p(3) [OF live]] by (simp add: close_all_def)
    moreover have "loop_rank 0 (pr_loop y) \<le> loop_rank (length (sv_connections (th_server (pr_threads y)))) (pr_loop y)"
      by (rule loop_rank_le) simp
    ultimately show ?thesis by (simp add: work_left_def event_thread_rank_def le_less)
  qed (use c idle in \<open>auto simp: work_left_def event_thread_rank_def\<close>)
qed

lemma no_endless_work:
  assumes "reachable program_init program_step y"
  shows "\<not> (\<exists>f. f 0 = y \<and> (\<forall>n. program_work (f n) (f (Suc n))))"
proof
  assume "\<exists>f. f 0 = y \<and> (\<forall>n. program_work (f n) (f (Suc n)))"
  then obtain f where f: "f 0 = y" "\<And>n. program_work (f n) (f (Suc n))" by blast
  have "reachable program_init program_step (f n)" for n
    by (induction n) (auto simp: f(1) assms intro: reachable.next_state program_step.work f(2))
  then have "(f (Suc n), f n) \<in> work_left" for n using work_decreases f(2) by blast
  moreover have "wf work_left" by (simp add: work_left_def)
  ultimately show False unfolding wf_iff_no_infinite_down_chain by blast
qed

section \<open>No thread is stuck\<close>

definition finished :: "program \<Rightarrow> bool" where
  "finished y \<longleftrightarrow> \<not> (\<exists>y1. program_work y y1)"

lemma finished_move: "finished y \<Longrightarrow> \<not> pr_aborted y \<Longrightarrow> \<not> program_move y y1"
  by (auto simp: finished_def program_work_def)

lemma handler_possible:
  assumes "th_event t \<notin> {E_idle} \<union> range E_enqueue \<or> th_event t = E_idle \<and> th_todo t \<noteq> []"
  shows "\<exists>a t1. in_handler a \<and> event_exec a t = Some t1"
proof (cases "th_event t")
  case E_idle
  with assms have "\<exists>t1. event_exec Ev_next_idle t = Some t1" by (auto simp: event_exec.simps split: list.split)
  moreover have "in_handler Ev_next_idle" by simp
  ultimately show ?thesis by blast
next
  case (E_accepted fd)
  then have "\<exists>t1. event_exec Ev_limit t = Some t1" by (simp add: event_exec.simps)
  moreover have "in_handler Ev_limit" by simp
  ultimately show ?thesis by blast
next
  case (E_admitted fd)
  then have "\<exists>t1. event_exec Ev_setup_failed t = Some t1" by (simp add: event_exec.simps)
  moreover have "in_handler Ev_setup_failed" by simp
  ultimately show ?thesis by blast
next
  case (E_recv fd r)
  then have "\<exists>t1. event_exec Ev_recv_failed t = Some t1" by (simp add: event_exec.simps)
  moreover have "in_handler Ev_recv_failed" by simp
  ultimately show ?thesis by blast
next
  case (E_enqueue r)
  with assms show ?thesis by simp
next
  case (E_write r)
  then have "\<exists>t1. event_exec (Ev_write (Send_error EBADF)) t = Some t1"
    by (simp add: event_exec.simps send_possible_def Let_def split: prod.split)
  moreover have "in_handler (Ev_write (Send_error EBADF))" by simp
  ultimately show ?thesis by blast
next
  case (E_close fd)
  then have "\<exists>t1. event_exec Ev_close t = Some t1" by (simp add: event_exec.simps)
  moreover have "in_handler Ev_close" by simp
  ultimately show ?thesis by blast
next
  case (E_release fd)
  then have "\<exists>t1. event_exec Ev_release t = Some t1" by (simp add: event_exec.simps)
  moreover have "in_handler Ev_release" by simp
  ultimately show ?thesis by blast
qed

lemma build_possible: "\<exists>env response s1. build_response env request s = Some (Inr response, s1)"
proof -
  let ?fs = "ex_fs\<lparr>fs_canonical := (\<lambda>p. Inl Filesystem_error)\<rparr>"
  have "handle_file_request ?fs ck path fh = Some (Inr (create_error_response (ck_date ck) FORBIDDEN ''Access denied''), fh)"
    for ck path fh by (simp add: handle_file_request_def is_safe_path_def Let_def)
  then have "\<exists>response s1. build_response (ex_env\<lparr>re_fs := ?fs\<rparr>) request s = Some (Inr response, s1)"
    by (simp add: build_response_def Let_def)
  then show ?thesis by blast
qed

lemma task_possible:
  assumes "th_workers t ! i \<noteq> K_idle"
  shows "\<exists>a t1. task_exec i a t = Some t1"
proof (cases "th_workers t ! i")
  case (K_build r request)
  obtain env response s1 where "build_response env request (th_server t) = Some (Inr response, s1)"
    using build_possible by blast
  with K_build have "task_exec i (Tk_build env) t \<noteq> None" by (simp add: task_exec.simps)
  then show ?thesis by blast
next
  case (K_text r response)
  then have "task_exec i (Tk_text ex_env) t \<noteq> None" by (simp add: task_exec.simps)
  then show ?thesis by blast
next
  case (K_send r)
  then have "task_exec i (Tk_send (Send_error EBADF)) t \<noteq> None"
    by (simp add: task_exec.simps send_possible_def Let_def split: prod.split)
  then show ?thesis by blast
next
  case (K_finish r)
  then have "task_exec i (Tk_finish 0) t \<noteq> None" by (simp add: task_exec.simps)
  then show ?thesis by blast
qed (use assms in \<open>auto simp: task_exec.simps(1) Let_def intro!: exI [of _ Tk_go]\<close>)

lemma event_thread_rests:
  assumes r: "reachable program_init program_step y" and f: "finished y" and na: "\<not> pr_aborted y"
    and main: "pr_main y \<noteq> M_stopped"
  shows "pr_loop y \<in> {L_check, L_done}" and "tp_clients (pr_pool y) = [C_idle]"
proof -
  note agree = parts_agreeD [OF parts.reachable_inv [OF r]] and no = finished_move [OF f na]
  have "reachable th_init th_step (pr_threads y)" using program_parts(3) [OF r] main by simp
  then have open_pool: "\<not> sv_pool_shutdown (th_server (pr_threads y))" using settings_reachable by blast
  obtain c where c: "tp_clients (pr_pool y) = [c]" "\<And>r. c = C_push r \<Longrightarrow> th_event (pr_threads y) = E_enqueue r"
    using agree(2) by (auto simp: enqueue_agrees_def)
  have "c \<noteq> C_notify"
  proof
    assume n: "c = C_notify"
    show False
    proof (cases "W_asleep \<in> set (tp_workers (pr_pool y))")
      case True
      then obtain i where "i < length (tp_workers (pr_pool y))" "tp_workers (pr_pool y) ! i = W_asleep"
        by (auto simp: in_set_conv_nth)
      with n c no program_move.enqueue_wakes show False by blast
    next
      case False
      with n c no program_move.enqueue_wakes_none show False by blast
    qed
  qed
  moreover have "c \<noteq> C_push r" for r
  proof
    assume p: "c = C_push r"
    then have "event_exec Ev_enqueue (pr_threads y) \<noteq> None"
      using c(2) open_pool by (simp add: event_exec.simps enqueue_request_def)
    with p c no program_move.enqueue_insert show False by blast
  qed
  ultimately show idle: "tp_clients (pr_pool y) = [C_idle]" using c(1) by (cases c) auto
  have "th_event (pr_threads y) \<noteq> E_enqueue r" for r
  proof
    assume e: "th_event (pr_threads y) = E_enqueue r"
    show False
    proof (cases "enqueue_check 0 r (pr_pool y)")
      case (Inl x)
      with e idle no program_move.enqueue_throws show False by blast
    next
      case (Inr x)
      with e idle no program_move.enqueue_test show False by blast
    qed
  qed
  then have b: "between_handlers y"
    using handler_possible [of "pr_threads y"] no program_move.handler idle
    unfolding between_handlers_def event_idle_def by blast
  then have "event_exec (Ev_collect 0) (pr_threads y) \<noteq> None" by (simp add: event_exec.simps between_handlers_def)
  then show "pr_loop y \<in> {L_check, L_done}"
  proof (cases "pr_loop y")
    case (L_events n)
    with b no program_move.listening program_move.collect \<open>event_exec (Ev_collect 0) (pr_threads y) \<noteq> None\<close>
    show ?thesis by (cases n) blast+
  next
    case (L_accepting n)
    with b no program_move.accepted_all show ?thesis by blast
  next
    case (L_write fd n)
    with b no program_move.not_writable show ?thesis by blast
  next
    case L_cleanup
    with b no program_move.round_over show ?thesis by blast
  qed simp_all
qed

lemma event_thread_ends:
  assumes "reachable program_init program_step y" and "finished y" and "\<not> pr_aborted y"
    and "pr_main y \<notin> {M_serving, M_stopped}"
  shows "pr_loop y = L_done"
  using event_thread_rests(1) [OF assms(1-3)] finished_move [OF assms(2,3)] program_move.leave [of y] assms(4) by blast

lemma workers_end:
  assumes r: "reachable program_init program_step y" and f: "finished y" and na: "\<not> pr_aborted y"
  shows "set (tp_workers (pr_pool y)) \<subseteq> {W_asleep, W_exit}"
proof
  note agree = parts_agreeD [OF parts.reachable_inv [OF r]] and no = finished_move [OF f na]
  fix w assume "w \<in> set (tp_workers (pr_pool y))"
  then obtain i where i: "i < length (tp_workers (pr_pool y))" "tp_workers (pr_pool y) ! i = w"
    by (auto simp: in_set_conv_nth)
  then have j: "i < length (th_workers (pr_threads y))" using agree(1) by (simp add: tasks_agree_def)
  have "w \<noteq> W_check" using i no program_move.worker_tests by blast
  moreover have "w \<noteq> W_run x" for x
  proof
    assume run: "w = W_run x"
    show False
    proof (cases "th_workers (pr_threads y) ! i = K_idle")
      case True
      with run i no program_move.worker_returns show False by blast
    next
      case False
      with j no program_move.worker_runs task_possible [OF False] show False by blast
    qed
  qed
  moreover have "w \<notin> {W_enter, W_woken}"
  proof
    assume e: "w \<in> {W_enter, W_woken}"
    then have k: "th_workers (pr_threads y) ! i = K_idle" using agree(1) i j by (auto simp: tasks_agree_def)
    show False
    proof (cases "tp_tasks (pr_pool y)")
      case Nil
      with e i no program_move.worker_waits show False by blast
    next
      case (Cons a q)
      then have "sv_queue (th_server (pr_threads y)) = a # q" using agree(1) by (simp add: tasks_agree_def)
      with k have "task_exec i Tk_go (pr_threads y) \<noteq> None" by (simp add: task_exec.simps(1) Let_def)
      with e i j k no program_move.worker_takes show False by blast
    qed
  qed
  ultimately show "w \<in> {W_asleep, W_exit}" by (cases w) auto
qed

lemma stop_ends:
  assumes r: "reachable program_init program_step y" and f: "finished y" and na: "\<not> pr_aborted y"
    and main: "pr_main y \<noteq> M_serving"
  shows "pr_main y = M_stopped"
proof (rule ccontr)
  assume live: "pr_main y \<noteq> M_stopped"
  note agree = parts_agreeD [OF parts.reachable_inv [OF r]] and no = finished_move [OF f na]
    and inv = pool_invD [OF program_parts(2) [OF r]]
  have loop: "pr_loop y = L_done" using event_thread_ends [OF r f na] main live by blast
  note workers = workers_end [OF r f na]
  show False
  proof (cases "pr_main y")
    case M_stopping
    show False
    proof (cases "tp_shutdown_pc (pr_pool y)")
      case S_join
      then have "W_asleep \<notin> set (tp_workers (pr_pool y))" using inv(6) by simp
      with workers S_join no program_move.pool_join show False by blast
    qed (use M_stopping no program_move.pool_begin program_move.pool_set program_move.pool_notify
        program_move.pool_joined in blast)+
  qed (use main live loop no program_move.loop_joined program_move.closes in blast)+
qed

lemma stopping_goes_on:
  "program_work\<^sup>*\<^sup>* y y1 \<Longrightarrow> pr_main y \<noteq> M_serving \<Longrightarrow> pr_main y1 \<noteq> M_serving"
  by (induction rule: rtranclp_induct) (auto simp: program_work_def elim!: program_move.cases)

lemma work_reachable:
  "program_work\<^sup>*\<^sup>* y y1 \<Longrightarrow> reachable program_init program_step y \<Longrightarrow> reachable program_init program_step y1"
  by (induction rule: rtranclp_induct) (auto intro: reachable.next_state program_step.work)

section \<open>A program that is started and stopped\<close>

definition ex_program :: program where
  "ex_program = \<lparr>pr_threads = ex_threads, pr_pool = new_pool 1 8 1, pr_loop = L_check, pr_main = M_serving, pr_aborted = False\<rparr>"

lemma ex_program_reachable: "reachable program_init program_step ex_program"
proof (rule reachable.start)
  have "fst (start_server ex_started (new_server None 1 8 8080 []))" by simp
  then show "program_init ex_program" unfolding program_init_def ex_program_def ex_threads_def by blast
qed

definition ex_stopping :: program where
  "ex_stopping = ex_program\<lparr>pr_main := M_stopping\<rparr>"

lemma ex_stopping_reachable: "reachable program_init program_step ex_stopping"
  unfolding ex_stopping_def
  by (rule reachable.next_state [OF ex_program_reachable program_step.stop]) (simp_all add: ex_program_def)

definition ex_joined :: program where
  "ex_joined = ex_program\<lparr>pr_loop := L_done, pr_main := M_loop_joined,
     pr_pool := (new_pool 1 8 1)\<lparr>tp_workers := [W_exit], tp_shutdown := True, tp_shutdown_pc := S_cleared\<rparr>\<rparr>"

definition ex_stopped :: program where
  "ex_stopped = ex_joined\<lparr>pr_threads := close_all ex_threads, pr_main := M_stopped\<rparr>"

lemma ex_joined_work: "program_work\<^sup>*\<^sup>* ex_stopping ex_joined"
proof -
  let ?p0 = "new_pool 1 8 1 :: nat pool"
  let ?p1 = "?p0\<lparr>tp_shutdown_pc := S_set\<rparr>" let ?p2 = "?p0\<lparr>tp_shutdown := True, tp_shutdown_pc := S_notify\<rparr>"
  let ?p3 = "?p2\<lparr>tp_workers := [W_exit]\<rparr>" let ?p4 = "?p3\<lparr>tp_shutdown_pc := S_join\<rparr>" let ?p5 = "?p4\<lparr>tp_shutdown_pc := S_cleared\<rparr>"
  note defs = ex_stopping_def ex_program_def ex_joined_def new_pool_def pool_thread_count_def pool_pieces
  let ?y = "\<lambda>p l m. ex_stopping\<lparr>pr_pool := p, pr_loop := l, pr_main := m\<rparr>"
  note step = rtranclp.rtrancl_into_rtrancl [of program_work]
  have w: "program_work y y1" if "program_move y y1" "\<not> pr_aborted y" for y y1 using that by (simp add: program_work_def)
  have "program_work\<^sup>*\<^sup>* ex_stopping (?y ?p0 L_check M_stopping)" by (simp add: ex_stopping_def ex_program_def)
  moreover have "program_work (?y ?p0 L_check M_stopping) (?y ?p1 L_check M_stopping)"
    using program_move.pool_begin [of "?y ?p0 L_check M_stopping"] by (intro w) (simp_all add: defs)
  moreover have "program_work (?y ?p1 L_check M_stopping) (?y ?p2 L_check M_stopping)"
    using program_move.pool_set [of "?y ?p1 L_check M_stopping"] by (intro w) (simp_all add: defs)
  moreover have "program_work (?y ?p2 L_check M_stopping) (?y ?p3 L_check M_stopping)"
    using program_move.worker_tests [of 0 "?y ?p2 L_check M_stopping"] by (intro w) (simp_all add: defs)
  moreover have "program_work (?y ?p3 L_check M_stopping) (?y ?p4 L_check M_stopping)"
    using program_move.pool_notify [of "?y ?p3 L_check M_stopping"] by (intro w) (simp_all add: defs)
  moreover have "program_work (?y ?p4 L_check M_stopping) (?y ?p5 L_check M_stopping)"
    using program_move.pool_join [of "?y ?p4 L_check M_stopping"] by (intro w) (simp_all add: defs)
  moreover have "program_work (?y ?p5 L_check M_stopping) (?y ?p5 L_check M_pool_joined)"
    using program_move.pool_joined [of "?y ?p5 L_check M_stopping"] by (intro w) (simp_all add: defs)
  moreover have "program_work (?y ?p5 L_check M_pool_joined) (?y ?p5 L_done M_pool_joined)"
    using program_move.leave [of "?y ?p5 L_check M_pool_joined"] by (intro w) (simp_all add: defs)
  moreover have "program_work (?y ?p5 L_done M_pool_joined) (?y ?p5 L_done M_loop_joined)"
    using program_move.loop_joined [of "?y ?p5 L_done M_pool_joined"] by (intro w) (simp_all add: defs)
  moreover have "?y ?p5 L_done M_loop_joined = ex_joined" by (simp add: defs)
  ultimately show ?thesis by (metis (no_types, lifting) step)
qed

lemma ex_stopped_work: "program_work\<^sup>*\<^sup>* ex_stopping ex_stopped"
proof -
  have "program_work ex_joined ex_stopped"
    using program_move.closes [of ex_joined]
    by (simp add: program_work_def ex_stopped_def) (simp add: ex_joined_def ex_program_def)
  with ex_joined_work show ?thesis by (rule rtranclp.rtrancl_into_rtrancl)
qed

section \<open>Properties\<close>



text \<open>C5: Stopping leaves nothing open, whatever the other threads were doing when it began.  When the pool
  and the event thread have been joined, the map holds exactly the client descriptors that are
  open, each once, and these and the listening socket are what \<open>stop\<close> then closes; after that
  nothing is open, every task accepted has either been run or is still in the queue, no thread is
  left and nothing happens any more.\<close>

theorem stop_leaves_nothing_open:
  assumes "reachable program_init program_step y"
  shows "(pr_main y = M_loop_joined \<longrightarrow>
      (let t = pr_threads y; s = th_server t; fds = map fst (sv_connections s)
       in distinct fds \<and> set fds = {fd. th_kernel t fd \<noteq> None} \<and>
          closed_fds (sv_calls (stop_server s)) =
            closed_fds (sv_calls s) @ fds @ (if sv_server_fd s = - 1 then [] else [sv_server_fd s]))) \<and>
    (pr_main y = M_stopped \<longrightarrow> all_closed (pr_threads y) \<and> pr_loop y = L_done \<and>
      set (tp_workers (pr_pool y)) \<subseteq> {W_exit} \<and> set (th_workers (pr_threads y)) \<subseteq> {K_idle} \<and>
      mset (tp_pushed (pr_pool y)) = mset (tp_done (pr_pool y)) + mset (tp_tasks (pr_pool y)) \<and>
      (\<nexists>y1. program_step y y1))"
proof -
  note agree = parts.reachable_inv [OF assms] and inv = program_parts(2) [OF assms]
  let ?t = "pr_threads y" let ?s = "th_server ?t" let ?fds = "map fst (sv_connections ?s)"
  have joined: "distinct ?fds \<and> set ?fds = {fd. th_kernel ?t fd \<noteq> None} \<and> closed_fds (sv_calls (stop_server ?s)) =
      closed_fds (sv_calls ?s) @ ?fds @ (if sv_server_fd ?s = - 1 then [] else [sv_server_fd ?s])"
    if main: "pr_main y = M_loop_joined"
  proof -
    note l = loop_joined_parts [OF assms main]
    have "set ?fds = {fd. th_kernel ?t fd \<noteq> None}"
      using open_at_end [OF l(1-3)] by (force simp: find_conn_def map_of_eq_None_iff)
    then show ?thesis using held_distinct [OF l(1)] stop_server_end(4) [OF l(4)] by simp
  qed
  have stopped: "all_closed ?t \<and> pr_loop y = L_done \<and> set (tp_workers (pr_pool y)) \<subseteq> {W_exit} \<and>
      set (th_workers ?t) \<subseteq> {K_idle} \<and>
      mset (tp_pushed (pr_pool y)) = mset (tp_done (pr_pool y)) + mset (tp_tasks (pr_pool y)) \<and> (\<nexists>y1. program_step y y1)"
    if main: "pr_main y = M_stopped"
  proof -
    have c: "tp_shutdown_pc (pr_pool y) = S_cleared" "pr_loop y = L_done"
      using parts_agreeD(4) [OF agree] main by (auto simp: stop_agrees_def)
    note w = workers_returned [OF agree inv c(1)]
    have "running (tp_workers (pr_pool y)) = {#}" using running_idle w(1) by blast
    then have "mset (tp_pushed (pr_pool y)) = mset (tp_done (pr_pool y)) + mset (tp_tasks (pr_pool y))"
      using pool_invD(2,3) [OF inv] by simp
    with stopped_stuck [OF agree inv main] stopped_closed [OF assms main] w c(2) show ?thesis by blast
  qed
  show ?thesis using joined stopped unfolding Let_def by blast
qed

theorem stop_leaves_nothing_open_witness:
  "pr_main ex_stopped = M_stopped \<and> all_closed (pr_threads ex_stopped) \<and> (\<nexists>y. program_step ex_stopped y)"
proof -
  have "reachable program_init program_step ex_stopped"
    by (rule work_reachable [OF ex_stopped_work ex_stopping_reachable])
  note r = stop_leaves_nothing_open [OF this]
  have "pr_main ex_stopped = M_stopped" by (simp add: ex_stopped_def)
  with r show ?thesis by blast
qed



end
