(* ===== verification/Program_Serving.thy ===== *)
theory Program_Serving
  imports Program_Stop Server_Answers
begin

text \<open>
  What the running program does as long as it is not stopped: the work at hand runs out, and then
  every request it was given has been dealt with.
\<close>

declare event_exec.simps [simp del] task_exec.simps [simp del]

lemma serving_parts:
  assumes r: "reachable program_init program_step y" and f: "finished y" and main: "pr_main y = M_serving"
  shows "\<not> pr_aborted y" "pr_loop y = L_check" "event_idle (pr_threads y)" "set (th_workers (pr_threads y)) \<subseteq> {K_idle}"
    "mset (tp_done (pr_pool y)) = mset (tp_pushed (pr_pool y))" "tp_tasks (pr_pool y) = []"
proof -
  note agree = parts_agreeD [OF parts.reachable_inv [OF r]] and inv = program_parts(2) [OF r]
  have pc: "tp_shutdown_pc (pr_pool y) = S_idle" using agree(4) main by (simp add: stop_agrees_def)
  then have up: "\<not> tp_shutdown (pr_pool y)" using pool_invD(5) [OF inv] by simp
  then show na: "\<not> pr_aborted y" using aborted_shutdown [OF r] by blast
  note e = event_thread_rests [OF r f na] and w = workers_end [OF r f na]
  show l: "pr_loop y = L_check" using e(1) main agree(3) by (auto simp: loop_agrees_def)
  then show idle: "event_idle (pr_threads y)" using agree(3) by (simp add: loop_agrees_def between_handlers_def)
  have "settled (pr_pool y)"
    unfolding settled_def
  proof
    assume "\<exists>p. pool_work (pr_pool y) p"
    then obtain p where "pool_work (pr_pool y) p" by blast
    moreover have "tp_workers (pr_pool y) ! i \<in> {W_asleep, W_exit}" if "i < length (tp_workers (pr_pool y))" for i
      using w that nth_mem by blast
    ultimately show False using pc e(2) main by cases fastforce+
  qed
  from settled_idle [OF this up inv]
  have s: "mset (tp_done (pr_pool y)) = mset (tp_pushed (pr_pool y))" "tp_tasks (pr_pool y) = []"
    "set (tp_workers (pr_pool y)) = {W_asleep}" by simp_all
  then show "mset (tp_done (pr_pool y)) = mset (tp_pushed (pr_pool y))" "tp_tasks (pr_pool y) = []" by simp_all
  show "set (th_workers (pr_threads y)) \<subseteq> {K_idle}"
  proof
    fix k assume "k \<in> set (th_workers (pr_threads y))"
    then obtain i where i: "i < length (th_workers (pr_threads y))" "th_workers (pr_threads y) ! i = k"
      by (auto simp: in_set_conv_nth)
    then have "tp_workers (pr_pool y) ! i = W_asleep" using s(3) agree(1) nth_mem by (force simp: tasks_agree_def)
    with i agree(1) show "k \<in> {K_idle}" by (auto simp: tasks_agree_def)
  qed
qed


lemma work_finishes:
  assumes "reachable program_init program_step y"
  shows "\<exists>y1. program_work\<^sup>*\<^sup>* y y1 \<and> finished y1"
proof -
  have "wf work_left" by (simp add: work_left_def)
  then show ?thesis using assms
  proof (induction y rule: wf_induct_rule)
    case (less y)
    show ?case
    proof (cases "finished y")
      case False
      then obtain y1 where y1: "program_work y y1" by (auto simp: finished_def)
      then have "reachable program_init program_step y1"
        using less.prems reachable.next_state program_step.work by metis
      with less.IH [OF work_decreases [OF less.prems y1]] y1 show ?thesis
        by (blast intro: converse_rtranclp_into_rtranclp)
    qed blast
  qed
qed

lemma serving_goes_on: "program_work\<^sup>*\<^sup>* y y1 \<Longrightarrow> pr_main y = M_serving \<Longrightarrow> pr_main y1 = M_serving"
  by (induction rule: rtranclp_induct) (auto simp: program_work_def elim!: program_move.cases)

text \<open>A client has connected and sent a request, and the event thread is about to queue its task.\<close>

lemma ex_requested:
  obtains y where "reachable program_init program_step y" and "pr_main y = M_serving"
    and "th_event (pr_threads y) = E_enqueue 0" and "find_conn 7 (th_server (pr_threads y)) = Some 0"
    and "is_http_request_complete (cn_buffer (get_conn 0 (th_server (pr_threads y))))"
proof -
  let ?acts = "[Ev_accept 7, Ev_limit, Ev_insert 0, Ev_readable 7, Ev_recv bad_request 0]"
  have "\<exists>t. run_trace (map Inl ?acts) ex_threads = Some t \<and> th_event t = E_enqueue 0 \<and> find_conn 7 (th_server t) = Some 0 \<and>
     cn_buffer (get_conn 0 (th_server t)) = bad_request"
    using bad_request_facts
    by (simp add: event_exec.simps ex_threads_def new_threads_def new_server_def pool_thread_count_def event_idle_def
        at_event_def kernel_close_def register_def do_call_def add_fd_def add_connection_def
        load_max_connections_from_config_def find_conn_def get_conn_def upd_conn_def append_section_def Let_def
        MAX_REQUEST_SIZE_def BUFFER_SIZE_def new_connection_def store_data_def)
  then obtain t1 t2 t3 t4 t where e: "event_exec (Ev_accept 7) ex_threads = Some t1" "event_exec Ev_limit t1 = Some t2"
      "event_exec (Ev_insert 0) t2 = Some t3" "event_exec (Ev_readable 7) t3 = Some t4"
      "event_exec (Ev_recv bad_request 0) t4 = Some t"
    and t: "th_event t = E_enqueue 0" "find_conn 7 (th_server t) = Some 0" "cn_buffer (get_conn 0 (th_server t)) = bad_request"
    by (auto split: option.splits)
  let ?y = "\<lambda>t l. \<lparr>pr_threads = t, pr_pool = new_pool 1 8 1, pr_loop = l, pr_main = M_serving, pr_aborted = False\<rparr>"
  have idle: "event_idle ex_threads" "event_idle t3"
    using e(1,4) by (auto simp: event_exec.simps split: if_splits)
  have b: "between_handlers (?y t l)" if "event_idle t" for t l
    using that by (simp add: between_handlers_def ex_program_def new_pool_def)
  have sfd: "sv_server_fd (th_server t3) = 3"
    using e(1-3) by (auto simp: event_exec.simps ex_threads_def new_threads_def drop_accepted_def register_def add_connection_def
        do_call_def at_event_def kernel_close_def split: if_splits event_pc.splits)
  have na: "\<not> pr_aborted (?y t l)" for t l by (simp add: ex_program_def)
  have w: "program_step (?y t l) y1" if "program_move (?y t l) y1" for t l y1
    using that na by (intro program_step.work) (simp add: program_work_def)
  note go = reachable.next_state [of program_init program_step]
  have "ex_program = ?y ex_threads L_check" by (simp add: ex_program_def)
  then have "reachable program_init program_step (?y ex_threads L_check)" using ex_program_reachable by simp
  then have "reachable program_init program_step (?y ex_threads (L_events 2))"
    by (rule go) (use program_step.wait [of "?y ex_threads L_check" 2] na in \<open>simp add: ex_program_def MAX_EVENTS_def\<close>)
  then have "reachable program_init program_step (?y ex_threads (L_accepting 1))"
    by (rule go) (use w [OF program_move.listening [where y = "?y ex_threads (L_events 2)" and n = 1]] b idle in simp)
  then have "reachable program_init program_step (?y t1 (L_accepting 1))"
    by (rule go) (use program_step.accept [where y = "?y ex_threads (L_accepting 1)" and n = 1 and fd = 7 and t = t1] na b idle e(1) in simp)
  then have "reachable program_init program_step (?y t2 (L_accepting 1))"
    by (rule go) (use w [OF program_move.handler [where a = Ev_limit and y = "?y t1 (L_accepting 1)" and t = t2]] e(2) in simp)
  then have "reachable program_init program_step (?y t3 (L_accepting 1))"
    by (rule go) (use w [OF program_move.handler [where a = "Ev_insert 0" and y = "?y t2 (L_accepting 1)" and t = t3]] e(3) in simp)
  then have "reachable program_init program_step (?y t3 (L_events 1))"
    by (rule go) (use w [OF program_move.accepted_all [where y = "?y t3 (L_accepting 1)" and n = 1]] b idle in simp)
  then have "reachable program_init program_step (?y t4 (L_write 7 0))"
    by (rule go) (use w [OF program_move.readable [where y = "?y t3 (L_events 1)" and n = 0 and fd = 7 and t = t4]] b idle e(4) sfd in simp)
  then have "reachable program_init program_step (?y t (L_write 7 0))"
    by (rule go) (use w [OF program_move.handler [where a = "Ev_recv bad_request 0" and y = "?y t4 (L_write 7 0)" and t = t]] e(5) in simp)
  then show ?thesis using that [of "?y t (L_write 7 0)"] t bad_request_facts(1) by (simp add: ex_program_def)
qed


end
