(* ===== verification/Spec2Isabelle.thy ===== *)
theory Spec2Isabelle
  imports Cache_Stats Http_Request Http_Response Http_Framing File_Handler Rate_Limiter Thread_Pool
    Epoll_Wrapper Logger Main_Args Server_State Server Server_Threads Server_Safety Server_Types
    Server_Runs Server_Answers Server_Stream Lock_Order Program Program_Threads Program_Stop Program_Serving
begin

text \<open>
  A verification library for the multithreaded HTTP server of this repository: a single event
  thread waits on epoll, accepts connections and collects the bytes of requests; a pool of workers
  parses complete requests, serves files below a document root through a cache, and writes the
  responses, as far as the sockets take them; what is left is written by the event thread.

  \<^bold>\<open>The theories and the code they model\<close> (files under \<open>src/src\<close> and \<open>src/include\<close>).
  \<^item> \<open>Webserver_Prelude\<close>: errors and results, clocks, and the pieces of the C++ library the sources
    use (\<open>getline\<close>, \<open>find\<close>, \<open>stoi\<close>, \<open>stoull\<close>, decimal output), with the lemmas all theories share.
    \<open>Interfaces\<close>: the contracts between components as locales (\<open>hash_map\<close>, \<open>content_cache\<close>,
    \<open>bounded_cache\<close>, \<open>inductive_invariant\<close>, \<open>simulation\<close>) and \<open>reachable\<close>.
  \<^item> \<open>Lru_Cache\<close>: \<open>cache.cpp\<close>.  List, map with iterators, and 64-bit size counter; refinement of a
    recency list with a size bound; interpretations of the cache contracts.  \<open>Cache_Stats\<close>: the hit
    ratio, a \<open>double\<close>.
  \<^item> \<open>Http_Request\<close>: \<open>http_request.cpp\<close>, the parser.  \<open>Http_Framing\<close>: \<open>is_http_request_complete\<close> and
    \<open>is_likely_http_request\<close> of \<open>server.cpp\<close>.  \<open>Http_Response\<close>: \<open>http_response.cpp\<close>, and a reader of
    responses as a client has it.
  \<^item> \<open>File_Handler\<close>: \<open>file_handler.cpp\<close>.  The file system is a record of functions that may raise
    errors, fixed during a request.
  \<^item> \<open>Double_Arith\<close>, \<open>Rate_Limiter\<close>: \<open>rate_limiter.cpp\<close>, with doubles as rounded rationals.
  \<^item> \<open>Thread_Pool\<close>: \<open>thread_pool.cpp\<close> and \<open>enqueue\<close>, as a step relation over all interleavings.
  \<^item> \<open>Epoll_Wrapper\<close>: \<open>epoll_wrapper.cpp\<close>.  \<open>Logger\<close>: \<open>logger.cpp\<close>.  \<open>Main_Args\<close>, \<open>Program\<close>: \<open>main.cpp\<close>
    with \<open>Server::start\<close> and \<open>Server::stop\<close>.
  \<^item> \<open>Server_State\<close>: struct \<open>Connection\<close>, class \<open>Server\<close>, the configuration, and the sections of
    \<open>server.cpp\<close> that run under one lock.  \<open>Server\<close>: the handlers composed of them, each run to its end.
  \<^item> \<open>Server_Threads\<close>: the same sections as the steps of the event thread and the workers, with the
    kernel's table of descriptors.  Invariants of all interleavings: \<open>Server_Safety\<close> (descriptors,
    tasks, limits, where responses go), \<open>Server_Types\<close> (pointers, offsets), \<open>Server_Answers\<close> (requests
    received and tasks), \<open>Server_Delivery\<close> and \<open>Server_Stream\<close> (the bytes sent, and what a client reads
    in them; the locale \<open>response_source\<close> is what both need of a set of runs).  \<open>Server_Runs\<close>: each
    handler of \<open>Server\<close> is a run of \<open>Server_Threads\<close>.  \<open>Lock_Order\<close>: the mutexes each function takes, and in which order.
  \<^item> \<open>Program_Threads\<close>: the running program, \<open>Server_Threads\<close> and \<open>Thread_Pool\<close> put together with
    \<open>event_loop\<close> and the thread in \<open>Server::stop\<close>; it is shown to refine both (locale \<open>simulation\<close>).
    \<open>Program_Stop\<close>: stopping it.  \<open>Program_Serving\<close>: serving.

  \<^bold>\<open>State.\<close>  Objects are records with the fields of the class; \<open>std::unordered_map\<close> is an
  association list with distinct keys; a \<open>std::shared_ptr\<close> is an index into a heap, so that a worker
  can go on using a connection the map has forgotten; \<open>size_t\<close> is a 64-bit word where it can wrap.
  What the outside returns (system calls, clocks, the order in which a hash table is walked) is an
  argument, and the system calls made are recorded in order.  Exceptions are values of a sum type;
  a loop that may not end is \<open>partial_function (option)\<close>, a function of the outcomes of its calls that
  is undefined when they run out, or a recursion with a measure; where the code returns, that is a
  theorem.

  \<^bold>\<open>What is shown.\<close>
  \<^item> From end to end: the bytes of a request, in whatever pieces they come, are handed to the pool
    exactly once, with the last byte; the task of a request ends without an exception and sends one
    message a client can read; a GET for a file below the root is answered with exactly its bytes,
    however the socket cuts them; one connection's events do not touch another's.
  \<^item> In every interleaving: each open descriptor has exactly one owner responsible for closing it, a
    connection is marked as being processed exactly while one task for it exists, connections,
    buffers and descriptors stay within bounds, pointers lead to objects, nothing is sent for a
    connection but responses to requests received on it, in frame as long as no \<open>send\<close> fails and none
    is posted over another, and what the event thread sends reaches the client it is for.  The pool loses no task
    and no wake-up, runs tasks in order and once, and can always be shut down.  The locks are taken
    in an order that cannot deadlock, with one exception.
  \<^item> Of the program put together: the handlers as functions and as interleaved steps are the same
    code; the pool and the server behave in it as they do alone; the work at hand always runs out,
    and then no complete request is left unanswered; a stop, begun at any moment, comes to its end
    and leaves no descriptor open and no thread running.
  \<^item> Components: the cache refines its specification and evicts the least recently used entries
    only; the parser inverts rendering and accepts nothing malformed; responses are framed and
    readable; no path leaves the document root but through a default file; tokens granted are
    bounded by rate and burst; the program starts completely or gives back what it had.
  \<^item> What goes wrong, with runs or inputs that show it: a response sent to the wrong client after its
    descriptor was used again; a deadlock of the event thread with a worker; a pending response cut
    off by the next request; an exception that ends the process during shutdown; a cache that grows
    past its limit; default files that link outside the root; lengths that wrap in the framing of
    requests; tasks dropped by a shutdown; a logger that deadlocks on its first use; a token bucket
    that starves a busy client.

  \<^bold>\<open>Bounds.\<close>  Nothing is bounded for the sake of a proof: lengths below \<open>2 ^ 64\<close> are assumed where
  the code computes with \<open>size_t\<close>, the file cache is at most \<open>2 ^ 64 - 2 ^ 20\<close> bytes, and the number
  of threads and connections is arbitrary.  That work runs out is shown by measures, not by fuel
  (\<open>work_left\<close> in \<open>Program_Stop\<close>, \<open>pool_rank\<close> in \<open>Thread_Pool\<close>); new clients, waits for events and spurious
  wake-ups are not work at hand, and a thread that can go on is taken to get its locks, which
  \<open>Lock_Order\<close> is about.

  \<^bold>\<open>Not modelled.\<close>  Messages of the server on the error stream; socket options whose failure only prints a
  warning; \<open>Server::get_client_ip\<close>, declared but never defined; the memory model below sequentially
  consistent steps (the code reads \<open>keep_alive\<close> and \<open>last_activity\<close> without their mutex); the tests,
  scripts, container files and pages of the repository, which are not part of the program.
\<close>

end
